(* ===== verification/Prelude.thy ===== *)
theory Prelude
  imports Main "HOL-Library.Char_ord" "HOL-Library.List_Lexorder"
begin

text \<open>
  What the components share: the exceptions of the library as values, a state and
  exception monad for the operations that mutate objects and may throw, and
  \<open>std::map\<close> as a list of entries sorted by the map's comparator, with the laws of
  its operations proved once for every strict weak order.
\<close>

named_theorems exec_simps \<open>unfolding the monadic operations of a component\<close>

section \<open>Exceptions\<close>

text \<open>
  The C++ code throws objects of four unrelated families: \<open>native::FutureError\<close> (the only
  one the callback machinery catches), other \<open>native::Exception\<close>s, \<open>native::Error\<close>
  (thrown by value by the file system calls) and \<open>std::runtime_error\<close> (a failed
  \<open>NNATIVE_ASSERT\<close>).
\<close>

datatype exn =
    FutureExn string
  | NativeExn string
  | ErrorExn int string
  | AssertExn string

definition PromiseAlreadySatisfied :: exn where
  "PromiseAlreadySatisfied = FutureExn ''Promise already satisfied''"

section \<open>State and exceptions\<close>

type_synonym ('s, 'a) M = "'s \<Rightarrow> (exn + 'a) \<times> 's"

definition retM :: "'a \<Rightarrow> ('s, 'a) M" where
  "retM x s = (Inr x, s)"

definition throwM :: "exn \<Rightarrow> ('s, 'a) M" where
  "throwM e s = (Inl e, s)"

definition bindM :: "('s, 'a) M \<Rightarrow> ('a \<Rightarrow> ('s, 'b) M) \<Rightarrow> ('s, 'b) M" where
  "bindM m k s = (case m s of (Inl e, s') \<Rightarrow> (Inl e, s') | (Inr x, s') \<Rightarrow> k x s')"

definition thenM :: "('s, 'a) M \<Rightarrow> ('s, 'b) M \<Rightarrow> ('s, 'b) M" where
  "thenM m k = bindM m (\<lambda>_. k)"

definition modM :: "('s \<Rightarrow> 's) \<Rightarrow> ('s, unit) M" where
  "modM f s = (Inr (), f s)"

definition assertM :: "('s \<Rightarrow> bool) \<Rightarrow> string \<Rightarrow> ('s, unit) M" where
  "assertM P msg s = (if P s then (Inr (), s) else (Inl (AssertExn msg), s))"

text \<open>\<open>catch (const FutureError \&e)\<close>: every other exception passes through.\<close>

definition catchFuture :: "('s, 'a) M \<Rightarrow> (string \<Rightarrow> ('s, 'a) M) \<Rightarrow> ('s, 'a) M" where
  "catchFuture m h s =
     (case m s of (Inl (FutureExn msg), s') \<Rightarrow> h msg s' | r \<Rightarrow> r)"

fun forM :: "'b list \<Rightarrow> ('b \<Rightarrow> ('s, unit) M) \<Rightarrow> ('s, unit) M" where
  "forM [] f = retM ()"
| "forM (x # xs) f = thenM (f x) (forM xs f)"

lemmas monad_defs = retM_def throwM_def bindM_def thenM_def modM_def assertM_def
declare monad_defs [exec_simps]

lemma bindM_Inr:
  "bindM m k s = (Inr y, t) \<longleftrightarrow> (\<exists>x u. m s = (Inr x, u) \<and> k x u = (Inr y, t))"
  by (auto simp: bindM_def split: prod.splits sum.splits)

lemma thenM_Inr:
  "thenM m k s = (Inr y, t) \<longleftrightarrow> (\<exists>x u. m s = (Inr x, u) \<and> k u = (Inr y, t))"
  by (simp add: thenM_def bindM_Inr)

lemma modM_Inr [simp]: "modM f s = (Inr y, t) \<longleftrightarrow> t = f s"
  by (auto simp: modM_def)

lemma assertM_Inr [simp]: "assertM P msg s = (Inr y, t) \<longleftrightarrow> P s \<and> t = s"
  by (auto simp: assertM_def)

lemma retM_Inr [simp]: "retM x s = (Inr y, t) \<longleftrightarrow> y = x \<and> t = s"
  by (auto simp: retM_def)

lemma throwM_Inr [simp]: "throwM e s = (Inr y, t) \<longleftrightarrow> False"
  by (auto simp: throwM_def)

lemmas monad_Inr = bindM_Inr thenM_Inr

text \<open>
  A property of the state that an operation keeps when it returns, and when it throws an
  exception the library catches. After any other exception the program is not continued.
  The rules below carry such a property through the monad's combinators.
\<close>

definition ok :: "exn + 'a \<Rightarrow> bool" where
  "ok r = (case r of Inl (FutureExn _) \<Rightarrow> True | Inl _ \<Rightarrow> False | Inr _ \<Rightarrow> True)"

lemma ok_simps [simp]: "ok (Inr x)" "ok (Inl e) \<longleftrightarrow> (\<exists>m. e = FutureExn m)"
  by (auto simp: ok_def split: exn.splits)

lemma PromiseAlreadySatisfied_FutureExn [simp]: "\<exists>m. PromiseAlreadySatisfied = FutureExn m"
  by (simp add: PromiseAlreadySatisfied_def)

definition keeps :: "('s \<Rightarrow> bool) \<Rightarrow> ('s \<Rightarrow> bool) \<Rightarrow> ('s, 'a) M \<Rightarrow> bool" where
  "keeps P Q m \<longleftrightarrow> (\<forall>s. P s \<longrightarrow> ok (fst (m s)) \<longrightarrow> Q (snd (m s)))"

lemma keepsI: "(\<And>s r t. P s \<Longrightarrow> m s = (r, t) \<Longrightarrow> ok r \<Longrightarrow> Q t) \<Longrightarrow> keeps P Q m"
  unfolding keeps_def by (metis prod.collapse)

lemma keepsD: "keeps P Q m \<Longrightarrow> P s \<Longrightarrow> m s = (r, t) \<Longrightarrow> ok r \<Longrightarrow> Q t"
  unfolding keeps_def by (metis fst_conv snd_conv)

lemma keeps_conj:
  assumes "keeps P P m" and "\<And>s r t. P s \<Longrightarrow> Q s \<Longrightarrow> m s = (r, t) \<Longrightarrow> ok r \<Longrightarrow> Q t"
  shows "keeps (\<lambda>s. P s \<and> Q s) (\<lambda>s. P s \<and> Q s) m"
proof (rule keepsI)
  fix s r t assume a: "P s \<and> Q s" "m s = (r, t)" "ok r"
  then have "P t" using keepsD [OF assms(1)] by blast
  with a assms(2) show "P t \<and> Q t" by blast
qed

lemma keeps_ret [simp, intro]: "keeps P P (retM x)"
  by (simp add: keeps_def retM_def)

lemma keeps_throw [simp, intro]: "keeps P P (throwM e)"
  by (simp add: keeps_def throwM_def)

lemma keeps_assert [simp, intro]: "keeps P P (assertM Q msg)"
  by (simp add: keeps_def assertM_def)

lemma keeps_mod: "(\<And>s. P s \<Longrightarrow> Q (f s)) \<Longrightarrow> keeps P Q (modM f)"
  by (simp add: keeps_def modM_def)

lemma keeps_bind: "keeps P P m \<Longrightarrow> (\<And>x. keeps P P (k x)) \<Longrightarrow> keeps P P (bindM m k)"
proof (rule keepsI)
  fix s r t
  assume m: "keeps P P m" and k: "\<And>x. keeps P P (k x)"
    and s: "P s" and eq: "bindM m k s = (r, t)" and ok: "ok r"
  obtain q u where q: "m s = (q, u)" by (cases "m s")
  show "P t"
  proof (cases q)
    case (Inl e)
    with eq ok q have "t = u" "ok q" by (auto simp: bindM_def)
    with keepsD [OF m s q] show ?thesis by simp
  next
    case (Inr x)
    with keepsD [OF m s q] eq q show ?thesis
      using keepsD [OF k [of x], of u r t] ok by (simp add: bindM_def)
  qed
qed

lemma keeps_then: "keeps P P m \<Longrightarrow> keeps P P k \<Longrightarrow> keeps P P (thenM m k)"
  by (simp add: thenM_def keeps_bind)

lemma keeps_catch: "keeps P P m \<Longrightarrow> (\<And>e. keeps P P (h e)) \<Longrightarrow> keeps P P (catchFuture m h)"
proof (rule keepsI)
  fix s r t
  assume m: "keeps P P m" and h: "\<And>e. keeps P P (h e)"
    and s: "P s" and eq: "catchFuture m h s = (r, t)" and ok: "ok r"
  obtain q u where q: "m s = (q, u)" by (cases "m s")
  show "P t"
  proof (cases "\<exists>e. q = Inl (FutureExn e)")
    case True
    then obtain e where e: "q = Inl (FutureExn e)" by blast
    with keepsD [OF m s q] have "P u" by simp
    with keepsD [OF h [of e], of u r t] e eq q ok show ?thesis by (simp add: catchFuture_def)
  next
    case False
    with eq q have "r = q" "t = u"
      by (auto simp: catchFuture_def split: sum.splits exn.splits)
    with keepsD [OF m s q] ok show ?thesis by simp
  qed
qed

lemma keeps_for: "(\<And>x. x \<in> set xs \<Longrightarrow> keeps P P (f x)) \<Longrightarrow> keeps P P (forM xs f)"
  by (induction xs) (auto intro: keeps_then)

section \<open>Ordered maps\<close>

text \<open>
  \<open>std::map<K, V, Less>\<close>: entries in the order of \<open>Less\<close>; two keys are the same key when
  neither is less than the other. \<open>operator[]\<close> followed by an assignment keeps the key
  that is already stored.
\<close>

type_synonym ('k, 'v) omap = "('k \<times> 'v) list"

definition same_key :: "('k \<Rightarrow> 'k \<Rightarrow> bool) \<Rightarrow> 'k \<Rightarrow> 'k \<Rightarrow> bool" where
  "same_key lt a b \<longleftrightarrow> \<not> lt a b \<and> \<not> lt b a"

fun omap_find :: "('k \<Rightarrow> 'k \<Rightarrow> bool) \<Rightarrow> 'k \<Rightarrow> ('k, 'v) omap \<Rightarrow> 'v option" where
  "omap_find lt k [] = None"
| "omap_find lt k ((a, v) # m) = (if same_key lt k a then Some v else omap_find lt k m)"

fun omap_set :: "('k \<Rightarrow> 'k \<Rightarrow> bool) \<Rightarrow> 'k \<Rightarrow> 'v \<Rightarrow> ('k, 'v) omap \<Rightarrow> ('k, 'v) omap" where
  "omap_set lt k v [] = [(k, v)]"
| "omap_set lt k v ((a, w) # m) =
     (if lt k a then (k, v) # (a, w) # m
      else if lt a k then (a, w) # omap_set lt k v m
      else (a, v) # m)"

fun omap_erase :: "('k \<Rightarrow> 'k \<Rightarrow> bool) \<Rightarrow> 'k \<Rightarrow> ('k, 'v) omap \<Rightarrow> ('k, 'v) omap" where
  "omap_erase lt k [] = []"
| "omap_erase lt k ((a, w) # m) =
     (if same_key lt k a then m else (a, w) # omap_erase lt k m)"

definition omap_sorted :: "('k \<Rightarrow> 'k \<Rightarrow> bool) \<Rightarrow> ('k, 'v) omap \<Rightarrow> bool" where
  "omap_sorted lt m \<longleftrightarrow> sorted_wrt lt (map fst m)"

lemma omap_sorted_Nil [simp]: "omap_sorted lt []"
  by (simp add: omap_sorted_def)

lemma omap_sorted_Cons [simp]:
  "omap_sorted lt ((a, v) # m) \<longleftrightarrow> (\<forall>b \<in> fst ` set m. lt a b) \<and> omap_sorted lt m"
  by (auto simp: omap_sorted_def)

text \<open>The contract every comparator of a \<open>std::map\<close> must meet: a strict weak order.\<close>

locale key_order =
  fixes lt :: "'k \<Rightarrow> 'k \<Rightarrow> bool"
  assumes irrefl: "\<not> lt a a"
    and trans: "lt a b \<Longrightarrow> lt b c \<Longrightarrow> lt a c"
    and incomp: "lt a c \<Longrightarrow> lt a b \<or> lt b c"
begin

lemma asym: "lt a b \<Longrightarrow> \<not> lt b a"
  using irrefl trans by blast

lemma same_refl [simp]: "same_key lt a a"
  by (simp add: same_key_def irrefl)

lemma same_sym: "same_key lt a b \<Longrightarrow> same_key lt b a"
  by (simp add: same_key_def)

lemma same_trans: "same_key lt a b \<Longrightarrow> same_key lt b c \<Longrightarrow> same_key lt a c"
  unfolding same_key_def using incomp by blast

lemma same_cong: "same_key lt k k' \<Longrightarrow> same_key lt k a = same_key lt k' a"
  using same_sym same_trans by blast

lemma find_same: "same_key lt k k' \<Longrightarrow> omap_find lt k m = omap_find lt k' m"
  by (induction m) (auto simp: same_cong)

lemma find_less_all: "\<forall>b \<in> fst ` set m. lt k b \<Longrightarrow> omap_find lt k m = None"
  by (induction m) (auto simp: same_key_def)

lemma keys_set: "b \<in> fst ` set (omap_set lt k v m) \<Longrightarrow> b = k \<or> b \<in> fst ` set m"
  by (induction m) (force split: if_splits)+

lemma find_set_same: "omap_find lt k (omap_set lt k v m) = Some v"
  by (induction m) (auto simp: same_key_def irrefl)

lemma find_set_other:
  "\<not> same_key lt k k' \<Longrightarrow> omap_find lt k' (omap_set lt k v m) = omap_find lt k' m"
  by (induction m) (auto simp: same_key_def dest: incomp)

lemma sorted_set: "omap_sorted lt m \<Longrightarrow> omap_sorted lt (omap_set lt k v m)"
proof (induction m)
  case Nil
  then show ?case by simp
next
  case (Cons p m)
  obtain a w where p: "p = (a, w)" by (cases p)
  from Cons.prems have "\<forall>b \<in> fst ` set m. lt a b" and "omap_sorted lt m"
    by (auto simp: p)
  moreover have "\<forall>b \<in> fst ` set (omap_set lt k v m). lt a b" if "lt a k"
    using that keys_set [of _ k v m] calculation(1) by blast
  ultimately show ?case
    using Cons.IH by (auto simp: p intro: trans)
qed

lemma find_erase_same: "omap_sorted lt m \<Longrightarrow> omap_find lt k (omap_erase lt k m) = None"
proof (induction m)
  case Nil
  then show ?case by simp
next
  case (Cons p m)
  obtain a w where p: "p = (a, w)" by (cases p)
  from Cons.prems have a: "\<forall>b \<in> fst ` set m. lt a b" and "omap_sorted lt m"
    by (auto simp: p)
  then show ?case
    using Cons.IH find_less_all [OF a] find_same [of k a m]
    by (auto simp: p)
qed

lemma find_erase_other:
  "\<not> same_key lt k k' \<Longrightarrow> omap_find lt k' (omap_erase lt k m) = omap_find lt k' m"
proof (induction m)
  case Nil
  then show ?case by simp
next
  case (Cons p m)
  obtain a w where p: "p = (a, w)" by (cases p)
  from Cons.prems have "\<not> (same_key lt k a \<and> same_key lt k' a)"
    using same_sym same_trans by blast
  with Cons show ?case by (auto simp: p)
qed

lemma keys_erase: "b \<in> fst ` set (omap_erase lt k m) \<Longrightarrow> b \<in> fst ` set m"
  by (induction m) (force split: if_splits)+

lemma sorted_erase: "omap_sorted lt m \<Longrightarrow> omap_sorted lt (omap_erase lt k m)"
proof (induction m)
  case Nil
  then show ?case by simp
next
  case (Cons p m)
  obtain a w where p: "p = (a, w)" by (cases p)
  from Cons have "\<forall>b \<in> fst ` set m. lt a b" and "omap_sorted lt (omap_erase lt k m)"
    and "omap_sorted lt m"
    by (auto simp: p)
  moreover have "\<forall>b \<in> fst ` set (omap_erase lt k m). lt a b"
    using keys_erase [of _ k m] calculation(1) by blast
  ultimately show ?case by (simp add: p)
qed

end

interpretation str_keys: key_order "(<) :: string \<Rightarrow> string \<Rightarrow> bool"
  by unfold_locales auto

interpretation nat_keys: key_order "(<) :: nat \<Rightarrow> nat \<Rightarrow> bool"
  by unfold_locales auto

lemma same_key_linorder [simp]:
  "same_key ((<) :: 'a::linorder \<Rightarrow> 'a \<Rightarrow> bool) a b \<longleftrightarrow> a = b"
  by (auto simp: same_key_def)

section \<open>Transition systems\<close>

text \<open>Every component with a state has a relation for its steps. The states it can be in are reached
from a state it starts in; a condition that holds at the start and is kept by the steps holds in
all of them.\<close>

definition reached :: "('s \<Rightarrow> bool) \<Rightarrow> ('s \<Rightarrow> 's \<Rightarrow> bool) \<Rightarrow> 's \<Rightarrow> bool" where
  "reached start step s \<longleftrightarrow> (\<exists>s0. start s0 \<and> step\<^sup>*\<^sup>* s0 s)"

lemma reached_start: "start s \<Longrightarrow> reached start step s"
  by (auto simp: reached_def)

lemma reached_runs: "reached start step s \<Longrightarrow> step\<^sup>*\<^sup>* s t \<Longrightarrow> reached start step t"
  unfolding reached_def by (meson rtranclp_trans)

lemma reached_step: "reached start step s \<Longrightarrow> step s t \<Longrightarrow> reached start step t"
  by (rule reached_runs [OF _ r_into_rtranclp])

locale invariant =
  fixes start :: "'s \<Rightarrow> bool" and step :: "'s \<Rightarrow> 's \<Rightarrow> bool" and holds :: "'s \<Rightarrow> bool"
  assumes starts: "start s \<Longrightarrow> holds s" and keeps: "holds s \<Longrightarrow> step s t \<Longrightarrow> holds t"
begin

lemma runs: "step\<^sup>*\<^sup>* s t \<Longrightarrow> holds s \<Longrightarrow> holds t"
  by (induction rule: rtranclp_induct) (auto intro: keeps)

lemma always: "reached start step s \<Longrightarrow> holds s"
  unfolding reached_def using runs starts by blast

lemmas first = reached_start [of start _ step] and more = reached_step [of start step]
  and go_on = reached_runs [of start step]

lemma one: "step s t \<Longrightarrow> step\<^sup>*\<^sup>* s t"
  by (rule r_into_rtranclp)

lemma one_more: "step s t \<Longrightarrow> step\<^sup>*\<^sup>* t u \<Longrightarrow> step\<^sup>*\<^sup>* s u"
  by (rule converse_rtranclp_into_rtranclp)

text \<open>What the steps keep and what they can only extend, given the invariant.\<close>

lemma runs_keep:
  assumes "step\<^sup>*\<^sup>* s t" and "holds s" and "P s"
    and "\<And>u v. holds u \<Longrightarrow> P u \<Longrightarrow> step u v \<Longrightarrow> P v"
  shows "P t"
  using assms(1,2,3) by (induction rule: rtranclp_induct) (use runs assms(4) in blast)+

lemma runs_extend:
  assumes "step\<^sup>*\<^sup>* s t" and "holds s" and "\<And>u v. holds u \<Longrightarrow> step u v \<Longrightarrow> R u v"
    and "R s s" and "\<And>u v. R s u \<Longrightarrow> R u v \<Longrightarrow> R s v"
  shows "R s t"
  using runs_keep [OF assms(1,2), of "R s"] assms(3-5) by blast

end

section \<open>Lists\<close>

lemma nth_list_update_if:
  "i < length xs \<Longrightarrow> xs[i := x] ! j = (if i = j then x else xs ! j)"
  by (simp add: nth_list_update)

lemma list012_cases:
  obtains "xs = []" | a where "xs = [a]" | a b ys where "xs = a # b # ys"
  by (metis list.exhaust)

lemma takeWhile_dropWhile_id_len:
  "length (takeWhile P xs) + length (dropWhile P xs) = length xs"
  by (metis length_append takeWhile_dropWhile_id)

end
