(* ===== verification/Url.thy ===== *)
theory Url
  imports Prelude
begin

text \<open>
  Percent encoding and decoding of URLs (\<open>src/src/http.cpp\<close>): \<open>hexValue\<close>,
  \<open>hexPairValue\<close>, \<open>encodeUrl\<close> and \<open>decodeUrl\<close>. A \<open>std::string\<close> is a list of bytes
  (\<open>char\<close>); the loops run over an index into it, as the code's do. The code's index is
  an \<open>unsigned int\<close>, so the model is exact for strings shorter than \<open>2^32 - 2\<close> bytes.
\<close>

abbreviation code :: "char \<Rightarrow> nat" where
  "code c \<equiv> of_char c"

definition hexValue :: "char \<Rightarrow> int" where
  "hexValue c =
     (if code CHR ''0'' \<le> code c \<and> code c \<le> code CHR ''9''
      then int (code c) - int (code CHR ''0'')
      else if code CHR ''A'' \<le> code c \<and> code c \<le> code CHR ''F''
      then int (code c) - int (code CHR ''A'') + 10
      else if code CHR ''a'' \<le> code c \<and> code c \<le> code CHR ''f''
      then int (code c) - int (code CHR ''a'') + 10
      else - 1)"

definition hexPairValue :: "char \<Rightarrow> char \<Rightarrow> int" where
  "hexPairValue c1 c2 =
     (let v1 = hexValue c1; v2 = hexValue c2
      in if 0 \<le> v1 \<and> 0 \<le> v2 then push_bit 4 v1 + v2 else - 1)"

text \<open>\<open>std::isalnum\<close> in the C locale.\<close>

definition isalnum :: "char \<Rightarrow> bool" where
  "isalnum c \<longleftrightarrow>
     (code CHR ''0'' \<le> code c \<and> code c \<le> code CHR ''9'') \<or>
     (code CHR ''A'' \<le> code c \<and> code c \<le> code CHR ''Z'') \<or>
     (code CHR ''a'' \<le> code c \<and> code c \<le> code CHR ''z'')"

text \<open>The stream's \<open>std::uppercase << std::setw(2)\<close> in hexadecimal with fill \<open>'0'\<close>.\<close>

definition hexDigit :: "nat \<Rightarrow> char" where
  "hexDigit n = ''0123456789ABCDEF'' ! n"

definition percentByte :: "char \<Rightarrow> string" where
  "percentByte c = [CHR ''%'', hexDigit (code c div 16), hexDigit (code c mod 16)]"

definition defaultAllowedChars :: string where
  "defaultAllowedChars = ''/?=&#''"

definition defaultValueAllowedChars :: string where
  "defaultValueAllowedChars = ''-_.:[]~!$()'' @ [CHR 39] @ ''*,;@''"

function encodeUrl_loop :: "string \<Rightarrow> bool \<Rightarrow> string \<Rightarrow> string \<Rightarrow> nat \<Rightarrow> string" where
  "encodeUrl_loop url skipPercentSequence allowedChars valueAllowedChars i =
     (if i < length url then
        let c = url ! i in
        if isalnum c \<or> c \<in> set valueAllowedChars \<or> c \<in> set allowedChars then
          c # encodeUrl_loop url skipPercentSequence allowedChars valueAllowedChars (i + 1)
        else if skipPercentSequence \<and> c = CHR ''%'' \<and> i + 2 < length url then
          (if 0 \<le> hexPairValue (url ! (i + 1)) (url ! (i + 2)) then
             c # url ! (i + 1) # url ! (i + 2)
               # encodeUrl_loop url skipPercentSequence allowedChars valueAllowedChars (i + 2 + 1)
           else encodeUrl_loop url skipPercentSequence allowedChars valueAllowedChars (i + 1))
        else percentByte c
               @ encodeUrl_loop url skipPercentSequence allowedChars valueAllowedChars (i + 1)
      else [])"
  by pat_completeness auto
termination
  by (relation "measure (\<lambda>(url, _, _, _, i). length url - i)") auto

definition encodeUrl :: "string \<Rightarrow> bool \<Rightarrow> string \<Rightarrow> string \<Rightarrow> string" where
  "encodeUrl url skipPercentSequence allowedChars valueAllowedChars =
     encodeUrl_loop url skipPercentSequence allowedChars valueAllowedChars 0"

function decodeUrl_loop :: "string \<Rightarrow> bool \<Rightarrow> nat \<Rightarrow> string" where
  "decodeUrl_loop url spaceAsPlus i =
     (if i < length url then
        let c = url ! i in
        if c = CHR ''+'' then
          (if spaceAsPlus then CHR '' '' else c) # decodeUrl_loop url spaceAsPlus (i + 1)
        else if c = CHR ''%'' then
          (if i + 2 < length url then
             let value = hexPairValue (url ! (i + 1)) (url ! (i + 2)) in
             if 0 \<le> value then
               char_of (nat value) # decodeUrl_loop url spaceAsPlus (i + 2 + 1)
             else CHR ''?'' # decodeUrl_loop url spaceAsPlus (i + 1)
           else CHR ''?'' # decodeUrl_loop url spaceAsPlus (i + 1))
        else c # decodeUrl_loop url spaceAsPlus (i + 1)
      else [])"
  by pat_completeness auto
termination
  by (relation "measure (\<lambda>(url, _, i). length url - i)") auto

definition decodeUrl :: "string \<Rightarrow> bool \<Rightarrow> string" where
  "decodeUrl url spaceAsPlus = decodeUrl_loop url spaceAsPlus 0"

declare encodeUrl_loop.simps [simp del] decodeUrl_loop.simps [simp del]

section \<open>A reference definition over the remaining bytes\<close>

definition kept :: "string \<Rightarrow> string \<Rightarrow> char \<Rightarrow> bool" where
  "kept al va c \<longleftrightarrow> isalnum c \<or> c \<in> set va \<or> c \<in> set al"

fun encode_spec :: "bool \<Rightarrow> string \<Rightarrow> string \<Rightarrow> string \<Rightarrow> string" where
  "encode_spec skip al va [] = []"
| "encode_spec skip al va (c # c1 # c2 # cs) =
     (if kept al va c then c # encode_spec skip al va (c1 # c2 # cs)
      else if skip \<and> c = CHR ''%'' then
        (if 0 \<le> hexPairValue c1 c2 then c # c1 # c2 # encode_spec skip al va cs
         else encode_spec skip al va (c1 # c2 # cs))
      else percentByte c @ encode_spec skip al va (c1 # c2 # cs))"
| "encode_spec skip al va (c # cs) =
     (if kept al va c then c # encode_spec skip al va cs
      else percentByte c @ encode_spec skip al va cs)"

fun decode_spec :: "bool \<Rightarrow> string \<Rightarrow> string" where
  "decode_spec sap [] = []"
| "decode_spec sap (c # c1 # c2 # cs) =
     (if c = CHR ''+'' then
        (if sap then CHR '' '' else c) # decode_spec sap (c1 # c2 # cs)
      else if c = CHR ''%'' then
        (if 0 \<le> hexPairValue c1 c2
         then char_of (nat (hexPairValue c1 c2)) # decode_spec sap cs
         else CHR ''?'' # decode_spec sap (c1 # c2 # cs))
      else c # decode_spec sap (c1 # c2 # cs))"
| "decode_spec sap (c # cs) =
     (if c = CHR ''+'' then (if sap then CHR '' '' else c) # decode_spec sap cs
      else if c = CHR ''%'' then CHR ''?'' # decode_spec sap cs
      else c # decode_spec sap cs)"

lemma drop_cases:
  assumes "i < length xs"
  obtains "drop i xs = [xs ! i]" "\<not> i + 2 < length xs" "drop (i + 1) xs = []"
  | y where "drop i xs = [xs ! i, y]" "\<not> i + 2 < length xs" "drop (i + 1) xs = [y]"
  | "drop i xs = xs ! i # xs ! (i + 1) # xs ! (i + 2) # drop (Suc (Suc (Suc i))) xs"
    "i + 2 < length xs"
    "drop (i + 1) xs = xs ! (i + 1) # xs ! (i + 2) # drop (Suc (Suc (Suc i))) xs"
proof -
  have 1: "drop i xs = xs ! i # drop (i + 1) xs"
    using assms by (simp add: Cons_nth_drop_Suc)
  consider (a) "i + 1 = length xs" | (b) "i + 2 = length xs" | (c) "i + 2 < length xs"
    using assms by linarith
  then show thesis
  proof cases
    case a
    with 1 that(1) show ?thesis by simp
  next
    case b
    then have "drop (i + 1) xs = [xs ! (i + 1)]"
      using Cons_nth_drop_Suc [of "i + 1" xs] by simp
    with 1 b that(2) show ?thesis by simp
  next
    case c
    then have "drop (i + 1) xs = xs ! (i + 1) # xs ! (i + 2) # drop (Suc (Suc (Suc i))) xs"
      using Cons_nth_drop_Suc [of "i + 1" xs] Cons_nth_drop_Suc [of "i + 2" xs]
      by (simp add: eval_nat_numeral)
    with 1 c that(3) show ?thesis by simp
  qed
qed

lemma encode_loop_spec: "encodeUrl_loop url skip al va i = encode_spec skip al va (drop i url)"
proof (induction url skip al va i rule: encodeUrl_loop.induct)
  case (1 url skip al va i)
  show ?case
  proof (cases "i < length url")
    case False
    then show ?thesis by (subst encodeUrl_loop.simps) simp
  next
    case True
    from True show ?thesis
    proof (cases rule: drop_cases)
      case 1
      with True "1.IH" show ?thesis
        by (subst encodeUrl_loop.simps) (simp add: kept_def Let_def)
    next
      case (2 y)
      with True "1.IH" show ?thesis
        by (subst encodeUrl_loop.simps) (simp add: kept_def Let_def)
    next
      case 3
      with True "1.IH" show ?thesis
        by (subst encodeUrl_loop.simps) (simp add: kept_def Let_def add.commute)
    qed
  qed
qed

lemma decode_loop_spec: "decodeUrl_loop url sap i = decode_spec sap (drop i url)"
proof (induction url sap i rule: decodeUrl_loop.induct)
  case (1 url sap i)
  show ?case
  proof (cases "i < length url")
    case False
    then show ?thesis by (subst decodeUrl_loop.simps) simp
  next
    case True
    from True show ?thesis
    proof (cases rule: drop_cases)
      case 1
      with True "1.IH" show ?thesis
        by (subst decodeUrl_loop.simps) (simp add: Let_def)
    next
      case (2 y)
      with True "1.IH" show ?thesis
        by (subst decodeUrl_loop.simps) (simp add: Let_def)
    next
      case 3
      with True "1.IH" show ?thesis
        by (subst decodeUrl_loop.simps) (simp add: Let_def add.commute)
    qed
  qed
qed

lemma encodeUrl_spec: "encodeUrl url skip al va = encode_spec skip al va url"
  by (simp add: encodeUrl_def encode_loop_spec)

lemma decodeUrl_spec: "decodeUrl url sap = decode_spec sap url"
  by (simp add: decodeUrl_def decode_loop_spec)

section \<open>Hexadecimal digits\<close>

lemma hex_digits: "d < 16 \<Longrightarrow> d \<in> {0,1,2,3,4,5,6,7,8,9,10,11,12,13,14,15::nat}"
  by simp arith

lemma hexValue_hexDigit: "d < 16 \<Longrightarrow> hexValue (hexDigit d) = int d"
  by (drule hex_digits) (elim insertE; simp add: hexValue_def hexDigit_def)

lemma code_less: "code (c :: char) < 256"
  by simp

lemma hexPair_percentByte:
  "hexPairValue (hexDigit (code c div 16)) (hexDigit (code c mod 16)) = int (code c)"
proof -
  have "code c div 16 < 16"
    using code_less [of c] by (simp add: less_mult_imp_div_less)
  then show ?thesis
    by (simp add: hexPairValue_def Let_def hexValue_hexDigit push_bit_eq_mult zdiv_int zmod_int)
qed

lemma hexDigit_isalnum: "d < 16 \<Longrightarrow> isalnum (hexDigit d)"
  by (drule hex_digits) (elim insertE; simp add: isalnum_def hexDigit_def)

section \<open>Round trip and output alphabet\<close>

lemma encode_Cons:
  "encode_spec False al va (c # cs)
     = (if kept al va c then [c] else percentByte c) @ encode_spec False al va cs"
  by (cases cs rule: list012_cases) auto

lemma decode_percentByte: "decode_spec sap (percentByte c @ cs) = c # decode_spec sap cs"
  by (simp add: percentByte_def hexPair_percentByte)

lemma decode_plain:
  assumes "c \<noteq> CHR ''%''" and "sap \<longrightarrow> c \<noteq> CHR ''+''"
  shows "decode_spec sap (c # cs) = c # decode_spec sap cs"
  using assms by (cases cs rule: list012_cases) simp_all

lemma percent_not_alnum [simp]: "\<not> isalnum CHR ''%''" "\<not> isalnum CHR ''+''"
  by (simp_all add: isalnum_def)

lemma percentByte_alphabet:
  "x \<in> set (percentByte c) \<Longrightarrow> x = CHR ''%'' \<or> isalnum x"
  using code_less [of c]
  by (auto simp: percentByte_def less_mult_imp_div_less intro: hexDigit_isalnum)

lemma length_percentByte [simp]: "length (percentByte c) = 3"
  by (simp add: percentByte_def)

lemma default_chars [simp]:
  "CHR ''%'' \<notin> set defaultAllowedChars" "CHR ''%'' \<notin> set defaultValueAllowedChars"
  "CHR ''+'' \<notin> set defaultAllowedChars" "CHR ''+'' \<notin> set defaultValueAllowedChars"
  by (simp_all add: defaultAllowedChars_def defaultValueAllowedChars_def)

text \<open>
  C33. Decoding undoes encoding, for every string and every choice of allowed characters
  that leaves \<open>%\<close> (and \<open>+\<close>, when it decodes to a space) to be escaped.
\<close>

theorem decode_encode:
  assumes "CHR ''%'' \<notin> set al \<union> set va"
    and "sap \<Longrightarrow> CHR ''+'' \<notin> set al \<union> set va"
  shows "decodeUrl (encodeUrl url False al va) sap = url"
proof -
  have "decode_spec sap (encode_spec False al va url) = url"
  proof (induction url)
    case Nil
    then show ?case by simp
  next
    case (Cons c cs)
    show ?case
    proof (cases "kept al va c")
      case True
      with assms have "c \<noteq> CHR ''%''" and "sap \<longrightarrow> c \<noteq> CHR ''+''"
        by (auto simp: kept_def)
      with True Cons show ?thesis by (simp add: encode_Cons decode_plain)
    next
      case False
      with Cons show ?thesis by (simp add: encode_Cons decode_percentByte)
    qed
  qed
  then show ?thesis by (simp add: encodeUrl_spec decodeUrl_spec)
qed

theorem decode_encode_witness:
  "decodeUrl (encodeUrl ''a b%+/c'' False defaultAllowedChars defaultValueAllowedChars) True
     = ''a b%+/c''"
  by (rule decode_encode) simp_all

lemma encode_kept: "kept al va c \<Longrightarrow> encode_spec skip al va (c # cs) = c # encode_spec skip al va cs"
  by (cases cs rule: list012_cases) simp_all

lemma encode_skip_percentByte:
  assumes "\<not> kept al va CHR ''%''"
  shows "encode_spec True al va (percentByte c @ cs) = percentByte c @ encode_spec True al va cs"
  using assms by (simp add: percentByte_def hexPair_percentByte)

text \<open>
  Encoding with \<open>skipPercentSequence\<close> leaves an already encoded URL as it is: no
  percent sequence is encoded twice.
\<close>

lemma encode_skip_encoded:
  assumes "CHR ''%'' \<notin> set al \<union> set va"
  shows "encodeUrl (encodeUrl url False al va) True al va = encodeUrl url False al va"
proof -
  have no: "\<not> kept al va CHR ''%''"
    using assms by (simp add: kept_def)
  have "encode_spec True al va (encode_spec False al va url) = encode_spec False al va url"
    by (induction url) (simp_all add: encode_Cons encode_kept encode_skip_percentByte [OF no])
  then show ?thesis by (simp add: encodeUrl_spec)
qed

lemma encode_skip_encoded_example:
  "encodeUrl (encodeUrl ''50% off'' False ''/'' ''-'') True ''/'' ''-''
     = encodeUrl ''50% off'' False ''/'' ''-''"
  by (rule encode_skip_encoded) simp

text \<open>
  With \<open>skipPercentSequence\<close>, a percent sign that is followed by two bytes that are
  not hexadecimal digits is dropped from the output: it is neither kept nor encoded.
\<close>

lemma encode_skip_drops_percent:
  assumes "CHR ''%'' \<notin> set al \<union> set va" and "hexPairValue c1 c2 < 0"
  shows "encodeUrl (CHR ''%'' # c1 # c2 # cs) True al va = encodeUrl (c1 # c2 # cs) True al va"
  using assms by (simp add: encodeUrl_spec kept_def)

lemma encode_skip_drops_percent_witness:
  "encodeUrl ''%ZFsnow'' True defaultAllowedChars defaultValueAllowedChars
     = encodeUrl ''ZFsnow'' True defaultAllowedChars defaultValueAllowedChars"
  by (rule encode_skip_drops_percent)
    (simp_all add: hexPairValue_def hexValue_def Let_def)

lemma encoded_alphabet:
  "x \<in> set (encodeUrl url skip al va) \<Longrightarrow> kept al va x \<or> x = CHR ''%'' \<or> isalnum x \<or> skip"
  unfolding encodeUrl_spec
  by (induction skip al va url rule: encode_spec.induct)
    (auto split: if_splits dest: percentByte_alphabet)

lemma encode_length: "length (encodeUrl url skip al va) \<le> 3 * length url"
  unfolding encodeUrl_spec
  by (induction skip al va url rule: encode_spec.induct) auto

lemma decode_length: "length (decodeUrl url sap) \<le> length url"
  unfolding decodeUrl_spec
  by (induction sap url rule: decode_spec.induct) (auto simp: Let_def)

end
