(* ===== verification/Async.thy ===== *)
theory Async
  imports Prelude
begin

text \<open>
  The asynchronous core: \<open>FutureShared\<close>, \<open>Future\<close> and \<open>Promise\<close>, the callbacks
  \<open>ActionCallback\<close>, \<open>ActionCallbackFinally\<close> and \<open>ActionCallbackError\<close>, their base
  classes \<open>ActionCallbackBase\<close> and \<open>AsyncBase\<close>, and \<open>async()\<close>
  (\<open>include/native/async*\<close>, \<open>src/async/*\<close>).

  Objects live in a store: a future or an action is named by its index, which stands for
  the \<open>shared_ptr\<close> the code holds. The template specialisations for \<open>void\<close> are one
  definition each, with \<open>Void\<close> as the value of a \<open>Future<void>\<close>; the specialisations
  for a callback that returns a \<open>Future<R>\<close> are the outcome \<open>ReturnFuture\<close>.
\<close>

section \<open>The object store\<close>

type_synonym fid = nat
type_synonym aid = nat

text \<open>The value of a \<open>Future<R>\<close>; \<open>Void\<close> for \<open>Future<void>\<close>.\<close>

datatype 'v payload = Void | Val 'v

text \<open>\<open>FutureSharedResolverValue\<close> and \<open>FutureSharedResolverError\<close>; the error is its message.\<close>

datatype 'v resolver = RValue "'v payload" | RError string

primrec isError :: "'v resolver \<Rightarrow> bool" where
  "isError (RValue v) = False"
| "isError (RError e) = True"

text \<open>
  What a callback's \<open>std::function\<close> is: a function of the program, or one of the lambdas
  of the library: \<open>callFn\<close> forwards the result of a returned future to the action's own
  future, and \<open>then\<close>, \<open>error\<close> and \<open>finally\<close> attach an action from the loop thread
  when they are called from another one.
\<close>

datatype cbfn =
    UserFn nat
  | FwdResolve fid
  | FwdReject fid
  | Attach fid aid

text \<open>
  \<open>ActionCallback\<close>/\<open>ActionCallbackP1\<close>, \<open>ActionCallbackFinally(P1)\<close> and
  \<open>ActionCallbackError(P1)\<close>.
\<close>

datatype akind = KThen | KFinally | KError

record 'v action =
  a_kind :: akind
  a_fn :: cbfn
  a_future :: fid
  a_resolver :: "'v resolver option"
  uv_data :: bool
  a_instance :: bool
  instanceNum :: nat

text \<open>
  \<open>f_promise\<close> records that the future belongs to a \<open>Promise\<close>: the \<open>resolve\<close> and \<open>reject\<close>
  of a \<open>Future\<close> are private, so only the holder of a promise can call them.
\<close>

record 'v future =
  f_resolver :: "'v resolver option"
  f_actions :: "aid list"
  f_promise :: bool

text \<open>
  The state of one event loop and of the objects bound to it. \<open>pending\<close> holds the
  handles that were initialised and sent with \<open>uv_async_init\<close>/\<open>uv_async_send\<close> and whose
  callback has not run; \<open>closing\<close> those that were given to \<open>uv_close\<close>. The two logs
  record what happened and are read by no operation.
\<close>

record 'v st =
  futs :: "'v future list"
  acts :: "'v action list"
  pending :: "aid list"
  closing :: "aid list"
  loop_started :: bool
  loop_thread :: nat
  cur_thread :: nat
  enq_log :: "(aid \<times> 'v resolver) list"
  exec_log :: "(aid \<times> 'v resolver) list"

definition isOnEventLoopThread :: "'v st \<Rightarrow> bool" where
  "isOnEventLoopThread s \<longleftrightarrow> \<not> loop_started s \<or> loop_thread s = cur_thread s"

definition upd_fut :: "fid \<Rightarrow> ('v future \<Rightarrow> 'v future) \<Rightarrow> 'v st \<Rightarrow> 'v st" where
  "upd_fut f g s = s\<lparr>futs := (futs s)[f := g (futs s ! f)]\<rparr>"

definition upd_act :: "aid \<Rightarrow> ('v action \<Rightarrow> 'v action) \<Rightarrow> 'v st \<Rightarrow> 'v st" where
  "upd_act a g s = s\<lparr>acts := (acts s)[a := g (acts s ! a)]\<rparr>"

section \<open>The environment\<close>

text \<open>
  The code of the program that uses the library. A callback sees its argument and the
  state of the library, calls operations of the library, and ends with an outcome. What
  it does to its own data is not the library's concern. An error callback cannot return a
  future (its return type is the future's own \<open>R\<close>).
\<close>

datatype 'v arg = NoArg | ArgValue "'v payload" | ArgError string

datatype 'v api =
    NewPromise
  | PromiseResolve fid "'v payload"
  | PromiseReject fid string
  | Then fid nat
  | Finally fid nat
  | OnError fid nat
  | AsyncCall nat

datatype 'v outcome = Return "'v payload" | ReturnFuture fid | Throw exn

text \<open>
  The parameters of the model: the user's callbacks, and the return codes of libuv's
  \<open>uv_async_init\<close> and \<open>uv_async_send\<close> for each handle.
\<close>

record 'v env =
  user :: "nat \<Rightarrow> 'v arg \<Rightarrow> 'v st \<Rightarrow> 'v api list \<times> 'v outcome"
  user_error :: "nat \<Rightarrow> string \<Rightarrow> 'v st \<Rightarrow> 'v api list \<times> (exn + 'v payload)"
  uv_async_init :: "aid \<Rightarrow> int"
  uv_async_send :: "aid \<Rightarrow> int"

section \<open>AsyncBase and ActionCallbackBase\<close>

definition increaseInstance :: "aid \<Rightarrow> ('v st, unit) M" where
  "increaseInstance a =
     modM (upd_act a (\<lambda>x. x\<lparr>instanceNum := instanceNum x + 1, a_instance := True\<rparr>))"

definition decreaseInstance :: "aid \<Rightarrow> ('v st, unit) M" where
  "decreaseInstance a = (\<lambda>s.
     if instanceNum (acts s ! a) = 0
     then throwM (NativeExn ''decreaseInstance too many times'') s
     else modM (upd_act a (\<lambda>x. x\<lparr>instanceNum := instanceNum x - 1,
            a_instance := (if instanceNum x - 1 = 0 then False else a_instance x)\<rparr>)) s)"

definition log_enqueue :: "aid \<Rightarrow> 'v st \<Rightarrow> 'v st" where
  "log_enqueue a s =
     s\<lparr>pending := pending s @ [a],
       enq_log := enq_log s @ [(a, the (a_resolver (acts s ! a)))]\<rparr>"

definition enqueue :: "'v env \<Rightarrow> aid \<Rightarrow> ('v st, unit) M" where
  "enqueue E a =
     thenM (assertM (\<lambda>s. \<not> a_instance (acts s ! a)) ''!this->_instance'')
    (thenM (assertM (\<lambda>s. \<not> uv_data (acts s ! a)) ''this->_uv_async.data == nullptr'')
    (thenM (increaseInstance a)
    (thenM (modM (upd_act a (\<lambda>x. x\<lparr>uv_data := True\<rparr>)))
    (if uv_async_init E a \<noteq> 0 then throwM (NativeExn ''uv_async_init'')
     else if uv_async_send E a \<noteq> 0
     then thenM (modM (upd_act a (\<lambda>x. x\<lparr>uv_data := False, a_instance := False\<rparr>)))
            (throwM (NativeExn ''uv_async_send''))
     else modM (log_enqueue a)))))"

text \<open>\<open>ActionCallbackBase::resolve\<close> and \<open>reject\<close>.\<close>

definition action_resolve :: "'v env \<Rightarrow> aid \<Rightarrow> 'v payload \<Rightarrow> ('v st, unit) M" where
  "action_resolve E a v =
     thenM (assertM (\<lambda>s. a_resolver (acts s ! a) = None) ''!_resolver'')
    (thenM (modM (upd_act a (\<lambda>x. x\<lparr>a_resolver := Some (RValue v)\<rparr>)))
    (enqueue E a))"

definition action_reject :: "'v env \<Rightarrow> aid \<Rightarrow> string \<Rightarrow> ('v st, unit) M" where
  "action_reject E a e =
     thenM (assertM (\<lambda>s. a_resolver (acts s ! a) = None) ''!_resolver'')
    (thenM (modM (upd_act a (\<lambda>x. x\<lparr>a_resolver := Some (RError e)\<rparr>)))
    (enqueue E a))"

text \<open>\<open>FutureSharedResolver::resolve(ActionCallbackBase)\<close>.\<close>

fun resolver_resolve_action :: "'v env \<Rightarrow> 'v resolver \<Rightarrow> aid \<Rightarrow> ('v st, unit) M" where
  "resolver_resolve_action E (RValue v) a = action_resolve E a v"
| "resolver_resolve_action E (RError e) a = action_reject E a e"

section \<open>FutureShared\<close>

definition set_resolver :: "fid \<Rightarrow> 'v resolver \<Rightarrow> 'v st \<Rightarrow> 'v st" where
  "set_resolver f r = upd_fut f (\<lambda>x. x\<lparr>f_resolver := Some r\<rparr>)"

definition future_resolve :: "'v env \<Rightarrow> fid \<Rightarrow> 'v payload \<Rightarrow> ('v st, unit) M" where
  "future_resolve E f v =
     thenM (assertM isOnEventLoopThread ''Not on the event Loop thread'')
    (\<lambda>s. if f_resolver (futs s ! f) \<noteq> None then throwM PromiseAlreadySatisfied s
      else thenM (modM (set_resolver f (RValue v)))
             (forM (f_actions (futs s ! f)) (resolver_resolve_action E (RValue v))) s)"

definition future_reject :: "'v env \<Rightarrow> fid \<Rightarrow> string \<Rightarrow> ('v st, unit) M" where
  "future_reject E f e =
     thenM (assertM isOnEventLoopThread ''Not on the event Loop thread'')
    (\<lambda>s. if f_resolver (futs s ! f) \<noteq> None then throwM PromiseAlreadySatisfied s
      else thenM (modM (set_resolver f (RError e)))
             (forM (f_actions (futs s ! f)) (resolver_resolve_action E (RError e))) s)"

text \<open>\<open>FutureSharedResolver::resolve(FutureShared)\<close>.\<close>

fun resolver_resolve_future :: "'v env \<Rightarrow> 'v resolver \<Rightarrow> fid \<Rightarrow> ('v st, unit) M" where
  "resolver_resolve_future E (RValue v) f = future_resolve E f v"
| "resolver_resolve_future E (RError e) f = future_reject E f e"

text \<open>\<open>FutureShared::Create\<close>, and the constructors of the actions with their own future.\<close>

definition new_future :: "bool \<Rightarrow> ('v st, fid) M" where
  "new_future promise s =
     (Inr (length (futs s)),
      s\<lparr>futs := futs s @ [\<lparr>f_resolver = None, f_actions = [], f_promise = promise\<rparr>]\<rparr>)"

definition new_action :: "akind \<Rightarrow> cbfn \<Rightarrow> ('v st, aid) M" where
  "new_action k fn =
     bindM (new_future False) (\<lambda>f s.
       (Inr (length (acts s)),
        s\<lparr>acts := acts s @ [\<lparr>a_kind = k, a_fn = fn, a_future = f, a_resolver = None,
             uv_data = False, a_instance = False, instanceNum = 0\<rparr>]\<rparr>))"

text \<open>The \<open>Create\<close> and the constructor of each kind of callback, and \<open>getFuture\<close>.\<close>

definition ActionCallback_Create :: "cbfn \<Rightarrow> ('v st, aid) M" where
  "ActionCallback_Create = new_action KThen"

definition ActionCallbackFinally_Create :: "cbfn \<Rightarrow> ('v st, aid) M" where
  "ActionCallbackFinally_Create = new_action KFinally"

definition ActionCallbackError_Create :: "cbfn \<Rightarrow> ('v st, aid) M" where
  "ActionCallbackError_Create = new_action KError"

primrec Create :: "akind \<Rightarrow> cbfn \<Rightarrow> ('v st, aid) M" where
  "Create KThen = ActionCallback_Create"
| "Create KFinally = ActionCallbackFinally_Create"
| "Create KError = ActionCallbackError_Create"

lemma Create_eq [simp]: "Create k = new_action k"
  by (cases k) (simp_all add: ActionCallback_Create_def ActionCallbackFinally_Create_def
      ActionCallbackError_Create_def)

definition getFuture :: "aid \<Rightarrow> 'v st \<Rightarrow> fid" where
  "getFuture a s = a_future (acts s ! a)"

declare getFuture_def [simp] ActionCallback_Create_def [simp]

text \<open>The common tail of \<open>then\<close>, \<open>error\<close> and \<open>finally\<close> on the loop's thread.\<close>

definition push_action :: "'v env \<Rightarrow> fid \<Rightarrow> aid \<Rightarrow> ('v st, unit) M" where
  "push_action E f a =
     thenM (modM (upd_fut f (\<lambda>x. x\<lparr>f_actions := f_actions x @ [a]\<rparr>)))
    (\<lambda>s. case f_resolver (futs s ! f) of None \<Rightarrow> retM () s
       | Some r \<Rightarrow> resolver_resolve_action E r a s)"

text \<open>\<open>async(loop, f)\<close>: an action that is resolved at once.\<close>

definition async :: "'v env \<Rightarrow> cbfn \<Rightarrow> ('v st, fid) M" where
  "async E fn =
     bindM (ActionCallback_Create fn) (\<lambda>a.
     thenM (action_resolve E a Void) (\<lambda>s. retM (getFuture a s) s))"

text \<open>\<open>FutureShared::then\<close>, \<open>finally\<close> and \<open>error\<close>, which differ in the action they make.\<close>

definition attach_action :: "'v env \<Rightarrow> akind \<Rightarrow> fid \<Rightarrow> cbfn \<Rightarrow> ('v st, fid) M" where
  "attach_action E k f fn =
     bindM (Create k fn) (\<lambda>a.
     thenM (\<lambda>s. if \<not> isOnEventLoopThread s
                then thenM (async E (Attach f a)) (retM ()) s
                else push_action E f a s)
           (\<lambda>s. retM (getFuture a s) s))"

definition future_then :: "'v env \<Rightarrow> fid \<Rightarrow> cbfn \<Rightarrow> ('v st, fid) M" where
  "future_then E = attach_action E KThen"

definition future_finally :: "'v env \<Rightarrow> fid \<Rightarrow> cbfn \<Rightarrow> ('v st, fid) M" where
  "future_finally E = attach_action E KFinally"

definition future_error :: "'v env \<Rightarrow> fid \<Rightarrow> cbfn \<Rightarrow> ('v st, fid) M" where
  "future_error E = attach_action E KError"

section \<open>Promise\<close>

definition promise_new :: "('v st, fid) M" where
  "promise_new = new_future True"

definition promise_resolve :: "'v env \<Rightarrow> fid \<Rightarrow> 'v payload \<Rightarrow> ('v st, unit) M" where
  "promise_resolve E p v = future_resolve E p v"

definition promise_reject :: "'v env \<Rightarrow> fid \<Rightarrow> string \<Rightarrow> ('v st, unit) M" where
  "promise_reject E p e = future_reject E p e"

text \<open>\<open>Promise::reset\<close> gives the promise a new future; the old one keeps its waiters.\<close>

definition promise_reset :: "fid \<Rightarrow> ('v st, fid) M" where
  "promise_reset p = new_future True"

text \<open>The static \<open>Promise::Resolve\<close> and \<open>Promise::Reject\<close>.\<close>

definition promise_Resolve :: "'v env \<Rightarrow> 'v payload \<Rightarrow> ('v st, fid) M" where
  "promise_Resolve E v =
     bindM promise_new (\<lambda>p. thenM (promise_resolve E p v) (retM p))"

definition promise_Reject :: "'v env \<Rightarrow> string \<Rightarrow> ('v st, fid) M" where
  "promise_Reject E e =
     bindM promise_new (\<lambda>p. thenM (promise_reject E p e) (retM p))"

section \<open>Calls made by the program\<close>

text \<open>
  A \<open>Future\<close> object always holds a \<open>FutureShared\<close>; a call on a future that was never
  made has no counterpart in the code and is refused.
\<close>

definition on_future :: "fid \<Rightarrow> ('v st, unit) M \<Rightarrow> ('v st, unit) M" where
  "on_future f m =
     thenM (assertM (\<lambda>s. f < length (futs s)) ''no such future'') m"

definition on_promise :: "fid \<Rightarrow> ('v st, unit) M \<Rightarrow> ('v st, unit) M" where
  "on_promise p m =
     on_future p (thenM (assertM (\<lambda>s. f_promise (futs s ! p)) ''not a promise'') m)"

fun run_api :: "'v env \<Rightarrow> 'v api \<Rightarrow> ('v st, unit) M" where
  "run_api E NewPromise = thenM promise_new (retM ())"
| "run_api E (PromiseResolve p v) = on_promise p (promise_resolve E p v)"
| "run_api E (PromiseReject p e) = on_promise p (promise_reject E p e)"
| "run_api E (Then f n) = on_future f (thenM (future_then E f (UserFn n)) (retM ()))"
| "run_api E (Finally f n) = on_future f (thenM (future_finally E f (UserFn n)) (retM ()))"
| "run_api E (OnError f n) = on_future f (thenM (future_error E f (UserFn n)) (retM ()))"
| "run_api E (AsyncCall n) = thenM (async E (UserFn n)) (retM ())"

definition lift_outcome :: "'v outcome \<Rightarrow> ('v st, 'v outcome) M" where
  "lift_outcome r = (case r of Throw e \<Rightarrow> throwM e | _ \<Rightarrow> retM r)"

text \<open>Calling \<open>_f\<close> of a \<open>then\<close> or \<open>finally\<close> action.\<close>

fun call_fn :: "'v env \<Rightarrow> cbfn \<Rightarrow> 'v arg \<Rightarrow> ('v st, 'v outcome) M" where
  "call_fn E (UserFn n) x =
     (\<lambda>s. thenM (forM (fst (user E n x s)) (run_api E)) (lift_outcome (snd (user E n x s))) s)"
| "call_fn E (FwdResolve g) (ArgValue v) = thenM (future_resolve E g v) (retM (Return Void))"
| "call_fn E (FwdResolve g) x = throwM (AssertExn ''resolve lambda without a value'')"
| "call_fn E (FwdReject g) x = throwM (AssertExn ''error lambda of a then action'')"
| "call_fn E (Attach f a) x = thenM (push_action E f a) (retM (Return Void))"

text \<open>Calling \<open>_f\<close> of an error action, which gets the error.\<close>

fun call_error_fn :: "'v env \<Rightarrow> cbfn \<Rightarrow> string \<Rightarrow> ('v st, 'v payload) M" where
  "call_error_fn E (UserFn n) e =
     (\<lambda>s. thenM (forM (fst (user_error E n e s)) (run_api E))
            (case snd (user_error E n e s) of Inl x \<Rightarrow> throwM x | Inr v \<Rightarrow> retM v) s)"
| "call_error_fn E (FwdReject g) e = thenM (future_reject E g e) (retM Void)"
| "call_error_fn E fn e = throwM (AssertExn ''then lambda of an error action'')"

section \<open>Callbacks\<close>

text \<open>
  \<open>callFn\<close> of \<open>ActionCallback(P1)\<close> and \<open>ActionCallbackFinally(P1)\<close>: the result of the
  function settles the action's future; a returned future is forwarded when it settles;
  a \<open>FutureError\<close> rejects the action's future, other exceptions escape.
\<close>

definition forward :: "'v env \<Rightarrow> fid \<Rightarrow> fid \<Rightarrow> ('v st, unit) M" where
  "forward E g f =
     bindM (future_then E g (FwdResolve f)) (\<lambda>h.
     thenM (future_error E h (FwdReject f)) (retM ()))"

definition callFn :: "'v env \<Rightarrow> aid \<Rightarrow> 'v arg \<Rightarrow> ('v st, unit) M" where
  "callFn E a x = (\<lambda>s0.
     let fn = a_fn (acts s0 ! a); f = getFuture a s0 in
     catchFuture
       (bindM (call_fn E fn x) (\<lambda>r. case r of
           Return v \<Rightarrow> future_resolve E f v
         | ReturnFuture g \<Rightarrow> on_future g (forward E g f)
         | Throw e \<Rightarrow> throwM e))
       (\<lambda>e. future_reject E f e) s0)"

text \<open>\<open>callFn\<close> of \<open>ActionCallbackError(P1)\<close>.\<close>

definition callFn_error :: "'v env \<Rightarrow> aid \<Rightarrow> string \<Rightarrow> ('v st, unit) M" where
  "callFn_error E a e = (\<lambda>s0.
     let fn = a_fn (acts s0 ! a); f = getFuture a s0 in
     catchFuture (bindM (call_error_fn E fn e) (future_resolve E f))
       (\<lambda>e'. future_reject E f e') s0)"

lemmas callFn_eq = callFn_def [unfolded getFuture_def]
lemmas callFn_error_eq = callFn_error_def [unfolded getFuture_def]

text \<open>\<open>callFn\<close> of \<open>ActionCallbackFinally(P1)\<close>: the callback gets neither value nor error.\<close>

definition callFn_finally :: "'v env \<Rightarrow> aid \<Rightarrow> ('v st, unit) M" where
  "callFn_finally E a = callFn E a NoArg"

text \<open>\<open>resolveCb\<close> and \<open>rejectCb\<close> of the three classes, and the virtual calls.\<close>

definition ActionCallback_resolveCb :: "'v env \<Rightarrow> aid \<Rightarrow> 'v payload \<Rightarrow> ('v st, unit) M" where
  "ActionCallback_resolveCb E a v = callFn E a (ArgValue v)"

definition ActionCallback_rejectCb :: "'v env \<Rightarrow> aid \<Rightarrow> string \<Rightarrow> ('v st, unit) M" where
  "ActionCallback_rejectCb E a e = (\<lambda>s. future_reject E (getFuture a s) e s)"

definition ActionCallbackFinally_resolveCb ::
  "'v env \<Rightarrow> aid \<Rightarrow> 'v payload \<Rightarrow> ('v st, unit) M" where
  "ActionCallbackFinally_resolveCb E a v = callFn_finally E a"

definition ActionCallbackFinally_rejectCb :: "'v env \<Rightarrow> aid \<Rightarrow> string \<Rightarrow> ('v st, unit) M" where
  "ActionCallbackFinally_rejectCb E a e = callFn_finally E a"

definition ActionCallbackError_resolveCb :: "'v env \<Rightarrow> aid \<Rightarrow> 'v payload \<Rightarrow> ('v st, unit) M" where
  "ActionCallbackError_resolveCb E a v = (\<lambda>s. future_resolve E (getFuture a s) v s)"

definition ActionCallbackError_rejectCb :: "'v env \<Rightarrow> aid \<Rightarrow> string \<Rightarrow> ('v st, unit) M" where
  "ActionCallbackError_rejectCb E a e = callFn_error E a e"

lemmas class_Cb_defs [simp] = callFn_finally_def ActionCallback_resolveCb_def
  ActionCallback_rejectCb_def ActionCallbackFinally_resolveCb_def
  ActionCallbackFinally_rejectCb_def ActionCallbackError_resolveCb_def
  ActionCallbackError_rejectCb_def

definition resolveCb :: "'v env \<Rightarrow> aid \<Rightarrow> 'v payload \<Rightarrow> ('v st, unit) M" where
  "resolveCb E a v = (\<lambda>s.
     case a_kind (acts s ! a) of
       KThen \<Rightarrow> ActionCallback_resolveCb E a v s
     | KFinally \<Rightarrow> ActionCallbackFinally_resolveCb E a v s
     | KError \<Rightarrow> ActionCallbackError_resolveCb E a v s)"

definition rejectCb :: "'v env \<Rightarrow> aid \<Rightarrow> string \<Rightarrow> ('v st, unit) M" where
  "rejectCb E a e = (\<lambda>s.
     case a_kind (acts s ! a) of
       KThen \<Rightarrow> ActionCallback_rejectCb E a e s
     | KFinally \<Rightarrow> ActionCallbackFinally_rejectCb E a e s
     | KError \<Rightarrow> ActionCallbackError_rejectCb E a e s)"

text \<open>\<open>FutureSharedResolver::resolveCb\<close>.\<close>

fun resolver_resolveCb :: "'v env \<Rightarrow> 'v resolver \<Rightarrow> aid \<Rightarrow> ('v st, unit) M" where
  "resolver_resolveCb E (RValue v) a = resolveCb E a v"
| "resolver_resolveCb E (RError e) a = rejectCb E a e"

definition executeAsync :: "'v env \<Rightarrow> aid \<Rightarrow> ('v st, unit) M" where
  "executeAsync E a = (\<lambda>s.
     case a_resolver (acts s ! a) of
       None \<Rightarrow> throwM (AssertExn ''_resolver'') s
     | Some r \<Rightarrow> resolver_resolveCb E r a s)"

text \<open>
  \<open>AsyncBase::Async\<close>, the callback of libuv for a handle that was sent: run the action,
  then close the handle.
\<close>

definition log_exec :: "aid \<Rightarrow> 'v st \<Rightarrow> 'v st" where
  "log_exec a s =
     s\<lparr>pending := remove1 a (pending s),
       exec_log := exec_log s @ [(a, the (a_resolver (acts s ! a)))]\<rparr>"

definition uv_close :: "aid \<Rightarrow> 'v st \<Rightarrow> 'v st" where
  "uv_close a s = s\<lparr>closing := closing s @ [a]\<rparr>"

definition Async :: "'v env \<Rightarrow> aid \<Rightarrow> ('v st, unit) M" where
  "Async E a =
     thenM (modM (log_exec a))
    (thenM (assertM (\<lambda>s. uv_data (acts s ! a)) ''iHandle->data != nullptr'')
    (thenM (executeAsync E a)
    (modM (uv_close a))))"

text \<open>\<open>AsyncBase::AsyncClosed\<close>, the callback of \<open>uv_close\<close>, with \<open>closeAsync\<close>.\<close>

definition closeAsync :: "aid \<Rightarrow> ('v st, unit) M" where
  "closeAsync a =
     thenM (assertM (\<lambda>s. a_resolver (acts s ! a) \<noteq> None) ''_resolver'')
    (modM (upd_act a (\<lambda>x. x\<lparr>a_resolver := None\<rparr>)))"

definition AsyncClosed :: "aid \<Rightarrow> ('v st, unit) M" where
  "AsyncClosed a =
     thenM (modM (\<lambda>s. s\<lparr>closing := remove1 a (closing s)\<rparr>))
    (thenM (assertM (\<lambda>s. uv_data (acts s ! a)) ''iHandle->data != nullptr'')
    (thenM (modM (upd_act a (\<lambda>x. x\<lparr>uv_data := False\<rparr>)))
    (thenM (assertM (\<lambda>s. a_instance (acts s ! a)) ''currobj->_instance'')
    (thenM (decreaseInstance a)
    (closeAsync a)))))"

end
