(* ===== verification/AsyncInv.thy ===== *)
theory AsyncInv
  imports Async
begin

text \<open>
  The invariant of the asynchronous core, and that every operation of the library keeps
  it: handles are active exactly while they are pending or closing, every action is
  enqueued at most once, every action is attached to at most one future, and the actions
  of a settled future have all been enqueued with the result the future was settled with.
\<close>

section \<open>The invariant\<close>

definition enqd :: "'v st \<Rightarrow> aid list" where
  "enqd s = map fst (enq_log s)"

definition execd :: "'v st \<Rightarrow> aid list" where
  "execd s = map fst (exec_log s)"

definition idle :: "'v action \<Rightarrow> bool" where
  "idle x \<longleftrightarrow> a_resolver x = None \<and> \<not> uv_data x \<and> \<not> a_instance x \<and> instanceNum x = 0"

definition active :: "'v action \<Rightarrow> bool" where
  "active x \<longleftrightarrow> a_resolver x \<noteq> None \<and> uv_data x \<and> a_instance x \<and> instanceNum x = 1"

fun fn_ok :: "nat \<Rightarrow> nat \<Rightarrow> cbfn \<Rightarrow> bool" where
  "fn_ok nf na (UserFn n) = True"
| "fn_ok nf na (FwdResolve f) = (f < nf)"
| "fn_ok nf na (FwdReject f) = (f < nf)"
| "fn_ok nf na (Attach f b) = (f < nf \<and> b < na)"

definition attached :: "'v st \<Rightarrow> aid \<Rightarrow> bool" where
  "attached s a \<longleftrightarrow> (\<exists>f < length (futs s). a \<in> set (f_actions (futs s ! f)))"

definition targets :: "'v st \<Rightarrow> aid \<Rightarrow> aid set" where
  "targets s b =
     {c. c < length (acts s) \<and> c \<notin> set (execd s) \<and> (\<exists>f. a_fn (acts s ! c) = Attach f b)}"

definition free :: "'v st \<Rightarrow> aid \<Rightarrow> bool" where
  "free s b \<longleftrightarrow> b < length (acts s) \<and> b \<notin> set (enqd s) \<and> \<not> attached s b \<and> targets s b = {}"

definition inv_ids :: "'v st \<Rightarrow> bool" where
  "inv_ids s \<longleftrightarrow>
     (\<forall>f < length (futs s). set (f_actions (futs s ! f)) \<subseteq> {..< length (acts s)}) \<and>
     (\<forall>a < length (acts s). a_future (acts s ! a) < length (futs s) \<and>
        fn_ok (length (futs s)) (length (acts s)) (a_fn (acts s ! a)))"

definition inv_handles :: "aid list \<Rightarrow> 'v st \<Rightarrow> bool" where
  "inv_handles R s \<longleftrightarrow>
     distinct (pending s @ closing s @ R) \<and>
     set (pending s @ closing s @ R) \<subseteq> {..< length (acts s)} \<and>
     (\<forall>a < length (acts s).
        if a \<in> set (pending s @ closing s @ R) then active (acts s ! a) else idle (acts s ! a))"

definition inv_logs :: "aid list \<Rightarrow> 'v st \<Rightarrow> bool" where
  "inv_logs R s \<longleftrightarrow>
     distinct (enqd s) \<and> distinct (execd s) \<and>
     set (enqd s) = set (execd s) \<union> set (pending s) \<and>
     set (execd s) \<inter> set (pending s) = {} \<and>
     set (closing s @ R) \<subseteq> set (execd s) \<and>
     set (exec_log s) \<subseteq> set (enq_log s) \<and>
     set (enqd s) \<subseteq> {..< length (acts s)} \<and>
     (\<forall>a \<in> set (pending s). (a, the (a_resolver (acts s ! a))) \<in> set (enq_log s))"

definition inv_attach :: "'v st \<Rightarrow> bool" where
  "inv_attach s \<longleftrightarrow>
     (\<forall>f < length (futs s). distinct (f_actions (futs s ! f))) \<and>
     (\<forall>f < length (futs s). \<forall>g < length (futs s). f \<noteq> g \<longrightarrow>
        set (f_actions (futs s ! f)) \<inter> set (f_actions (futs s ! g)) = {}) \<and>
     (\<forall>b c. c \<in> targets s b \<longrightarrow> b \<notin> set (enqd s) \<and> \<not> attached s b \<and> targets s b = {c})"

definition inv_settled :: "'v st \<Rightarrow> bool" where
  "inv_settled s \<longleftrightarrow>
     (\<forall>f < length (futs s). \<forall>a \<in> set (f_actions (futs s ! f)).
        case f_resolver (futs s ! f) of
          None \<Rightarrow> a \<notin> set (enqd s)
        | Some r \<Rightarrow> (a, r) \<in> set (enq_log s))"

definition inv :: "aid list \<Rightarrow> 'v st \<Rightarrow> bool" where
  "inv R s \<longleftrightarrow> inv_ids s \<and> inv_handles R s \<and> inv_logs R s \<and> inv_attach s \<and> inv_settled s"

lemmas inv_defs = inv_def inv_ids_def inv_handles_def inv_logs_def inv_attach_def inv_settled_def

definition uv_ok :: "'v env \<Rightarrow> bool" where
  "uv_ok E \<longleftrightarrow> (\<forall>a. uv_async_init E a = 0 \<and> uv_async_send E a = 0)"

section \<open>What enqueuing does\<close>

definition do_enq :: "'v resolver \<Rightarrow> aid \<Rightarrow> 'v st \<Rightarrow> 'v st" where
  "do_enq r a s =
     s\<lparr>acts := (acts s)[a := (acts s ! a)\<lparr>a_resolver := Some r,
                  instanceNum := instanceNum (acts s ! a) + 1, a_instance := True,
                  uv_data := True\<rparr>],
       pending := pending s @ [a], enq_log := enq_log s @ [(a, r)]\<rparr>"

lemma do_enq_simps [simp]:
  "futs (do_enq r a s) = futs s" "closing (do_enq r a s) = closing s"
  "pending (do_enq r a s) = pending s @ [a]" "enq_log (do_enq r a s) = enq_log s @ [(a, r)]"
  "exec_log (do_enq r a s) = exec_log s" "length (acts (do_enq r a s)) = length (acts s)"
  "loop_started (do_enq r a s) = loop_started s" "loop_thread (do_enq r a s) = loop_thread s"
  "cur_thread (do_enq r a s) = cur_thread s"
  "enqd (do_enq r a s) = enqd s @ [a]" "execd (do_enq r a s) = execd s"
  by (simp_all add: do_enq_def enqd_def execd_def)

lemma resolver_resolve_action_eq:
  "resolver_resolve_action E r a =
     thenM (assertM (\<lambda>s. a_resolver (acts s ! a) = None) ''!_resolver'')
    (thenM (modM (upd_act a (\<lambda>x. x\<lparr>a_resolver := Some r\<rparr>)))
    (enqueue E a))"
  by (cases r) (simp_all add: action_resolve_def action_reject_def)

lemma enqueue_ready:
  assumes a: "a < length (acts s)" and "\<not> a_instance (acts s ! a)" "\<not> uv_data (acts s ! a)"
    and r: "a_resolver (acts s ! a) = Some r"
  shows "enqueue E a s =
    (let s1 = s\<lparr>acts := (acts s)[a := (acts s ! a)\<lparr>instanceNum := instanceNum (acts s ! a) + 1,
                  a_instance := True, uv_data := True\<rparr>]\<rparr>
     in if uv_async_init E a \<noteq> 0 then (Inl (NativeExn ''uv_async_init''), s1)
        else if uv_async_send E a \<noteq> 0
        then (Inl (NativeExn ''uv_async_send''),
              upd_act a (\<lambda>x. x\<lparr>uv_data := False, a_instance := False\<rparr>) s1)
        else (Inr (), s1\<lparr>pending := pending s @ [a], enq_log := enq_log s @ [(a, r)]\<rparr>))"
  using assms by (simp add: enqueue_def increaseInstance_def monad_defs upd_act_def
      Let_def log_enqueue_def)

lemma resolve_action_idle:
  assumes a: "a < length (acts s)" and i: "idle (acts s ! a)"
  shows "resolver_resolve_action E r a s = (q, t) \<Longrightarrow> ok q \<Longrightarrow> q = Inr () \<and> t = do_enq r a s"
    and "uv_ok E \<Longrightarrow> resolver_resolve_action E r a s = (Inr (), do_enq r a s)"
proof -
  let ?s0 = "s\<lparr>acts := (acts s)[a := (acts s ! a)\<lparr>a_resolver := Some r\<rparr>]\<rparr>"
  have "resolver_resolve_action E r a s = enqueue E a ?s0"
    using i by (simp add: resolver_resolve_action_eq monad_defs upd_act_def idle_def)
  then have eq: "resolver_resolve_action E r a s =
     (if uv_async_init E a \<noteq> 0 \<or> uv_async_send E a \<noteq> 0
      then resolver_resolve_action E r a s else (Inr (), do_enq r a s))"
    and err: "uv_async_init E a \<noteq> 0 \<or> uv_async_send E a \<noteq> 0 \<Longrightarrow>
      \<not> ok (fst (resolver_resolve_action E r a s))"
    using a i by (auto simp: enqueue_ready Let_def do_enq_def idle_def)
  show "q = Inr () \<and> t = do_enq r a s"
    if "resolver_resolve_action E r a s = (q, t)" "ok q"
    using that eq err by (metis Pair_inject fst_conv)
  show "resolver_resolve_action E r a s = (Inr (), do_enq r a s)" if "uv_ok E"
    using that eq by (auto simp: uv_ok_def)
qed

definition enq_all :: "'v resolver \<Rightarrow> aid list \<Rightarrow> 'v st \<Rightarrow> 'v st" where
  "enq_all r as s = fold (do_enq r) as s"

lemma enq_all_simps [simp]:
  "futs (enq_all r as s) = futs s" "closing (enq_all r as s) = closing s"
  "pending (enq_all r as s) = pending s @ as"
  "enq_log (enq_all r as s) = enq_log s @ map (\<lambda>a. (a, r)) as"
  "exec_log (enq_all r as s) = exec_log s" "length (acts (enq_all r as s)) = length (acts s)"
  "loop_started (enq_all r as s) = loop_started s"
  "loop_thread (enq_all r as s) = loop_thread s" "cur_thread (enq_all r as s) = cur_thread s"
  "enqd (enq_all r as s) = enqd s @ as" "execd (enq_all r as s) = execd s"
  unfolding enq_all_def by (induction as arbitrary: s) simp_all

lemma enq_all_acts:
  assumes "distinct as" and "set as \<subseteq> {..< length (acts s)}" and "b < length (acts s)"
  shows "acts (enq_all r as s) ! b =
    (if b \<in> set as then (acts s ! b)\<lparr>a_resolver := Some r, instanceNum := instanceNum (acts s ! b) + 1,
        a_instance := True, uv_data := True\<rparr>
     else acts s ! b)"
  using assms
proof (induction as arbitrary: s)
  case Nil
  then show ?case by (simp add: enq_all_def)
next
  case (Cons a as)
  have "enq_all r (a # as) s = enq_all r as (do_enq r a s)" by (simp add: enq_all_def)
  with Cons.IH [of "do_enq r a s"] Cons.prems show ?case
    by (auto simp: do_enq_def nth_list_update)
qed

lemma forM_resolve_idle:
  assumes "distinct as" and "\<forall>a \<in> set as. a < length (acts s) \<and> idle (acts s ! a)"
  shows "forM as (resolver_resolve_action E r) s = (q, t) \<Longrightarrow> ok q \<Longrightarrow>
           q = Inr () \<and> t = enq_all r as s"
    and "uv_ok E \<Longrightarrow> forM as (resolver_resolve_action E r) s = (Inr (), enq_all r as s)"
proof -
  have step: "\<forall>b \<in> set as. b < length (acts (do_enq r a s)) \<and> idle (acts (do_enq r a s) ! b)"
    if "\<forall>b \<in> set (a # as). b < length (acts s) \<and> idle (acts s ! b)" "distinct (a # as)"
    for a as and s :: "'a st"
    using that by (auto simp: do_enq_def nth_list_update)
  show "forM as (resolver_resolve_action E r) s = (q, t) \<Longrightarrow> ok q \<Longrightarrow>
      q = Inr () \<and> t = enq_all r as s"
    using assms
  proof (induction as arbitrary: s)
    case Nil
    then show ?case by (simp add: retM_def enq_all_def)
  next
    case (Cons a as)
    obtain q' u where u: "resolver_resolve_action E r a s = (q', u)"
      by (cases "resolver_resolve_action E r a s")
    have "ok q'"
      using Cons.prems(1,2) u by (cases q') (auto simp: thenM_def bindM_def)
    with resolve_action_idle(1) [OF _ _ u] Cons.prems
    have "q' = Inr ()" "u = do_enq r a s" by auto
    with Cons.IH [of u] Cons.prems step [of a as s] u show ?case
      by (auto simp: thenM_def bindM_def enq_all_def)
  qed
  show "forM as (resolver_resolve_action E r) s = (Inr (), enq_all r as s)" if "uv_ok E"
    using assms
  proof (induction as arbitrary: s)
    case Nil
    then show ?case by (simp add: retM_def enq_all_def)
  next
    case (Cons a as)
    with step [of a as s] resolve_action_idle(2) [OF _ _ that, of a s r]
      Cons.IH [of "do_enq r a s"]
    show ?case by (auto simp: thenM_def bindM_def enq_all_def)
  qed
qed

section \<open>Creating objects\<close>

lemma fn_ok_mono: "fn_ok nf na x \<Longrightarrow> nf \<le> nf' \<Longrightarrow> na \<le> na' \<Longrightarrow> fn_ok nf' na' x"
  by (cases x) auto

lemma inv_enqd_range: "inv R s \<Longrightarrow> a \<in> set (enqd s) \<Longrightarrow> a < length (acts s)"
  by (auto simp: inv_def inv_logs_def)

lemma inv_execd_enqd: "inv R s \<Longrightarrow> a \<in> set (execd s) \<Longrightarrow> a \<in> set (enqd s)"
  by (auto simp: inv_def inv_logs_def)

lemma inv_busy_enqd:
  "inv R s \<Longrightarrow> a \<in> set (pending s @ closing s @ R) \<Longrightarrow> a \<in> set (enqd s)"
  by (auto simp: inv_def inv_logs_def)

lemma inv_not_enqd_idle:
  assumes "inv R s" "a < length (acts s)" "a \<notin> set (enqd s)"
  shows "idle (acts s ! a)"
proof -
  have "a \<notin> set (pending s @ closing s @ R)"
    using inv_busy_enqd [OF assms(1)] assms(3) by blast
  moreover have "inv_handles R s" using assms(1) by (simp add: inv_def)
  ultimately show ?thesis
    using assms(2) unfolding inv_handles_def by metis
qed

lemma attached_range: "inv R s \<Longrightarrow> attached s a \<Longrightarrow> a < length (acts s)"
  by (auto simp: inv_def inv_ids_def attached_def)

definition add_future :: "bool \<Rightarrow> 'v st \<Rightarrow> 'v st" where
  "add_future p s = s\<lparr>futs := futs s @ [\<lparr>f_resolver = None, f_actions = [], f_promise = p\<rparr>]\<rparr>"

lemma new_future_eq: "new_future p s = (Inr (length (futs s)), add_future p s)"
  by (simp add: new_future_def add_future_def)

lemma add_future_simps [simp]:
  "acts (add_future p s) = acts s" "pending (add_future p s) = pending s"
  "closing (add_future p s) = closing s" "enq_log (add_future p s) = enq_log s"
  "exec_log (add_future p s) = exec_log s" "loop_started (add_future p s) = loop_started s"
  "loop_thread (add_future p s) = loop_thread s" "cur_thread (add_future p s) = cur_thread s"
  "enqd (add_future p s) = enqd s" "execd (add_future p s) = execd s"
  "length (futs (add_future p s)) = Suc (length (futs s))"
  by (simp_all add: add_future_def enqd_def execd_def)

lemma add_future_nth:
  "f < Suc (length (futs s)) \<Longrightarrow> futs (add_future p s) ! f =
    (if f < length (futs s) then futs s ! f
     else \<lparr>f_resolver = None, f_actions = [], f_promise = p\<rparr>)"
  by (auto simp: add_future_def nth_append)

lemma attached_add_future [simp]: "attached (add_future p s) a = attached s a"
  by (auto simp: attached_def add_future_nth less_Suc_eq)

lemma targets_add_future [simp]: "targets (add_future p s) b = targets s b"
  by (simp add: targets_def)

lemma free_add_future [simp]: "free (add_future p s) b = free s b"
  by (simp add: free_def)

lemma inv_add_future: "inv R s \<Longrightarrow> inv R (add_future p s)"
proof -
  assume i: "inv R s"
  have "inv_ids (add_future p s)"
    using i by (auto simp: inv_def inv_ids_def add_future_nth less_Suc_eq fn_ok_mono)
  moreover have "inv_handles R (add_future p s)"
    using i by (auto simp: inv_def inv_handles_def)
  moreover have "inv_logs R (add_future p s)"
    using i by (auto simp: inv_def inv_logs_def)
  moreover have "inv_attach (add_future p s)"
    using i by (auto simp: inv_def inv_attach_def add_future_nth less_Suc_eq)
  moreover have "inv_settled (add_future p s)"
    using i by (auto simp: inv_def inv_settled_def add_future_nth less_Suc_eq split: option.splits)
  ultimately show ?thesis by (simp add: inv_def)
qed

definition add_action :: "akind \<Rightarrow> cbfn \<Rightarrow> fid \<Rightarrow> 'v st \<Rightarrow> 'v st" where
  "add_action k fn f s =
     s\<lparr>acts := acts s @ [\<lparr>a_kind = k, a_fn = fn, a_future = f, a_resolver = None,
             uv_data = False, a_instance = False, instanceNum = 0\<rparr>]\<rparr>"

lemma new_action_eq:
  "new_action k fn s =
     (Inr (length (acts s)), add_action k fn (length (futs s)) (add_future False s))"
  by (simp add: new_action_def bindM_def new_future_eq add_action_def)

lemma add_action_simps [simp]:
  "futs (add_action k fn f s) = futs s" "pending (add_action k fn f s) = pending s"
  "closing (add_action k fn f s) = closing s" "enq_log (add_action k fn f s) = enq_log s"
  "exec_log (add_action k fn f s) = exec_log s"
  "loop_started (add_action k fn f s) = loop_started s"
  "loop_thread (add_action k fn f s) = loop_thread s"
  "cur_thread (add_action k fn f s) = cur_thread s"
  "enqd (add_action k fn f s) = enqd s" "execd (add_action k fn f s) = execd s"
  "length (acts (add_action k fn f s)) = Suc (length (acts s))"
  "attached (add_action k fn f s) b = attached s b"
  by (simp_all add: add_action_def enqd_def execd_def attached_def)

lemma add_action_nth:
  "a < Suc (length (acts s)) \<Longrightarrow> acts (add_action k fn f s) ! a =
    (if a < length (acts s) then acts s ! a
     else \<lparr>a_kind = k, a_fn = fn, a_future = f, a_resolver = None,
             uv_data = False, a_instance = False, instanceNum = 0\<rparr>)"
  by (auto simp: add_action_def nth_append)

lemma targets_add_action:
  assumes "inv R s"
  shows "targets (add_action k fn f s) b =
     (if \<exists>g. fn = Attach g b then insert (length (acts s)) (targets s b) else targets s b)"
proof -
  have "length (acts s) \<notin> set (execd s)"
    using inv_enqd_range [OF assms] inv_execd_enqd [OF assms] by blast
  then show ?thesis
    by (auto simp: targets_def add_action_nth less_Suc_eq)
qed

lemma inv_add_action:
  assumes i: "inv R s" and f: "f < length (futs s)"
    and fn: "fn_ok (length (futs s)) (length (acts s)) fn"
    and free: "\<And>g b. fn = Attach g b \<Longrightarrow> free s b"
  shows "inv R (add_action k fn f s)"
proof -
  let ?n = "length (acts s)"
  have fresh: "?n \<notin> set (enqd s)" "?n \<notin> set (pending s @ closing s @ R)"
    using inv_enqd_range [OF i] inv_busy_enqd [OF i] by blast+
  have "inv_ids (add_action k fn f s)"
    using i f fn by (fastforce simp: inv_def inv_ids_def add_action_nth less_Suc_eq fn_ok_mono)
  moreover have "inv_handles R (add_action k fn f s)"
    using i fresh
    by (fastforce simp: inv_def inv_handles_def add_action_nth less_Suc_eq idle_def)
  moreover have "inv_logs R (add_action k fn f s)"
  proof -
    have "\<forall>a \<in> set (pending s). a < ?n"
      using inv_busy_enqd [OF i] inv_enqd_range [OF i] by auto
    then show ?thesis
      using i by (auto simp: inv_def inv_logs_def add_action_nth less_SucI)
  qed
  moreover have "inv_attach (add_action k fn f s)"
    using i free by (auto simp: inv_def inv_attach_def targets_add_action [OF i] free_def)
  moreover have "inv_settled (add_action k fn f s)"
    using i by (auto simp: inv_def inv_settled_def split: option.splits)
  ultimately show ?thesis by (simp add: inv_def)
qed

lemma free_new_action:
  assumes "inv R s" and "\<And>g. fn \<noteq> Attach g (length (acts s))"
  shows "free (add_action k fn f s) (length (acts s))"
proof -
  have "length (acts s) \<notin> set (enqd s)" "\<not> attached s (length (acts s))"
    using inv_enqd_range [OF assms(1)] attached_range [OF assms(1)] by blast+
  moreover have "targets s (length (acts s)) = {}"
    using assms(1) by (fastforce simp: inv_def inv_ids_def targets_def)
  ultimately show ?thesis
    using assms by (auto simp: free_def targets_add_action)
qed

section \<open>Enqueuing, settling and attaching\<close>

lemma targets_do_not_change [simp]:
  "targets (enq_all r as s) b = targets s b" if "distinct as" "set as \<subseteq> {..< length (acts s)}"
  using that by (auto simp: targets_def enq_all_acts split: if_splits)

lemma attached_enq_all [simp]: "attached (enq_all r as s) a = attached s a"
  by (simp add: attached_def)

lemma inv_enq_all:
  assumes i: "inv_ids s" "inv_handles R s" "inv_logs R s" "inv_attach s"
    and d: "distinct as" and as: "\<And>a. a \<in> set as \<Longrightarrow> a < length (acts s) \<and> a \<notin> set (enqd s)"
    and t: "\<And>a. a \<in> set as \<Longrightarrow> targets s a = {}"
    and settled: "\<And>f a. f < length (futs s) \<Longrightarrow> a \<in> set (f_actions (futs s ! f)) \<Longrightarrow>
      case f_resolver (futs s ! f) of None \<Rightarrow> a \<notin> set (enqd s) \<and> a \<notin> set as
      | Some r' \<Rightarrow> (a, r') \<in> set (enq_log s) \<or> a \<in> set as \<and> r' = r"
  shows "inv R (enq_all r as s)"
proof -
  have sub: "set as \<subseteq> {..< length (acts s)}" using as by auto
  have busy: "set (pending s @ closing s @ R) \<subseteq> set (enqd s)"
    using i(3) by (auto simp: inv_logs_def)
  note nth = enq_all_acts [OF d sub]
  have "inv_ids (enq_all r as s)"
    using i(1) by (auto simp: inv_ids_def nth)
  moreover have "inv_handles R (enq_all r as s)"
  proof -
    have "distinct (pending (enq_all r as s) @ closing (enq_all r as s) @ R)"
      using i(2) d as busy by (auto simp: inv_handles_def)
    moreover have "set (pending (enq_all r as s) @ closing (enq_all r as s) @ R)
        \<subseteq> {..< length (acts (enq_all r as s))}"
      using i(2) sub by (auto simp: inv_handles_def)
    moreover have "if a \<in> set (pending (enq_all r as s) @ closing (enq_all r as s) @ R)
        then active (acts (enq_all r as s) ! a) else idle (acts (enq_all r as s) ! a)"
      if "a < length (acts s)" for a
    proof (cases "a \<in> set as")
      case True
      then have "a \<notin> set (pending s @ closing s @ R)" using as busy by blast
      then have "idle (acts s ! a)"
        using i(2) that unfolding inv_handles_def by metis
      then show ?thesis
        using True that by (simp add: nth idle_def active_def)
    next
      case False
      then show ?thesis
        using i(2) that unfolding inv_handles_def by (auto simp: nth)
    qed
    ultimately show ?thesis unfolding inv_handles_def by simp
  qed
  moreover have "inv_logs R (enq_all r as s)"
  proof -
    have "(a, the (a_resolver (acts (enq_all r as s) ! a))) \<in> set (enq_log (enq_all r as s))"
      if "a \<in> set (pending s @ as)" for a
    proof (cases "a \<in> set as")
      case True
      then show ?thesis using as by (simp add: nth)
    next
      case False
      then have p: "a \<in> set (pending s)" using that by simp
      then have "a < length (acts s)" using busy i(3) by (auto simp: inv_logs_def)
      with False p i(3) show ?thesis by (simp add: nth inv_logs_def)
    qed
    with i(3) d as sub show ?thesis
      unfolding inv_logs_def by (auto simp: inv_logs_def)
  qed
  moreover have "inv_attach (enq_all r as s)"
    using i(4) t d sub by (auto simp: inv_attach_def)
  moreover have "inv_settled (enq_all r as s)"
    unfolding inv_settled_def using settled by (fastforce split: option.splits)
  ultimately show ?thesis by (simp add: inv_def)
qed

lemma inv_not_targeted: "inv R s \<Longrightarrow> attached s a \<Longrightarrow> targets s a = {}"
  by (auto simp: inv_def inv_attach_def)

lemma attachedI: "f < length (futs s) \<Longrightarrow> a \<in> set (f_actions (futs s ! f)) \<Longrightarrow> attached s a"
  by (auto simp: attached_def)

lemma upd_fut_simps [simp]:
  "acts (upd_fut f g s) = acts s" "pending (upd_fut f g s) = pending s"
  "closing (upd_fut f g s) = closing s" "enq_log (upd_fut f g s) = enq_log s"
  "exec_log (upd_fut f g s) = exec_log s" "loop_started (upd_fut f g s) = loop_started s"
  "loop_thread (upd_fut f g s) = loop_thread s" "cur_thread (upd_fut f g s) = cur_thread s"
  "enqd (upd_fut f g s) = enqd s" "execd (upd_fut f g s) = execd s"
  "length (futs (upd_fut f g s)) = length (futs s)" "targets (upd_fut f g s) b = targets s b"
  by (simp_all add: upd_fut_def enqd_def execd_def targets_def)

lemma upd_fut_nth:
  "h < length (futs s) \<Longrightarrow>
     futs (upd_fut f g s) ! h = (if h = f then g (futs s ! f) else futs s ! h)"
  by (auto simp: upd_fut_def nth_list_update)

definition settle :: "fid \<Rightarrow> 'v resolver \<Rightarrow> 'v st \<Rightarrow> 'v st" where
  "settle f r s = enq_all r (f_actions (futs s ! f)) (set_resolver f r s)"

lemma inv_settle:
  assumes i: "inv R s" and f: "f < length (futs s)" and n: "f_resolver (futs s ! f) = None"
  shows "inv R (settle f r s)"
proof -
  let ?s = "set_resolver f r s" and ?as = "f_actions (futs s ! f)"
  have acts: "f_actions (futs ?s ! h) = f_actions (futs s ! h)" if "h < length (futs s)" for h
    using that by (auto simp: set_resolver_def upd_fut_nth)
  have att: "attached ?s a = attached s a" for a
    using acts by (auto simp: attached_def set_resolver_def)
  have as: "a < length (acts s) \<and> a \<notin> set (enqd s)" if "a \<in> set ?as" for a
    using i f n that by (force simp: inv_def inv_ids_def inv_settled_def)
  show ?thesis
    unfolding settle_def
  proof (rule inv_enq_all)
    show "inv_ids ?s"
      using i acts by (auto simp: inv_def inv_ids_def set_resolver_def)
    show "inv_handles R ?s"
      using i by (auto simp: inv_def inv_handles_def set_resolver_def)
    show "inv_logs R ?s"
      using i by (auto simp: inv_def inv_logs_def set_resolver_def)
    show "inv_attach ?s"
      using i acts unfolding inv_attach_def inv_def by (simp add: att) (simp add: set_resolver_def)
    show "distinct ?as" using i f by (auto simp: inv_def inv_attach_def)
    show "a < length (acts ?s) \<and> a \<notin> set (enqd ?s)" if "a \<in> set ?as" for a
      using as [OF that] by (simp add: set_resolver_def)
    show "targets ?s a = {}" if "a \<in> set ?as" for a
      using inv_not_targeted [OF i attachedI [OF f that]] by (simp add: set_resolver_def)
    show "case f_resolver (futs ?s ! h) of None \<Rightarrow> a \<notin> set (enqd ?s) \<and> a \<notin> set ?as
      | Some r' \<Rightarrow> (a, r') \<in> set (enq_log ?s) \<or> a \<in> set ?as \<and> r' = r"
      if h: "h < length (futs ?s)" and a: "a \<in> set (f_actions (futs ?s ! h))" for h a
    proof (cases "h = f")
      case True
      then show ?thesis using a f acts by (simp add: set_resolver_def upd_fut_nth)
    next
      case False
      have h': "h < length (futs s)" using h by (simp add: set_resolver_def)
      have a': "a \<in> set (f_actions (futs s ! h))" using a acts [OF h'] by simp
      have "a \<notin> set ?as" using i h' f False a' by (auto simp: inv_def inv_attach_def)
      with i h' a' False show ?thesis
        by (auto simp: inv_def inv_settled_def set_resolver_def upd_fut_nth split: option.splits)
    qed
  qed
qed

definition attach_to :: "fid \<Rightarrow> aid \<Rightarrow> 'v st \<Rightarrow> 'v st" where
  "attach_to f a = upd_fut f (\<lambda>x. x\<lparr>f_actions := f_actions x @ [a]\<rparr>)"

definition pushed :: "fid \<Rightarrow> aid \<Rightarrow> 'v st \<Rightarrow> 'v st" where
  "pushed f a s =
     (case f_resolver (futs s ! f) of None \<Rightarrow> attach_to f a s
      | Some r \<Rightarrow> enq_all r [a] (attach_to f a s))"

lemma inv_attach_to:
  assumes i: "inv R s" and f: "f < length (futs s)" and a: "free s a"
  shows "inv_ids (attach_to f a s)" "inv_handles R (attach_to f a s)"
    "inv_logs R (attach_to f a s)" "inv_attach (attach_to f a s)"
proof -
  let ?s = "attach_to f a s"
  have na: "a \<notin> set (f_actions (futs s ! h))" if "h < length (futs s)" for h
    using a that by (auto simp: free_def attached_def)
  have att: "attached ?s b = (b = a \<or> attached s b)" for b
    using f by (auto simp: attached_def attach_to_def upd_fut_nth split: if_splits)
  have "a < length (acts s)" using a by (simp add: free_def)
  then show "inv_ids ?s"
    using i f by (auto simp: inv_def inv_ids_def attach_to_def upd_fut_nth)
  show "inv_handles R ?s"
    using i by (auto simp: inv_def inv_handles_def attach_to_def)
  show "inv_logs R ?s"
    using i by (auto simp: inv_def inv_logs_def attach_to_def)
  have t: "targets ?s b = targets s b" for b by (simp add: attach_to_def)
  have e: "enqd ?s = enqd s" by (simp add: attach_to_def)
  have "targets s a = {}" using a by (simp add: free_def)
  then have "\<forall>b c. c \<in> targets ?s b \<longrightarrow> b \<notin> set (enqd ?s) \<and> \<not> attached ?s b \<and> targets ?s b = {c}"
    using i by (auto simp: t e att inv_def inv_attach_def)
  moreover have "\<forall>h < length (futs ?s). distinct (f_actions (futs ?s ! h))"
    using i na f by (auto simp: inv_def inv_attach_def attach_to_def upd_fut_nth)
  moreover have "set (f_actions (futs ?s ! g)) \<inter> set (f_actions (futs ?s ! h)) = {}"
    if "g < length (futs s)" "h < length (futs s)" "g \<noteq> h" for g h
    using i that na [OF that(1)] na [OF that(2)]
    by (auto simp: inv_def inv_attach_def attach_to_def upd_fut_nth)
  ultimately show "inv_attach ?s" by (simp add: inv_attach_def attach_to_def)
qed

lemma inv_pushed:
  assumes i: "inv R s" and f: "f < length (futs s)" and a: "free s a"
  shows "inv R (pushed f a s)"
proof -
  let ?s = "attach_to f a s"
  note att = inv_attach_to [OF i f a]
  have ne: "a \<notin> set (enqd s)" "a < length (acts s)" "targets s a = {}"
    using a by (simp_all add: free_def)
  have na: "a \<notin> set (f_actions (futs s ! h))" if "h < length (futs s)" for h
    using a that by (auto simp: free_def attached_def)
  show ?thesis
  proof (cases "f_resolver (futs s ! f)")
    case None
    have "inv_settled ?s"
      using i None ne
      by (auto simp: inv_def inv_settled_def attach_to_def upd_fut_nth split: option.splits)
    with att None show ?thesis by (simp add: pushed_def inv_def)
  next
    case (Some r)
    have "inv R (enq_all r [a] ?s)"
    proof (rule inv_enq_all)
      show "inv_ids ?s" "inv_handles R ?s" "inv_logs R ?s" "inv_attach ?s" by (rule att)+
      show "distinct [a]" by simp
      show "b < length (acts ?s) \<and> b \<notin> set (enqd ?s)" "targets ?s b = {}" if "b \<in> set [a]" for b
        using that ne by (simp_all add: attach_to_def)
      show "case f_resolver (futs ?s ! h) of None \<Rightarrow> b \<notin> set (enqd ?s) \<and> b \<notin> set [a]
        | Some r' \<Rightarrow> (b, r') \<in> set (enq_log ?s) \<or> b \<in> set [a] \<and> r' = r"
        if h: "h < length (futs ?s)" and b: "b \<in> set (f_actions (futs ?s ! h))" for h b
        using i Some h b na
        by (auto simp: inv_def inv_settled_def attach_to_def upd_fut_nth split: option.splits
            if_splits)
    qed
    with Some show ?thesis by (simp add: pushed_def)
  qed
qed

section \<open>The operations as functions on the state\<close>

lemma resolver_resolve_future_eq:
  "resolver_resolve_future E r f =
     thenM (assertM isOnEventLoopThread ''Not on the event Loop thread'')
    (\<lambda>s. if f_resolver (futs s ! f) \<noteq> None then throwM PromiseAlreadySatisfied s
      else thenM (modM (set_resolver f r))
             (forM (f_actions (futs s ! f)) (resolver_resolve_action E r)) s)"
  by (cases r; hypsubst; simp add: future_resolve_def future_reject_def)

lemma future_settle_cases:
  "future_resolve E f v = resolver_resolve_future E (RValue v) f"
  "future_reject E f e = resolver_resolve_future E (RError e) f"
  by simp_all

lemma inv_unsettled_actions:
  assumes i: "inv R s" and f: "f < length (futs s)" and n: "f_resolver (futs s ! f) = None"
  shows "distinct (f_actions (futs s ! f))"
    "\<forall>a \<in> set (f_actions (futs s ! f)). a < length (acts s) \<and> idle (acts s ! a)"
proof -
  show "distinct (f_actions (futs s ! f))" using i f by (auto simp: inv_def inv_attach_def)
  show "\<forall>a \<in> set (f_actions (futs s ! f)). a < length (acts s) \<and> idle (acts s ! a)"
  proof
    fix a assume a: "a \<in> set (f_actions (futs s ! f))"
    have "a < length (acts s)" using i f a by (auto simp: inv_def inv_ids_def)
    moreover have "a \<notin> set (enqd s)" using i f n a by (force simp: inv_def inv_settled_def)
    ultimately show "a < length (acts s) \<and> idle (acts s ! a)"
      using inv_not_enqd_idle [OF i] by blast
  qed
qed

text \<open>\<open>settles E q r f s t\<close>: settling \<open>f\<close> with \<open>r\<close> returns \<open>q\<close> and the state \<open>t\<close>.\<close>

lemma resolve_future_cases:
  assumes i: "inv R s" and f: "f < length (futs s)"
    and run: "resolver_resolve_future E r f s = (q, t)" and ok: "ok q"
  shows "isOnEventLoopThread s \<and>
    (if f_resolver (futs s ! f) \<noteq> None then q = Inl PromiseAlreadySatisfied \<and> t = s
     else q = Inr () \<and> t = settle f r s)"
proof -
  have th: "isOnEventLoopThread s"
    using run ok by (auto simp: resolver_resolve_future_eq monad_defs split: if_splits)
  show ?thesis
  proof (cases "f_resolver (futs s ! f)")
    case (Some r')
    then show ?thesis
      using run th by (auto simp: resolver_resolve_future_eq monad_defs)
  next
    case None
    let ?s = "set_resolver f r s"
    have "forM (f_actions (futs s ! f)) (resolver_resolve_action E r) ?s = (q, t)"
      using run th None by (simp add: resolver_resolve_future_eq thenM_def bindM_def modM_def
          assertM_def)
    from forM_resolve_idle(1) [OF _ _ this ok] inv_unsettled_actions [OF i f None]
    show ?thesis using th None by (simp add: settle_def set_resolver_def)
  qed
qed

lemma resolve_future_uv_ok:
  assumes i: "inv R s" and f: "f < length (futs s)" and uv: "uv_ok E"
    and th: "isOnEventLoopThread s"
  shows "resolver_resolve_future E r f s =
    (if f_resolver (futs s ! f) \<noteq> None then (Inl PromiseAlreadySatisfied, s)
     else (Inr (), settle f r s))"
proof (cases "f_resolver (futs s ! f)")
  case (Some r')
  then show ?thesis
    using th by (auto simp: resolver_resolve_future_eq monad_defs)
next
  case None
  have "forM (f_actions (futs s ! f)) (resolver_resolve_action E r) (set_resolver f r s) =
      (Inr (), settle f r s)"
    unfolding settle_def
    by (rule forM_resolve_idle(2) [OF _ _ uv])
      (use inv_unsettled_actions [OF i f None] in \<open>simp_all add: set_resolver_def\<close>)
  then show ?thesis
    using th None by (simp add: resolver_resolve_future_eq thenM_def bindM_def modM_def
        assertM_def)
qed

lemma push_action_run:
  assumes i: "inv R s" and f: "f < length (futs s)" and a: "free s a"
  shows "push_action E f a s = (q, t) \<Longrightarrow> ok q \<Longrightarrow> q = Inr () \<and> t = pushed f a s"
    and "uv_ok E \<Longrightarrow> push_action E f a s = (Inr (), pushed f a s)"
proof -
  let ?s = "attach_to f a s"
  have idle: "a < length (acts ?s)" "idle (acts ?s ! a)"
    using a inv_not_enqd_idle [OF i] by (simp_all add: free_def attach_to_def)
  have eq: "push_action E f a s = (case f_resolver (futs s ! f) of None \<Rightarrow> (Inr (), ?s)
       | Some r \<Rightarrow> resolver_resolve_action E r a ?s)"
    using f by (auto simp: push_action_def thenM_def bindM_def modM_def retM_def attach_to_def
        upd_fut_nth split: option.splits)
  show "q = Inr () \<and> t = pushed f a s" if "push_action E f a s = (q, t)" "ok q"
    using that eq resolve_action_idle(1) [OF idle, of E _ q t]
    by (auto simp: pushed_def enq_all_def split: option.splits)
  show "push_action E f a s = (Inr (), pushed f a s)" if "uv_ok E"
    using eq resolve_action_idle(2) [OF idle that]
    by (auto simp: pushed_def enq_all_def split: option.splits)
qed

section \<open>How the state grows\<close>

text \<open>
  What every operation of the library guarantees of the objects that exist: a settled
  future keeps its result, the actions attached to a future stay attached in the same
  order, the parts of an action that say what it does never change, and the logs only
  grow. Between two turns of the loop, the actions enqueued are added to the end of the
  queue and nothing else happens to it.
\<close>

definition grows_fut :: "'v future \<Rightarrow> 'v future \<Rightarrow> bool" where
  "grows_fut x y \<longleftrightarrow>
     f_promise y = f_promise x \<and> (\<exists>zs. f_actions y = f_actions x @ zs) \<and>
     (f_resolver x \<noteq> None \<longrightarrow> f_resolver y = f_resolver x)"

definition same_act :: "'v action \<Rightarrow> 'v action \<Rightarrow> bool" where
  "same_act x y \<longleftrightarrow>
     a_kind y = a_kind x \<and> a_fn y = a_fn x \<and> a_future y = a_future x"

definition grows :: "'v st \<Rightarrow> 'v st \<Rightarrow> bool" where
  "grows s t \<longleftrightarrow>
     length (futs s) \<le> length (futs t) \<and>
     (\<forall>f < length (futs s). grows_fut (futs s ! f) (futs t ! f)) \<and>
     length (acts s) \<le> length (acts t) \<and>
     (\<forall>a < length (acts s). same_act (acts s ! a) (acts t ! a)) \<and>
     (\<exists>zs. enq_log t = enq_log s @ zs) \<and> (\<exists>zs. exec_log t = exec_log s @ zs)"

definition quiet :: "'v st \<Rightarrow> 'v st \<Rightarrow> bool" where
  "quiet s t \<longleftrightarrow>
     exec_log t = exec_log s \<and> closing t = closing s \<and> loop_started t = loop_started s \<and>
     loop_thread t = loop_thread s \<and> cur_thread t = cur_thread s \<and>
     (\<exists>zs. enq_log t = enq_log s @ zs \<and> pending t = pending s @ map fst zs)"

definition ext :: "'v st \<Rightarrow> 'v st \<Rightarrow> bool" where
  "ext s t \<longleftrightarrow> grows s t \<and> quiet s t"

lemma grows_refl [simp]: "grows s s"
  by (simp add: grows_def grows_fut_def same_act_def)

lemma grows_fut_trans: "grows_fut x y \<Longrightarrow> grows_fut y z \<Longrightarrow> grows_fut x z"
  by (auto simp: grows_fut_def)

lemma grows_trans: "grows s t \<Longrightarrow> grows t u \<Longrightarrow> grows s u"
  unfolding grows_def
  by (auto simp: same_act_def intro: grows_fut_trans)

lemma ext_refl [simp]: "ext s s"
  by (simp add: ext_def quiet_def)

lemma ext_trans: "ext s t \<Longrightarrow> ext t u \<Longrightarrow> ext s u"
  unfolding ext_def by (auto simp: quiet_def intro: grows_trans)

lemma ext_futs: "ext s t \<Longrightarrow> f < length (futs s) \<Longrightarrow> f < length (futs t)"
  by (auto simp: ext_def grows_def)

lemma ext_acts: "ext s t \<Longrightarrow> a < length (acts s) \<Longrightarrow> a < length (acts t)"
  by (auto simp: ext_def grows_def)

lemma ext_act: "ext s t \<Longrightarrow> a < length (acts s) \<Longrightarrow> same_act (acts s ! a) (acts t ! a)"
  by (auto simp: ext_def grows_def)

lemma ext_loop:
  "ext s t \<Longrightarrow> loop_started t = loop_started s \<and> loop_thread t = loop_thread s \<and>
     cur_thread t = cur_thread s"
  by (simp add: ext_def quiet_def)

lemma isOn_ext: "ext s t \<Longrightarrow> isOnEventLoopThread t = isOnEventLoopThread s"
  using ext_loop [of s t] by (simp add: isOnEventLoopThread_def)

lemma ext_upd_fut:
  "(f < length (futs s) \<Longrightarrow> grows_fut (futs s ! f) (g (futs s ! f))) \<Longrightarrow> ext s (upd_fut f g s)"
  by (auto simp: ext_def grows_def quiet_def upd_fut_nth grows_fut_def same_act_def)

lemma ext_do_enq: "a < length (acts s) \<Longrightarrow> ext s (do_enq r a s)"
  by (auto simp: ext_def grows_def quiet_def do_enq_def nth_list_update grows_fut_def
      same_act_def)

lemma ext_enq_all: "set as \<subseteq> {..< length (acts s)} \<Longrightarrow> ext s (enq_all r as s)"
  unfolding enq_all_def
proof (induction as arbitrary: s)
  case (Cons a as)
  from Cons.prems have "ext s (do_enq r a s)" by (intro ext_do_enq) simp
  moreover have "ext (do_enq r a s) (fold (do_enq r) as (do_enq r a s))"
    using Cons by (auto simp: subset_eq)
  ultimately show ?case using ext_trans by fastforce
qed simp

lemma ext_add_future: "ext s (add_future p s)"
  by (auto simp: ext_def grows_def quiet_def add_future_nth grows_fut_def same_act_def)

lemma ext_add_action: "ext s (add_action k fn f s)"
  by (auto simp: ext_def grows_def quiet_def add_action_nth grows_fut_def same_act_def)

lemma ext_settle:
  assumes "inv R s" "f < length (futs s)" "f_resolver (futs s ! f) = None"
  shows "ext s (settle f r s)"
proof -
  have "ext s (set_resolver f r s)"
    unfolding set_resolver_def using assms by (auto intro!: ext_upd_fut simp: grows_fut_def)
  then show ?thesis
    unfolding settle_def using inv_unsettled_actions(2) [OF assms]
    by (intro ext_trans [OF _ ext_enq_all]) (auto simp: set_resolver_def)
qed

lemma ext_pushed: "f < length (futs s) \<Longrightarrow> free s a \<Longrightarrow> ext s (pushed f a s)"
proof -
  assume f: "f < length (futs s)" and a: "free s a"
  have "ext s (attach_to f a s)"
    unfolding attach_to_def by (auto intro!: ext_upd_fut simp: grows_fut_def)
  moreover have "ext (attach_to f a s) (enq_all r [a] (attach_to f a s))" for r
    using a by (intro ext_enq_all) (simp add: free_def attach_to_def)
  ultimately show ?thesis
    by (auto simp: pushed_def intro: ext_trans split: option.splits)
qed

end
