(* ===== verification/AsyncKeeps.thy ===== *)
theory AsyncKeeps
  imports AsyncInv
begin

text \<open>
  Every operation of the asynchronous core keeps the invariant of the previous theory
  and makes the state grow, whatever the program's callbacks do.
\<close>

section \<open>Attaching and posting actions\<close>

definition async_st :: "cbfn \<Rightarrow> 'v st \<Rightarrow> 'v st" where
  "async_st fn s =
     enq_all (RValue Void) [length (acts s)]
       (add_action KThen fn (length (futs s)) (add_future False s))"

definition attach_st :: "akind \<Rightarrow> fid \<Rightarrow> cbfn \<Rightarrow> 'v st \<Rightarrow> 'v st" where
  "attach_st k f fn s =
     (let a = length (acts s); s1 = add_action k fn (length (futs s)) (add_future False s)
      in if isOnEventLoopThread s then pushed f a s1 else async_st (Attach f a) s1)"

lemma inv_new_action:
  assumes i: "inv R s" and fn: "fn_ok (length (futs s)) (length (acts s)) fn"
    and free: "\<And>g b. fn = Attach g b \<Longrightarrow> free s b"
  shows "inv R (add_action k fn (length (futs s)) (add_future False s))"
    and "free (add_action k fn (length (futs s)) (add_future False s)) (length (acts s))"
    and "ext s (add_action k fn (length (futs s)) (add_future False s))"
proof -
  have i': "inv R (add_future False s)" by (rule inv_add_future [OF i])
  show "inv R (add_action k fn (length (futs s)) (add_future False s))"
    using free fn by (intro inv_add_action [OF i']) (simp_all add: fn_ok_mono)
  have "\<And>g. fn \<noteq> Attach g (length (acts s))"
    using fn by auto
  then show "free (add_action k fn (length (futs s)) (add_future False s)) (length (acts s))"
    using free_new_action [OF i', of fn k "length (futs s)"] by simp
  show "ext s (add_action k fn (length (futs s)) (add_future False s))"
    using ext_trans [OF ext_add_future ext_add_action] .
qed

lemma inv_enq_free:
  assumes i: "inv R s" and a: "free s a"
  shows "inv R (enq_all r [a] s)"
proof (rule inv_enq_all)
  show "inv_ids s" "inv_handles R s" "inv_logs R s" "inv_attach s"
    using i by (simp_all add: inv_def)
  show "distinct [a]" by simp
  show "b < length (acts s) \<and> b \<notin> set (enqd s)" "targets s b = {}" if "b \<in> set [a]" for b
    using a that by (simp_all add: free_def)
  show "case f_resolver (futs s ! h) of None \<Rightarrow> b \<notin> set (enqd s) \<and> b \<notin> set [a]
      | Some r' \<Rightarrow> (b, r') \<in> set (enq_log s) \<or> b \<in> set [a] \<and> r' = r"
    if h: "h < length (futs s)" and b: "b \<in> set (f_actions (futs s ! h))" for h b
    using i h b attachedI [OF h b] a
    by (auto simp: inv_def inv_settled_def free_def split: option.splits)
qed

lemma async_st_props:
  assumes i: "inv R s" and fn: "fn_ok (length (futs s)) (length (acts s)) fn"
    and free: "\<And>g b. fn = Attach g b \<Longrightarrow> free s b"
  shows "inv R (async_st fn s)" "ext s (async_st fn s)"
    "length (futs (async_st fn s)) = Suc (length (futs s))"
proof -
  let ?s = "add_action KThen fn (length (futs s)) (add_future False s)"
  note new = inv_new_action [OF i fn free, where k = KThen]
  show "inv R (async_st fn s)"
    unfolding async_st_def using new by (intro inv_enq_free) simp_all
  show "ext s (async_st fn s)"
    unfolding async_st_def using new(3) by (intro ext_trans [OF new(3) ext_enq_all]) auto
  show "length (futs (async_st fn s)) = Suc (length (futs s))"
    by (simp add: async_st_def)
qed

lemma attach_st_props:
  assumes i: "inv R s" and f: "f < length (futs s)"
    and fn: "fn_ok (length (futs s)) (length (acts s)) fn" and na: "\<And>g b. fn \<noteq> Attach g b"
  shows "inv R (attach_st k f fn s)" "ext s (attach_st k f fn s)"
    "length (futs s) < length (futs (attach_st k f fn s))"
proof -
  let ?a = "length (acts s)"
  let ?s = "add_action k fn (length (futs s)) (add_future False s)"
  have new: "inv R ?s" "free ?s ?a" "ext s ?s"
    using inv_new_action [OF i fn] na by blast+
  have f': "f < length (futs ?s)" using f by simp
  have ok: "fn_ok (length (futs ?s)) (length (acts ?s)) (Attach f ?a)" using f by simp
  note as = async_st_props [OF new(1) ok]
  show "inv R (attach_st k f fn s)"
    using inv_pushed [OF new(1) f' new(2)] as(1) new(2)
    by (simp add: attach_st_def Let_def)
  show "ext s (attach_st k f fn s)"
    using ext_trans [OF new(3) ext_pushed [OF f' new(2)]] ext_trans [OF new(3) as(2)] new(2)
    by (simp add: attach_st_def Let_def)
  have "length (futs (pushed f ?a ?s)) = Suc (length (futs s))"
    by (simp add: pushed_def attach_to_def split: option.splits)
  then show "length (futs s) < length (futs (attach_st k f fn s))"
    using as(3) new(2) by (simp add: attach_st_def Let_def)
qed

lemma action_resolve_free:
  assumes "inv R s" and "free s a"
  shows "action_resolve E a v s = (q, t) \<Longrightarrow> ok q \<Longrightarrow>
      q = Inr () \<and> t = enq_all (RValue v) [a] s"
    and "uv_ok E \<Longrightarrow> action_resolve E a v s = (Inr (), enq_all (RValue v) [a] s)"
  using resolve_action_idle [of a s E "RValue v"] inv_not_enqd_idle [OF assms(1), of a] assms(2)
  by (auto simp: free_def enq_all_def)

lemma async_run:
  assumes i: "inv R s" and fn: "fn_ok (length (futs s)) (length (acts s)) fn"
    and free: "\<And>g b. fn = Attach g b \<Longrightarrow> free s b"
  shows "async E fn s = (q, t) \<Longrightarrow> ok q \<Longrightarrow> q = Inr (length (futs s)) \<and> t = async_st fn s"
    and "uv_ok E \<Longrightarrow> async E fn s = (Inr (length (futs s)), async_st fn s)"
proof -
  let ?a = "length (acts s)"
  let ?s = "add_action KThen fn (length (futs s)) (add_future False s)"
  have new: "inv R ?s" "free ?s ?a"
    using inv_new_action [OF i fn] free by blast+
  have run: "async E fn s = (case action_resolve E ?a Void ?s of
      (Inl e, u) \<Rightarrow> (Inl e, u) | (Inr _, u) \<Rightarrow> (Inr (a_future (acts u ! ?a)), u))"
    by (auto simp: async_def bindM_def new_action_eq thenM_def retM_def
        split: prod.splits sum.splits)
  have fut: "a_future (acts (async_st fn s) ! ?a) = length (futs s)"
    by (simp add: async_st_def enq_all_acts add_action_nth)
  show "q = Inr (length (futs s)) \<and> t = async_st fn s" if "async E fn s = (q, t)" "ok q"
  proof -
    obtain q' u where u: "action_resolve E ?a Void ?s = (q', u)"
      by (cases "action_resolve E ?a Void ?s")
    have "ok q'" using u run that by (cases q') auto
    with action_resolve_free(1) [OF new(1,2) u] free
    have "q' = Inr () \<and> u = async_st fn s" by (simp add: async_st_def)
    with run u that fut show ?thesis by auto
  qed
  show "async E fn s = (Inr (length (futs s)), async_st fn s)" if "uv_ok E"
    using action_resolve_free(2) [OF new(1,2) that, of Void] run fut free
    by (simp add: async_st_def)
qed

lemma attach_run:
  assumes i: "inv R s" and f: "f < length (futs s)"
    and fn: "fn_ok (length (futs s)) (length (acts s)) fn" and na: "\<And>g b. fn \<noteq> Attach g b"
  shows "attach_action E k f fn s = (q, t) \<Longrightarrow> ok q \<Longrightarrow>
      q = Inr (length (futs s)) \<and> t = attach_st k f fn s"
    and "uv_ok E \<Longrightarrow> attach_action E k f fn s = (Inr (length (futs s)), attach_st k f fn s)"
proof -
  let ?a = "length (acts s)"
  let ?s = "add_action k fn (length (futs s)) (add_future False s)"
  have new: "inv R ?s" "free ?s ?a" "ext s ?s"
    using inv_new_action [OF i fn] na by blast+
  have f': "f < length (futs ?s)" using f by simp
  have ok: "fn_ok (length (futs ?s)) (length (acts ?s)) (Attach f ?a)" using f by simp
  have on: "isOnEventLoopThread ?s = isOnEventLoopThread s" using isOn_ext [OF new(3)] .
  have at: "g = f \<Longrightarrow> b = ?a \<Longrightarrow> free ?s b" for g b using new(2) by simp
  have ex: "ext ?s (attach_st k f fn s)"
    using ext_pushed [OF f' new(2)] async_st_props(2) [OF new(1) ok] new(2)
    by (simp add: attach_st_def Let_def)
  have fut: "a_future (acts (attach_st k f fn s) ! ?a) = length (futs s)"
    using ext_act [OF ex, of ?a] by (simp add: same_act_def add_action_nth)
  let ?m = "\<lambda>s. if \<not> isOnEventLoopThread s
                then thenM (async E (Attach f ?a)) (retM ()) s
                else push_action E f ?a s"
  have run: "attach_action E k f fn s = (case ?m ?s of
      (Inl e, u) \<Rightarrow> (Inl e, u) | (Inr _, u) \<Rightarrow> (Inr (a_future (acts u ! ?a)), u))"
    by (simp add: attach_action_def bindM_def new_action_eq thenM_def retM_def)
  show "q = Inr (length (futs s)) \<and> t = attach_st k f fn s"
    if "attach_action E k f fn s = (q, t)" "ok q"
  proof -
    obtain q' u where u: "?m ?s = (q', u)" by (cases "?m ?s")
    have okq: "ok q'" using u run that by (cases q') auto
    have "q' = Inr () \<and> u = attach_st k f fn s"
    proof (cases "isOnEventLoopThread s")
      case True
      with u on have "push_action E f ?a ?s = (q', u)" by simp
      from push_action_run(1) [OF new(1) f' new(2) this okq] True show ?thesis
        by (simp add: attach_st_def)
    next
      case False
      with u on have th: "thenM (async E (Attach f ?a)) (retM ()) ?s = (q', u)" by simp
      obtain q2 u2 where u2: "async E (Attach f ?a) ?s = (q2, u2)"
        by (cases "async E (Attach f ?a) ?s")
      have "ok q2" using th u2 okq by (cases q2) (auto simp: thenM_def bindM_def)
      with async_run(1) [OF new(1) ok _ u2] at
      have "q2 = Inr (length (futs ?s)) \<and> u2 = async_st (Attach f ?a) ?s" by simp
      with th u2 False show ?thesis
        by (auto simp: thenM_def bindM_def retM_def attach_st_def Let_def)
    qed
    with run u that fut show ?thesis by auto
  qed
  show "attach_action E k f fn s = (Inr (length (futs s)), attach_st k f fn s)" if "uv_ok E"
  proof -
    have "?m ?s = (Inr (), attach_st k f fn s)"
      using push_action_run(2) [OF new(1) f' new(2) that] at
        async_run(2) [OF new(1) ok _ that] on
      by (auto simp: attach_st_def Let_def thenM_def bindM_def retM_def)
    with run fut show ?thesis by simp
  qed
qed

section \<open>Whole operations\<close>

text \<open>
  \<open>stable R s0\<close>: the invariant holds and the state has grown from \<open>s0\<close>. Every operation
  keeps it, for every \<open>s0\<close> that has the objects the operation is called on.
\<close>

definition stable :: "aid list \<Rightarrow> 'v st \<Rightarrow> 'v st \<Rightarrow> bool" where
  "stable R s0 s \<longleftrightarrow> inv R s \<and> ext s0 s"

lemma stable_refl: "inv R s \<Longrightarrow> stable R s s"
  by (simp add: stable_def)

lemma stable_step: "stable R s0 s \<Longrightarrow> inv R t \<Longrightarrow> ext s t \<Longrightarrow> stable R s0 t"
  by (auto simp: stable_def intro: ext_trans)

lemma stable_trans: "stable R s0 s \<Longrightarrow> stable R s t \<Longrightarrow> stable R s0 t"
  by (auto simp: stable_def intro: ext_trans)

abbreviation keeps_stable where
  "keeps_stable R s0 m \<equiv> keeps (stable R s0) (stable R s0) m"

lemma keeps_stable_D:
  "keeps_stable R s m \<Longrightarrow> inv R s \<Longrightarrow> m s = (q, t) \<Longrightarrow> ok q \<Longrightarrow> stable R s t"
  using keepsD [where P = "stable R s" and Q = "stable R s"] stable_refl by blast

lemma keeps_stable_I:
  "(\<And>s q t. stable R s0 s \<Longrightarrow> m s = (q, t) \<Longrightarrow> ok q \<Longrightarrow> stable R s t) \<Longrightarrow> keeps_stable R s0 m"
  by (rule keepsI) (blast intro: stable_trans)

lemma keeps_settle:
  assumes "f < length (futs s0)"
  shows "keeps_stable R s0 (resolver_resolve_future E r f)"
proof (rule keepsI)
  fix s q t
  assume s: "stable R s0 s" and run: "resolver_resolve_future E r f s = (q, t)" "ok q"
  then have i: "inv R s" and f: "f < length (futs s)"
    using assms ext_futs by (auto simp: stable_def)
  from resolve_future_cases [OF i f run] show "stable R s0 t"
    using s inv_settle [OF i f] ext_settle [OF i f] stable_step [OF s]
    by (auto split: if_splits)
qed

lemmas keeps_resolve = keeps_settle [of _ _ _ _ "RValue _", simplified]
lemmas keeps_reject = keeps_settle [of _ _ _ _ "RError _", simplified]

lemma keeps_on_future:
  "(\<And>s. stable R s0 s \<Longrightarrow> f < length (futs s) \<Longrightarrow> keeps_stable R s m) \<Longrightarrow>
     keeps_stable R s0 (on_future f m)"
proof (rule keeps_stable_I)
  fix s q t
  assume m: "\<And>s. stable R s0 s \<Longrightarrow> f < length (futs s) \<Longrightarrow> keeps_stable R s m"
    and s: "stable R s0 s" and run: "on_future f m s = (q, t)" "ok q"
  then have f: "f < length (futs s)" and "m s = (q, t)"
    by (auto simp: on_future_def thenM_def bindM_def assertM_def split: if_splits)
  with keeps_stable_D [OF m [OF s f]] s run show "stable R s t"
    by (simp add: stable_def)
qed

lemma keeps_attach:
  assumes f: "f < length (futs s0)" and fn: "fn_ok (length (futs s0)) (length (acts s0)) fn"
    and na: "\<And>g b. fn \<noteq> Attach g b"
  shows "keeps_stable R s0 (attach_action E k f fn)"
proof (rule keepsI)
  fix s q t
  assume s: "stable R s0 s" and run: "attach_action E k f fn s = (q, t)" "ok q"
  then have i: "inv R s" and f': "f < length (futs s)"
    and fn': "fn_ok (length (futs s)) (length (acts s)) fn"
    using f fn ext_futs by (auto simp: stable_def ext_def grows_def intro: fn_ok_mono)
  from attach_run(1) [OF i f' fn' na run] attach_st_props [OF i f' fn' na] stable_step [OF s]
  show "stable R s0 t" by simp
qed

lemma keeps_async: "keeps_stable R s0 (async E (UserFn n))"
proof (rule keepsI)
  fix s q t
  assume s: "stable R s0 s" and run: "async E (UserFn n) s = (q, t)" "ok q"
  then have i: "inv R s" by (simp add: stable_def)
  from async_run(1) [OF i _ _ run] async_st_props [OF i, of "UserFn n"] stable_step [OF s]
  show "stable R s0 t" by simp
qed

lemma keeps_promise_new: "keeps_stable R s0 promise_new"
  by (rule keepsI)
    (auto simp: promise_new_def new_future_eq stable_def intro: inv_add_future ext_add_future ext_trans)

lemma keeps_run_api: "keeps_stable R s0 (run_api E c)"
proof (cases c)
  case NewPromise
  then show ?thesis by (auto intro!: keeps_then keeps_promise_new)
next
  case (PromiseResolve p v)
  then show ?thesis
    by (auto simp: on_promise_def promise_resolve_def intro!: keeps_on_future keeps_then
        keeps_resolve)
next
  case (PromiseReject p e)
  then show ?thesis
    by (auto simp: on_promise_def promise_reject_def intro!: keeps_on_future keeps_then
        keeps_reject)
next
  case (AsyncCall n)
  then show ?thesis by (auto intro!: keeps_then keeps_async)
qed (auto simp: future_then_def future_finally_def future_error_def
      intro!: keeps_on_future keeps_then keeps_attach)

lemma keeps_user_fn: "keeps_stable R s0 (call_fn E (UserFn n) x)"
proof (rule keeps_stable_I)
  fix s q t
  assume s: "stable R s0 s" and run: "call_fn E (UserFn n) x s = (q, t)" "ok q"
  have "keeps_stable R s (thenM (forM (fst (user E n x s)) (run_api E))
      (lift_outcome (snd (user E n x s))))"
    by (auto intro!: keeps_then keeps_for keeps_run_api simp: lift_outcome_def
        split: outcome.splits)
  from keeps_stable_D [OF this, of q t] run s show "stable R s t"
    by (simp add: stable_def)
qed

lemma keeps_user_error: "keeps_stable R s0 (call_error_fn E (UserFn n) e)"
proof (rule keeps_stable_I)
  fix s q t
  assume s: "stable R s0 s" and run: "call_error_fn E (UserFn n) e s = (q, t)" "ok q"
  have "keeps_stable R s (thenM (forM (fst (user_error E n e s)) (run_api E))
      (case snd (user_error E n e s) of Inl x \<Rightarrow> throwM x | Inr v \<Rightarrow> retM v))"
    by (auto intro!: keeps_then keeps_for keeps_run_api split: sum.splits)
  from keeps_stable_D [OF this, of q t] run s show "stable R s t"
    by (simp add: stable_def)
qed

lemma call_fn_stable:
  assumes i: "inv R s" and fn: "fn_ok (length (futs s)) (length (acts s)) fn"
    and free: "\<And>f b. fn = Attach f b \<Longrightarrow> free s b"
    and run: "call_fn E fn x s = (q, t)" "ok q"
  shows "stable R s t"
proof (cases fn)
  case (UserFn n)
  with run keeps_stable_D [OF keeps_user_fn i] show ?thesis by simp
next
  case (FwdResolve g)
  then have "keeps_stable R s (call_fn E fn x)"
    using fn by (cases x) (auto intro!: keeps_then keeps_resolve)
  from keeps_stable_D [OF this i run] show ?thesis .
next
  case (FwdReject g)
  then have "keeps_stable R s (call_fn E fn x)" by (cases x) auto
  from keeps_stable_D [OF this i run] show ?thesis .
next
  case (Attach f b)
  obtain q' u where u: "push_action E f b s = (q', u)" by (cases "push_action E f b s")
  have f: "f < length (futs s)" and b: "free s b" using fn free Attach by auto
  have q': "ok q'" "t = u"
    using run u Attach by (cases q'; auto simp: thenM_def bindM_def retM_def)+
  have "u = pushed f b s" using push_action_run(1) [OF i f b u q'(1)] by simp
  with q'(2) show ?thesis
    using inv_pushed [OF i f b] ext_pushed [OF f b] by (simp add: stable_def)
qed

lemma call_error_fn_stable:
  assumes i: "inv R s" and fn: "fn_ok (length (futs s)) (length (acts s)) fn"
    and run: "call_error_fn E fn e s = (q, t)" "ok q"
  shows "stable R s t"
proof -
  have "keeps_stable R s (call_error_fn E fn e)"
    using fn keeps_user_error by (cases fn) (auto intro!: keeps_then keeps_reject)
  from keeps_stable_D [OF this i run] show ?thesis .
qed

lemma attach_result:
  assumes "inv R s" "f < length (futs s)" "fn_ok (length (futs s)) (length (acts s)) fn"
    and "\<And>g b. fn \<noteq> Attach g b" and "attach_action E k f fn s = (Inr h, t)"
  shows "h < length (futs t)"
  using attach_run(1) [OF assms(1-5)] attach_st_props(3) [OF assms(1-4), of k] by simp

lemma keeps_forward:
  assumes g: "g < length (futs s0)" and f: "f < length (futs s0)"
  shows "keeps_stable R s0 (forward E g f)"
proof (rule keeps_stable_I)
  fix s q t
  assume s: "stable R s0 s" and run: "forward E g f s = (q, t)" "ok q"
  then have i: "inv R s" and g': "g < length (futs s)" and f': "f < length (futs s)"
    using assms ext_futs by (auto simp: stable_def)
  obtain q1 u where u: "attach_action E KThen g (FwdResolve f) s = (q1, u)"
    by (cases "attach_action E KThen g (FwdResolve f) s")
  have ok1: "ok q1"
    using u run by (cases q1) (auto simp: forward_def future_then_def bindM_def)
  have fn: "fn_ok (length (futs s)) (length (acts s)) (FwdResolve f)" using f' by simp
  have su: "stable R s u"
    using keeps_stable_D [OF keeps_attach [OF g' fn] i u ok1] by simp
  obtain h where h: "q1 = Inr h" "h < length (futs u)"
    using attach_run(1) [OF i g' fn _ u ok1] attach_result [OF i g' fn] u by auto
  have "keeps_stable R u (thenM (future_error E h (FwdReject f)) (retM ()))"
    using h(2) f' su ext_futs [of s u f]
    by (auto simp: future_error_def stable_def intro!: keeps_then keeps_attach)
  moreover have "thenM (future_error E h (FwdReject f)) (retM ()) u = (q, t)"
    using run(1) u h(1) by (simp add: forward_def future_then_def bindM_def)
  ultimately have "stable R u t"
    using keeps_stable_D [of R u] su run(2) by (auto simp: stable_def)
  with su show "stable R s t" by (rule stable_trans)
qed

lemma bind_stable:
  assumes run: "bindM m k s = (q, t)" "ok q"
    and m: "\<And>q t. m s = (q, t) \<Longrightarrow> ok q \<Longrightarrow> stable R s t"
    and k: "\<And>x u. m s = (Inr x, u) \<Longrightarrow> stable R s u \<Longrightarrow> keeps_stable R s (k x)"
  shows "stable R s t"
proof -
  obtain q' u where u: "m s = (q', u)" by (cases "m s")
  show ?thesis
  proof (cases q')
    case (Inl e)
    with run u have "q' = Inl e" "t = u" "ok q'" by (auto simp: bindM_def)
    with m [OF u] show ?thesis by simp
  next
    case (Inr x)
    have su: "stable R s u" using m [OF u] Inr by simp
    from keepsD [OF k [OF u [unfolded Inr] su] su, of q t] run u Inr show ?thesis
      by (simp add: bindM_def)
  qed
qed

lemma catch_stable:
  assumes run: "catchFuture m h s = (q, t)" "ok q"
    and m: "\<And>q t. m s = (q, t) \<Longrightarrow> ok q \<Longrightarrow> stable R s t"
    and h: "\<And>e. keeps_stable R s (h e)"
  shows "stable R s t"
proof -
  obtain q' u where u: "m s = (q', u)" by (cases "m s")
  show ?thesis
  proof (cases "\<exists>e. q' = Inl (FutureExn e)")
    case True
    then obtain e where e: "q' = Inl (FutureExn e)" by blast
    with m [OF u] have "stable R s u" by simp
    from keepsD [OF h [of e] this, of q t] run u e show ?thesis
      by (simp add: catchFuture_def)
  next
    case False
    with run u have "q' = q" "u = t" by (auto simp: catchFuture_def split: sum.splits exn.splits)
    with m [OF u] run(2) show ?thesis by simp
  qed
qed

lemma inv_action:
  assumes "inv R s" "a < length (acts s)"
  shows "a_future (acts s ! a) < length (futs s)"
    "fn_ok (length (futs s)) (length (acts s)) (a_fn (acts s ! a))"
  using assms by (auto simp: inv_def inv_ids_def)

lemma callFn_stable:
  assumes i: "inv R s" and a: "a < length (acts s)"
    and free: "\<And>f b. a_fn (acts s ! a) = Attach f b \<Longrightarrow> free s b"
    and run: "callFn E a x s = (q, t)" "ok q"
  shows "stable R s t"
proof -
  note ia = inv_action [OF i a]
  show ?thesis
  proof (rule catch_stable [OF run(1) [unfolded callFn_eq Let_def] run(2)])
    fix q t
    assume b: "bindM (call_fn E (a_fn (acts s ! a)) x) (\<lambda>r. case r of
           Return v \<Rightarrow> future_resolve E (a_future (acts s ! a)) v
         | ReturnFuture g \<Rightarrow> on_future g (forward E g (a_future (acts s ! a)))
         | Throw e \<Rightarrow> throwM e) s = (q, t)" and okq: "ok q"
    show "stable R s t"
    proof (rule bind_stable [OF b okq])
      show "stable R s t" if "call_fn E (a_fn (acts s ! a)) x s = (q, t)" "ok q" for q t
        using call_fn_stable [OF i ia(2) free that] .
      show "keeps_stable R s (case r of
           Return v \<Rightarrow> future_resolve E (a_future (acts s ! a)) v
         | ReturnFuture g \<Rightarrow> on_future g (forward E g (a_future (acts s ! a)))
         | Throw e \<Rightarrow> throwM e)" for r
        using ia(1) by (cases r)
          (auto intro!: keeps_resolve keeps_on_future keeps_forward simp: stable_def ext_futs)
    qed
  next
    show "keeps_stable R s (future_reject E (a_future (acts s ! a)) e)" for e
      by (rule keeps_reject [OF ia(1)])
  qed
qed

lemma callFn_error_stable:
  assumes i: "inv R s" and a: "a < length (acts s)"
    and run: "callFn_error E a e s = (q, t)" "ok q"
  shows "stable R s t"
proof -
  note ia = inv_action [OF i a]
  show ?thesis
  proof (rule catch_stable [OF run(1) [unfolded callFn_error_eq Let_def] run(2)])
    fix q t
    assume b: "bindM (call_error_fn E (a_fn (acts s ! a)) e)
        (future_resolve E (a_future (acts s ! a))) s = (q, t)" and okq: "ok q"
    show "stable R s t"
      by (rule bind_stable [OF b okq])
        (use call_error_fn_stable [OF i ia(2)] keeps_resolve [OF ia(1)] in blast)+
  next
    show "keeps_stable R s (future_reject E (a_future (acts s ! a)) e)" for e
      by (rule keeps_reject [OF ia(1)])
  qed
qed

lemma executeAsync_stable:
  assumes i: "inv R s" and a: "a < length (acts s)"
    and free: "\<And>f b. a_fn (acts s ! a) = Attach f b \<Longrightarrow> free s b"
    and run: "executeAsync E a s = (q, t)" "ok q"
  shows "stable R s t"
proof -
  note fin = callFn_stable [OF i a free] callFn_error_stable [OF i a]
    keeps_stable_D [OF keeps_resolve [OF inv_action(1) [OF i a]] i]
    keeps_stable_D [OF keeps_reject [OF inv_action(1) [OF i a]] i]
  show ?thesis
  proof (cases "a_resolver (acts s ! a)")
    case None
    then show ?thesis using run by (auto simp: executeAsync_def throwM_def)
  next
    case (Some r)
    then show ?thesis
      using run fin by (cases r)
        (auto simp: executeAsync_def resolveCb_def rejectCb_def split: akind.splits)
  qed
qed

end
