(* ===== verification/AsyncLoop.thy ===== *)
theory AsyncLoop
  imports AsyncKeeps
begin

text \<open>
  The event loop as a step relation: entering and leaving \<open>Loop::run\<close>, the calls a
  program makes outside the callbacks, libuv calling \<open>AsyncBase::Async\<close> for a handle that
  was sent, in any order, and \<open>AsyncBase::AsyncClosed\<close> for a handle that was closed. The
  reachable states satisfy the invariant; from it follow the promises of the component.
\<close>

section \<open>The steps\<close>

definition init_st :: "nat \<Rightarrow> 'v st" where
  "init_st th = \<lparr>futs = [], acts = [], pending = [], closing = [], loop_started = False,
     loop_thread = 0, cur_thread = th, enq_log = [], exec_log = []\<rparr>"

text \<open>\<open>Loop::run\<close>, up to \<open>uv_run\<close> and after it.\<close>

definition run_enter :: "nat \<Rightarrow> 'v st \<Rightarrow> 'v st" where
  "run_enter th s = s\<lparr>loop_started := True, loop_thread := th, cur_thread := th\<rparr>"

definition run_leave :: "'v st \<Rightarrow> 'v st" where
  "run_leave s = s\<lparr>loop_started := False\<rparr>"

inductive step :: "'v env \<Rightarrow> 'v st \<Rightarrow> 'v st \<Rightarrow> bool" for E where
  step_enter: "\<not> loop_started s \<Longrightarrow> step E s (run_enter th s)"
| step_leave: "loop_started s \<Longrightarrow> step E s (run_leave s)"
| step_thread: "step E s (s\<lparr>cur_thread := th\<rparr>)"
| step_call: "run_api E c s = (q, t) \<Longrightarrow> ok q \<Longrightarrow> step E s t"
| step_fire: "loop_started s \<Longrightarrow> cur_thread s = loop_thread s \<Longrightarrow> a \<in> set (pending s) \<Longrightarrow>
    Async E a s = (Inr (), t) \<Longrightarrow> step E s t"
| step_closed: "loop_started s \<Longrightarrow> cur_thread s = loop_thread s \<Longrightarrow> a \<in> set (closing s) \<Longrightarrow>
    AsyncClosed a s = (Inr (), t) \<Longrightarrow> step E s t"

abbreviation steps :: "'v env \<Rightarrow> 'v st \<Rightarrow> 'v st \<Rightarrow> bool" where
  "steps E \<equiv> (step E)\<^sup>*\<^sup>*"

abbreviation reachable :: "'v env \<Rightarrow> 'v st \<Rightarrow> bool" where
  "reachable E \<equiv> reached (\<lambda>s. \<exists>th. s = init_st th) (step E)"

lemma reachable_init: "reachable E (init_st th)"
  by (rule reached_start) blast

section \<open>Every step keeps the invariant\<close>

lemma inv_init: "inv [] (init_st th)"
  by (auto simp: inv_defs init_st_def enqd_def execd_def targets_def)

text \<open>The invariant reads no other part of the state, and not the order of closing handles.\<close>

lemma inv_same:
  assumes i: "inv R s" and "futs t = futs s" "acts t = acts s" "pending t = pending s"
    "enq_log t = enq_log s" "exec_log t = exec_log s"
    and c: "distinct (closing s @ R) \<longleftrightarrow> distinct (closing t @ R')"
      "set (closing s @ R) = set (closing t @ R')"
  shows "inv R' t"
proof -
  have e: "enqd t = enqd s" "execd t = execd s"
    using assms by (simp_all add: enqd_def execd_def)
  have a: "attached t = attached s" "targets t = targets s"
    using assms e by (auto simp: attached_def targets_def fun_eq_iff)
  have "inv_ids t" using assms by (simp add: inv_def inv_ids_def)
  moreover have "inv_handles R' t"
    using i c assms(3,4) unfolding inv_def inv_handles_def
    by (metis distinct_append set_append)
  moreover have "inv_logs R' t"
    using i c assms e unfolding inv_def inv_logs_def by simp
  moreover have "inv_attach t"
    using assms e a by (simp add: inv_def inv_attach_def)
  moreover have "inv_settled t"
    using assms e unfolding inv_def inv_settled_def by (simp cong: option.case_cong)
  ultimately show ?thesis by (simp add: inv_def)
qed

lemma inv_loop_fields:
  "inv R s \<Longrightarrow> inv R (s\<lparr>cur_thread := th\<rparr>)" "inv R s \<Longrightarrow> inv R (run_enter th s)"
  "inv R s \<Longrightarrow> inv R (run_leave s)"
  by (erule inv_same, simp_all add: run_enter_def run_leave_def)+

lemma log_exec_simps [simp]:
  "futs (log_exec a s) = futs s" "acts (log_exec a s) = acts s"
  "pending (log_exec a s) = remove1 a (pending s)" "closing (log_exec a s) = closing s"
  "enq_log (log_exec a s) = enq_log s" "enqd (log_exec a s) = enqd s"
  "exec_log (log_exec a s) = exec_log s @ [(a, the (a_resolver (acts s ! a)))]"
  "execd (log_exec a s) = execd s @ [a]" "attached (log_exec a s) b = attached s b"
  "loop_started (log_exec a s) = loop_started s" "loop_thread (log_exec a s) = loop_thread s"
  "cur_thread (log_exec a s) = cur_thread s"
  by (simp_all add: log_exec_def enqd_def execd_def attached_def)

lemma targets_log_exec: "targets (log_exec a s) b = targets s b - {a}"
  by (auto simp: targets_def)

lemma inv_pending:
  assumes "inv R s" "a \<in> set (pending s)"
  shows "a < length (acts s)" "active (acts s ! a)" "a \<notin> set (execd s)"
    "(a, the (a_resolver (acts s ! a))) \<in> set (enq_log s)"
proof -
  from assms show "a < length (acts s)" "a \<notin> set (execd s)"
    "(a, the (a_resolver (acts s ! a))) \<in> set (enq_log s)"
    by (auto simp: inv_def inv_logs_def)
  with assms show "active (acts s ! a)"
    unfolding inv_def inv_handles_def by (metis UnI1 set_append)
qed

lemma inv_log_exec:
  assumes i: "inv [] s" and a: "a \<in> set (pending s)"
  shows "inv [a] (log_exec a s)"
    and "a_fn (acts s ! a) = Attach f b \<Longrightarrow> free (log_exec a s) b"
proof -
  note pa = inv_pending [OF i a]
  have d: "distinct (pending s)" using i by (simp add: inv_def inv_handles_def)
  have tg: "targets (log_exec a s) b = {c}" if "c \<in> targets (log_exec a s) b" for b c
  proof -
    have "targets s b = {c}" using that i by (auto simp: targets_log_exec inv_def inv_attach_def)
    with that show ?thesis by (auto simp: targets_log_exec)
  qed
  have "inv_ids (log_exec a s)" using i by (simp add: inv_def inv_ids_def)
  moreover have "inv_handles [a] (log_exec a s)"
    using i a d by (auto simp: inv_def inv_handles_def)
  moreover have "inv_logs [a] (log_exec a s)"
    using i a d pa by (auto simp: inv_def inv_logs_def)
  moreover have "inv_attach (log_exec a s)"
    using i tg by (auto simp: inv_def inv_attach_def targets_log_exec)
  moreover have "inv_settled (log_exec a s)"
    using i by (auto simp: inv_def inv_settled_def split: option.splits)
  ultimately show "inv [a] (log_exec a s)" by (simp add: inv_def)
  show "free (log_exec a s) b" if fn: "a_fn (acts s ! a) = Attach f b"
  proof -
    have "fn_ok (length (futs s)) (length (acts s)) (a_fn (acts s ! a))"
      using inv_action(2) [OF i pa(1)] .
    then have b: "b < length (acts s)" using fn by simp
    have "a \<in> targets s b" using pa fn by (simp add: targets_def)
    then have "b \<notin> set (enqd s)" "\<not> attached s b" "targets s b = {a}"
      using i by (auto simp: inv_def inv_attach_def)
    with b show ?thesis by (simp add: free_def targets_log_exec)
  qed
qed

lemma inv_uv_close: "inv [a] s \<Longrightarrow> inv [] (uv_close a s)"
  by (erule inv_same) (auto simp: uv_close_def)

text \<open>What a turn of \<open>Async\<close> is made of.\<close>

lemma Async_turn:
  assumes i: "inv [] s" and a: "a \<in> set (pending s)" and run: "Async E a s = (q, t)" and ok: "ok q"
  obtains u where "executeAsync E a (log_exec a s) = (q, u)" and "stable [a] (log_exec a s) u"
    and "t = (if \<exists>x. q = Inr x then uv_close a u else u)"
proof -
  have act: "uv_data (acts s ! a)" using inv_pending(2) [OF i a] by (simp add: active_def)
  obtain q' u where u: "executeAsync E a (log_exec a s) = (q', u)"
    by (cases "executeAsync E a (log_exec a s)")
  have eq: "q' = q \<and> t = (if \<exists>x. q = Inr x then uv_close a u else u)"
    using run act u by (cases q') (auto simp: Async_def thenM_def bindM_def modM_def assertM_def)
  have "stable [a] (log_exec a s) u"
    using executeAsync_stable [OF inv_log_exec(1) [OF i a] _ _ u] inv_log_exec(2) [OF i a] eq ok
      inv_pending(1) [OF i a] by simp
  with u eq that show ?thesis by blast
qed

lemma inv_Async:
  assumes i: "inv [] s" and a: "a \<in> set (pending s)" and run: "Async E a s = (Inr (), t)"
  shows "inv [] t"
proof -
  from Async_turn [OF i a run] obtain u where
    "stable [a] (log_exec a s) u" "t = uv_close a u" by auto
  then show ?thesis by (simp add: stable_def inv_uv_close)
qed

definition closed_st :: "aid \<Rightarrow> 'v st \<Rightarrow> 'v st" where
  "closed_st a s = s\<lparr>closing := remove1 a (closing s),
     acts := (acts s)[a := (acts s ! a)\<lparr>uv_data := False, instanceNum := 0,
                 a_instance := False, a_resolver := None\<rparr>]\<rparr>"

lemma inv_closing:
  assumes "inv R s" "a \<in> set (closing s)"
  shows "a < length (acts s)" "active (acts s ! a)" "a \<in> set (execd s)" "a \<notin> set (pending s)"
proof -
  from assms show "a < length (acts s)" "a \<in> set (execd s)" "a \<notin> set (pending s)"
    by (auto simp: inv_def inv_logs_def inv_handles_def)
  with assms show "active (acts s ! a)"
    unfolding inv_def inv_handles_def by (metis UnI1 UnI2 set_append)
qed

text \<open>Closing a handle never fails: the action is alive, counted once, and becomes idle.\<close>

lemma AsyncClosed_eq:
  assumes i: "inv R s" and a: "a \<in> set (closing s)"
  shows "AsyncClosed a s = (Inr (), closed_st a s)"
  using inv_closing(1,2) [OF i a]
  by (auto simp: AsyncClosed_def closeAsync_def decreaseInstance_def thenM_def bindM_def modM_def
      assertM_def active_def closed_st_def upd_act_def)

lemma closed_st_simps [simp]:
  "futs (closed_st a s) = futs s" "pending (closed_st a s) = pending s"
  "closing (closed_st a s) = remove1 a (closing s)" "enq_log (closed_st a s) = enq_log s"
  "exec_log (closed_st a s) = exec_log s" "enqd (closed_st a s) = enqd s"
  "execd (closed_st a s) = execd s" "length (acts (closed_st a s)) = length (acts s)"
  "attached (closed_st a s) b = attached s b" "loop_started (closed_st a s) = loop_started s"
  "loop_thread (closed_st a s) = loop_thread s" "cur_thread (closed_st a s) = cur_thread s"
  by (simp_all add: closed_st_def enqd_def execd_def attached_def)

lemma closed_st_nth:
  "b < length (acts s) \<Longrightarrow> acts (closed_st a s) ! b =
    (if b = a then (acts s ! a)\<lparr>uv_data := False, instanceNum := 0,
                 a_instance := False, a_resolver := None\<rparr> else acts s ! b)"
  by (auto simp: closed_st_def nth_list_update)

lemma inv_closed_st:
  assumes i: "inv [] s" and a: "a \<in> set (closing s)"
  shows "inv [] (closed_st a s)"
proof -
  note ca = inv_closing [OF i a]
  have d: "distinct (closing s)" "a \<notin> set (pending s)"
    using i a by (auto simp: inv_def inv_handles_def)
  have t: "targets (closed_st a s) b = targets s b" for b
    using ca(3) by (auto simp: targets_def closed_st_nth split: if_splits)
  have "inv_ids (closed_st a s)" using i by (auto simp: inv_def inv_ids_def closed_st_nth)
  moreover have "inv_handles [] (closed_st a s)"
    using i a d unfolding inv_def inv_handles_def
    by (auto simp: closed_st_nth idle_def)
  moreover have "inv_logs [] (closed_st a s)"
    using i d inv_pending(1) [OF i] by (auto simp: inv_def inv_logs_def closed_st_nth)
  moreover have "inv_attach (closed_st a s)"
    using i by (auto simp: inv_def inv_attach_def t)
  moreover have "inv_settled (closed_st a s)"
    using i by (auto simp: inv_def inv_settled_def split: option.splits)
  ultimately show ?thesis by (simp add: inv_def)
qed

lemma inv_step: "step E s t \<Longrightarrow> inv [] s \<Longrightarrow> inv [] t"
proof (induction rule: step.induct)
  case (step_call c s q t)
  from keeps_stable_D [OF keeps_run_api step_call(3,1,2)] show ?case by (simp add: stable_def)
next
  case (step_fire s a t)
  then show ?case using inv_Async by blast
next
  case (step_closed s a t)
  then show ?case using AsyncClosed_eq [of "[]" s a] inv_closed_st by auto
qed (simp_all add: inv_loop_fields)

interpretation core: invariant "\<lambda>s. \<exists>th. s = init_st th" "step E" "inv []" for E :: "'v env"
  by unfold_locales (auto intro: inv_init inv_step)

lemma grows_closed_st: "grows s (closed_st a s)"
  by (auto simp: grows_def grows_fut_def same_act_def closed_st_nth)

lemma grows_log_exec: "grows s (log_exec a s)"
  by (auto simp: grows_def grows_fut_def same_act_def)

lemma grows_uv_close: "grows s (uv_close a s)"
  by (auto simp: grows_def grows_fut_def same_act_def uv_close_def)

lemma grows_step: "step E s t \<Longrightarrow> inv [] s \<Longrightarrow> grows s t"
proof (induction rule: step.induct)
  case (step_call c s q t)
  from keeps_stable_D [OF keeps_run_api step_call(3,1,2)] show ?case
    by (simp add: stable_def ext_def)
next
  case (step_fire s a t)
  from Async_turn [OF step_fire(5,3,4)] obtain u where
    u: "stable [a] (log_exec a s) u" "t = uv_close a u" by auto
  then have "grows (log_exec a s) u" by (simp add: stable_def ext_def)
  with u(2) show ?case
    using grows_trans [OF grows_trans [OF grows_log_exec]] grows_uv_close by blast
next
  case (step_closed s a t)
  then show ?case using AsyncClosed_eq [of "[]" s a] grows_closed_st by auto
qed (auto simp: grows_def grows_fut_def same_act_def run_enter_def run_leave_def)

lemma grows_steps: "steps E s t \<Longrightarrow> inv [] s \<Longrightarrow> grows s t"
  by (erule core.runs_extend) (auto intro: grows_step grows_trans)

end
