(* ===== verification/AsyncOwn.thy ===== *)
theory AsyncOwn
  imports AsyncLoop
begin

text \<open>
  Who may settle a future. The future an action returns to its creator is settled by the
  library alone: by the action itself, or, when its callback returned another future, by
  one of the two actions that forward the result. The invariant below says that at every
  moment exactly one of them is left to do it, so that settling it never finds it settled.
\<close>

section \<open>The invariant\<close>

definition unsettled :: "'v st \<Rightarrow> fid \<Rightarrow> bool" where
  "unsettled s f \<longleftrightarrow> f_resolver (futs s ! f) = None"

definition res_act :: "'v st \<Rightarrow> fid \<Rightarrow> aid \<Rightarrow> bool" where
  "res_act s f c \<longleftrightarrow> c < length (acts s) \<and> a_fn (acts s ! c) = FwdResolve f"

definition rej_act :: "'v st \<Rightarrow> fid \<Rightarrow> aid \<Rightarrow> bool" where
  "rej_act s f d \<longleftrightarrow> d < length (acts s) \<and> a_fn (acts s ! d) = FwdReject f"

text \<open>A future returned for a callback of the program.\<close>

definition user_future :: "'v st \<Rightarrow> fid \<Rightarrow> bool" where
  "user_future s f \<longleftrightarrow>
     (\<exists>a < length (acts s). a_future (acts s ! a) = f \<and> (\<exists>n. a_fn (acts s ! a) = UserFn n))"

definition own_futures :: "'v st \<Rightarrow> bool" where
  "own_futures s \<longleftrightarrow>
     (\<forall>a < length (acts s). \<not> f_promise (futs s ! a_future (acts s ! a))) \<and>
     (\<forall>a < length (acts s). \<forall>b < length (acts s).
        a_future (acts s ! a) = a_future (acts s ! b) \<longrightarrow> a = b) \<and>
     (\<forall>a < length (acts s). a \<notin> set (execd s) \<longrightarrow> unsettled s (a_future (acts s ! a)) \<and>
        (\<forall>c. \<not> res_act s (a_future (acts s ! a)) c \<and> \<not> rej_act s (a_future (acts s ! a)) c))"

definition own_res :: "'v st \<Rightarrow> bool" where
  "own_res s \<longleftrightarrow>
     (\<forall>f c. res_act s f c \<longrightarrow> \<not> f_promise (futs s ! f) \<and> a_kind (acts s ! c) = KThen \<and>
        user_future s f \<and>
        (\<forall>c'. res_act s f c' \<longrightarrow> c' = c) \<and>
        (c \<notin> set (execd s) \<longrightarrow> unsettled s f \<and>
          (\<forall>d. rej_act s f d \<longrightarrow> d \<in> set (f_actions (futs s ! a_future (acts s ! c))))))"

definition own_rej :: "'v st \<Rightarrow> bool" where
  "own_rej s \<longleftrightarrow>
     (\<forall>f d. rej_act s f d \<longrightarrow> \<not> f_promise (futs s ! f) \<and> a_kind (acts s ! d) = KError \<and>
        (\<forall>d'. rej_act s f d' \<longrightarrow> d' = d) \<and>
        (\<exists>c. res_act s f c \<and> d \<in> set (f_actions (futs s ! a_future (acts s ! c)))) \<and>
        (\<forall>e. (d, RError e) \<in> set (enq_log s) \<longrightarrow> d \<notin> set (execd s) \<longrightarrow> unsettled s f))"

definition own_attach :: "'v st \<Rightarrow> bool" where
  "own_attach s \<longleftrightarrow>
     (\<forall>a < length (acts s). \<forall>f b. a_fn (acts s ! a) = Attach f b \<longrightarrow>
        a_kind (acts s ! a) = KThen \<and> (\<exists>n. a_fn (acts s ! b) = UserFn n))"

definition own :: "'v st \<Rightarrow> bool" where
  "own s \<longleftrightarrow> own_futures s \<and> own_res s \<and> own_rej s \<and> own_attach s"

text \<open>A future whose action is running: nothing else is left that would settle it.\<close>

definition reserved :: "fid \<Rightarrow> 'v st \<Rightarrow> bool" where
  "reserved f s \<longleftrightarrow>
     f < length (futs s) \<and> \<not> f_promise (futs s ! f) \<and> unsettled s f \<and>
     (\<forall>a < length (acts s). a_future (acts s ! a) = f \<longrightarrow> a \<in> set (execd s)) \<and>
     (\<forall>c. \<not> res_act s f c \<and> \<not> rej_act s f c)"

lemmas own_defs = own_def own_futures_def own_res_def own_rej_def own_attach_def

lemma own_futD:
  assumes "own s" "a < length (acts s)"
  shows "\<not> f_promise (futs s ! a_future (acts s ! a))"
    "b < length (acts s) \<Longrightarrow> a_future (acts s ! a) = a_future (acts s ! b) \<Longrightarrow> a = b"
    "a \<notin> set (execd s) \<Longrightarrow> unsettled s (a_future (acts s ! a))"
    "a \<notin> set (execd s) \<Longrightarrow> \<not> res_act s (a_future (acts s ! a)) c"
    "a \<notin> set (execd s) \<Longrightarrow> \<not> rej_act s (a_future (acts s ! a)) c"
  using assms by (auto simp: own_def own_futures_def)

lemma own_resD:
  assumes "own s" "res_act s f c"
  shows "\<not> f_promise (futs s ! f)" "a_kind (acts s ! c) = KThen"
    "res_act s f c' \<Longrightarrow> c' = c"
    "c \<notin> set (execd s) \<Longrightarrow> unsettled s f"
    "c \<notin> set (execd s) \<Longrightarrow> rej_act s f d \<Longrightarrow>
       d \<in> set (f_actions (futs s ! a_future (acts s ! c)))"
    "user_future s f"
  using assms unfolding own_def own_res_def by blast+

lemma own_rejD:
  assumes "own s" "rej_act s f d"
  shows "\<not> f_promise (futs s ! f)" "a_kind (acts s ! d) = KError"
    "rej_act s f d' \<Longrightarrow> d' = d"
    "\<exists>c. res_act s f c \<and> d \<in> set (f_actions (futs s ! a_future (acts s ! c)))"
    "(d, RError e) \<in> set (enq_log s) \<Longrightarrow> d \<notin> set (execd s) \<Longrightarrow> unsettled s f"
  using assms unfolding own_def own_rej_def by blast+

text \<open>The invariant reads what an action is, not the state of its handle.\<close>

definition same_shape :: "'v st \<Rightarrow> 'v st \<Rightarrow> bool" where
  "same_shape s t \<longleftrightarrow> length (acts t) = length (acts s) \<and>
     (\<forall>a < length (acts s). same_act (acts s ! a) (acts t ! a))"

lemma same_shape_acts:
  assumes "same_shape s t"
  shows "length (acts t) = length (acts s)" "res_act t = res_act s" "rej_act t = rej_act s"
    "a < length (acts s) \<Longrightarrow> a_future (acts t ! a) = a_future (acts s ! a)"
    "a < length (acts s) \<Longrightarrow> a_fn (acts t ! a) = a_fn (acts s ! a)"
    "a < length (acts s) \<Longrightarrow> a_kind (acts t ! a) = a_kind (acts s ! a)"
    "user_future t = user_future s"
  using assms
  by (auto simp: same_shape_def same_act_def res_act_def rej_act_def user_future_def fun_eq_iff)

lemma res_act_range: "res_act s f c \<Longrightarrow> c < length (acts s)"
  by (simp add: res_act_def)

lemma rej_act_range: "rej_act s f c \<Longrightarrow> c < length (acts s)"
  by (simp add: rej_act_def)

lemma own_same_shape:
  assumes o: "own s" and sh: "same_shape s t" and futs: "futs t = futs s"
    and ex: "set (execd s) \<subseteq> set (execd t)"
    and enq: "\<And>d e f. rej_act s f d \<Longrightarrow> (d, RError e) \<in> set (enq_log t) \<Longrightarrow>
      (d, RError e) \<in> set (enq_log s)"
    and ids: "inv_ids s"
  shows "own t"
proof -
  note sa = same_shape_acts [OF sh]
  have u: "unsettled t = unsettled s" by (simp add: unsettled_def futs fun_eq_iff)
  have "own_futures t"
    using o ex sa by (auto simp: own_def own_futures_def futs u)
  moreover have "own_res t"
    using o ex sa unfolding own_def own_res_def futs u sa(2,3,7)
    by (metis res_act_range subsetD)
  moreover have "own_rej t"
    unfolding own_rej_def sa(2,3) futs u
  proof (intro allI impI)
    fix f d assume d: "rej_act s f d"
    then have r: "d < length (acts s)" by (simp add: rej_act_def)
    from own_rejD(4) [OF o d] have
      "\<exists>c. res_act s f c \<and> d \<in> set (f_actions (futs s ! a_future (acts t ! c)))"
      using sa(4) res_act_range by metis
    then show "\<not> f_promise (futs s ! f) \<and> a_kind (acts t ! d) = KError \<and>
        (\<forall>d'. rej_act s f d' \<longrightarrow> d' = d) \<and>
        (\<exists>c. res_act s f c \<and> d \<in> set (f_actions (futs s ! a_future (acts t ! c)))) \<and>
        (\<forall>e. (d, RError e) \<in> set (enq_log t) \<longrightarrow> d \<notin> set (execd t) \<longrightarrow> unsettled s f)"
      using own_rejD(1,2,3,5) [OF o d] enq [OF d] ex sa(6) [OF r] by auto
  qed
  moreover have "own_attach t"
    unfolding own_attach_def
  proof (intro allI impI)
    fix a f b assume a: "a < length (acts t)" and fn: "a_fn (acts t ! a) = Attach f b"
    then have r: "a < length (acts s)" and fn': "a_fn (acts s ! a) = Attach f b"
      using sa by auto
    have "b < length (acts s)" using ids r fn' by (force simp: inv_ids_def)
    then show "a_kind (acts t ! a) = KThen \<and> (\<exists>n. a_fn (acts t ! b) = UserFn n)"
      using o r fn' sa(5,6) unfolding own_def own_attach_def by metis
  qed
  ultimately show ?thesis by (simp add: own_def)
qed

lemma reserved_same_shape:
  assumes "reserved f s" "same_shape s t" "futs t = futs s" "set (execd s) \<subseteq> set (execd t)"
  shows "reserved f t"
  using assms same_shape_acts [OF assms(2)]
  by (auto simp: reserved_def unsettled_def)

lemma same_shape_enq_all:
  "set as \<subseteq> {..< length (acts s)} \<Longrightarrow> distinct as \<Longrightarrow> same_shape s (enq_all r as s)"
  by (auto simp: same_shape_def same_act_def enq_all_acts)

lemma own_enq:
  assumes "own s" "inv_ids s" "a < length (acts s)" "\<And>f. \<not> rej_act s f a"
  shows "own (enq_all r [a] s)"
  using assms by (intro own_same_shape [OF assms(1) same_shape_enq_all]) auto

lemma own_log_exec: "own s \<Longrightarrow> inv_ids s \<Longrightarrow> own (log_exec a s)"
  by (rule own_same_shape [where s = s]) (auto simp: same_shape_def same_act_def)

lemma own_closed_st: "own s \<Longrightarrow> inv_ids s \<Longrightarrow> own (closed_st a s)"
  by (rule own_same_shape [where s = s]) (auto simp: same_shape_def same_act_def closed_st_nth)

lemma own_same:
  assumes "own s" "inv_ids s" "futs t = futs s" "acts t = acts s" "enq_log t = enq_log s"
    "exec_log t = exec_log s"
  shows "own t"
  using assms by (intro own_same_shape [where s = s and t = t])
    (auto simp: same_shape_def same_act_def execd_def)

section \<open>Settling\<close>

lemma settle_simps [simp]:
  "length (futs (settle f r s)) = length (futs s)"
  "length (acts (settle f r s)) = length (acts s)" "exec_log (settle f r s) = exec_log s"
  "execd (settle f r s) = execd s"
  "enq_log (settle f r s) = enq_log s @ map (\<lambda>a. (a, r)) (f_actions (futs s ! f))"
  by (simp_all add: settle_def set_resolver_def)

lemma settle_fut:
  "h < length (futs s) \<Longrightarrow>
     futs (settle f r s) ! h = (if h = f then (futs s ! f)\<lparr>f_resolver := Some r\<rparr> else futs s ! h)"
  by (simp add: settle_def set_resolver_def upd_fut_nth)

lemma settle_shape:
  assumes "inv R s" "f < length (futs s)" "f_resolver (futs s ! f) = None"
  shows "same_shape s (settle f r s)"
  unfolding same_shape_def using ext_act [OF ext_settle [OF assms]] by simp

lemma own_fut_range:
  assumes "inv R s"
  shows "res_act s f c \<Longrightarrow> f < length (futs s)" "rej_act s f c \<Longrightarrow> f < length (futs s)"
  using inv_action(2) [OF assms, of c] by (auto simp: res_act_def rej_act_def)

lemma own_settle:
  assumes i: "inv R s" and o: "own s" and f: "f < length (futs s)" and u: "unsettled s f"
    and own_done: "\<And>a. a < length (acts s) \<Longrightarrow> a_future (acts s ! a) = f \<Longrightarrow> a \<in> set (execd s)"
    and res_done: "\<And>c. res_act s f c \<Longrightarrow> c \<in> set (execd s)"
    and rej_done: "\<And>d e. rej_act s f d \<Longrightarrow> (d, RError e) \<in> set (enq_log s) \<Longrightarrow> d \<in> set (execd s)"
    and err: "\<And>d e g. r = RError e \<Longrightarrow> d \<in> set (f_actions (futs s ! f)) \<Longrightarrow> rej_act s g d \<Longrightarrow>
      unsettled s g \<and> g \<noteq> f"
  shows "own (settle f r s)"
proof -
  let ?t = "settle f r s"
  have sh: "same_shape s ?t" using settle_shape i f u by (simp add: unsettled_def)
  note sa = same_shape_acts [OF sh]
  have un: "unsettled ?t h = (unsettled s h \<and> h \<noteq> f)" if "h < length (futs s)" for h
    using that by (simp add: unsettled_def settle_fut)
  have fp: "f_promise (futs ?t ! h) = f_promise (futs s ! h)"
    and fa: "f_actions (futs ?t ! h) = f_actions (futs s ! h)" if "h < length (futs s)" for h
    using that by (simp_all add: settle_fut)
  have "own_futures ?t"
    unfolding own_futures_def sa(2,3) settle_simps
  proof (intro conjI allI impI)
    fix a assume a: "a < length (acts s)"
    note ia = inv_action(1) [OF i a]
    show "\<not> f_promise (futs ?t ! a_future (acts ?t ! a))"
      using own_futD(1) [OF o a] fp [OF ia] sa(4) [OF a] by simp
    show "a = b" if "b < length (acts s)" "a_future (acts ?t ! a) = a_future (acts ?t ! b)" for b
      using own_futD(2) [OF o a that(1)] that(2) sa(4) a that(1) by simp
    show "unsettled ?t (a_future (acts ?t ! a))" if "a \<notin> set (execd s)"
      using own_futD(3) [OF o a that] un [OF ia] own_done [OF a] that sa(4) [OF a] by auto
    show "\<not> res_act s (a_future (acts ?t ! a)) c" "\<not> rej_act s (a_future (acts ?t ! a)) c"
      if "a \<notin> set (execd s)" for c
      using own_futD(4,5) [OF o a that] sa(4) [OF a] by simp_all
  qed
  moreover have "own_res ?t"
    unfolding own_res_def sa(2,3,7) settle_simps
  proof (intro conjI allI impI)
    fix g c assume c: "res_act s g c"
    show "user_future s g" using own_resD(6) [OF o c] .
    note g = own_fut_range(1) [OF i c] and rc = res_act_range [OF c]
    show "\<not> f_promise (futs ?t ! g)" "a_kind (acts ?t ! c) = KThen"
      using own_resD(1,2) [OF o c] fp [OF g] sa(6) [OF rc] by simp_all
    show "c' = c" if "res_act s g c'" for c' using own_resD(3) [OF o c that] .
    show "unsettled ?t g" if "c \<notin> set (execd s)"
      using own_resD(4) [OF o c that] un [OF g] res_done c that by blast
    show "d \<in> set (f_actions (futs ?t ! a_future (acts ?t ! c)))"
      if "c \<notin> set (execd s)" "rej_act s g d" for d
      using own_resD(5) [OF o c that] fa [OF inv_action(1) [OF i rc]] sa(4) [OF rc] by simp
  qed
  moreover have "own_rej ?t"
    unfolding own_rej_def sa(2,3) settle_simps
  proof (intro conjI allI impI)
    fix g d assume d: "rej_act s g d"
    note g = own_fut_range(2) [OF i d] and rd = rej_act_range [OF d]
    show "\<not> f_promise (futs ?t ! g)" "a_kind (acts ?t ! d) = KError"
      using own_rejD(1,2) [OF o d] fp [OF g] sa(6) [OF rd] by simp_all
    show "d' = d" if "rej_act s g d'" for d' using own_rejD(3) [OF o d that] .
    obtain c where c: "res_act s g c" "d \<in> set (f_actions (futs s ! a_future (acts s ! c)))"
      using own_rejD(4) [OF o d] by blast
    note rc = res_act_range [OF c(1)]
    show "\<exists>c. res_act s g c \<and> d \<in> set (f_actions (futs ?t ! a_future (acts ?t ! c)))"
      using c fa [OF inv_action(1) [OF i rc]] sa(4) [OF rc] by auto
    show "unsettled ?t g"
      if e: "(d, RError e) \<in> set (enq_log s @ map (\<lambda>a. (a, r)) (f_actions (futs s ! f)))"
        and nd: "d \<notin> set (execd s)" for e
    proof (cases "(d, RError e) \<in> set (enq_log s)")
      case True
      then show ?thesis
        using own_rejD(5) [OF o d True nd] rej_done [OF _ True] d nd un [OF g] by blast
    next
      case False
      with e have "r = RError e" "d \<in> set (f_actions (futs s ! f))" by auto
      from err [OF this d] un [OF g] show ?thesis by simp
    qed
  qed
  moreover have "own_attach ?t"
    unfolding own_attach_def settle_simps
  proof (intro allI impI)
    fix a h b assume a: "a < length (acts s)" and fn: "a_fn (acts ?t ! a) = Attach h b"
    then have fn': "a_fn (acts s ! a) = Attach h b" using sa(5) by simp
    have "b < length (acts s)" using inv_action(2) [OF i a] fn' by simp
    then show "a_kind (acts ?t ! a) = KThen \<and> (\<exists>n. a_fn (acts ?t ! b) = UserFn n)"
      using o a fn' sa(5,6) unfolding own_def own_attach_def by metis
  qed
  ultimately show ?thesis by (simp add: own_def)
qed

text \<open>An action that forwards an error sits on the future of the action that forwards the value.\<close>

lemma rej_attached:
  assumes i: "inv R s" and o: "own s" and d: "rej_act s g d"
    and f: "f < length (futs s)" "d \<in> set (f_actions (futs s ! f))"
  obtains c where "res_act s g c" "a_future (acts s ! c) = f"
proof -
  from own_rejD(4) [OF o d] obtain c where
    c: "res_act s g c" "d \<in> set (f_actions (futs s ! a_future (acts s ! c)))" by blast
  have "a_future (acts s ! c) < length (futs s)"
    using inv_action(1) [OF i res_act_range [OF c(1)]] .
  then have "a_future (acts s ! c) = f"
    using i c(2) f unfolding inv_def inv_attach_def by blast
  with c that show ?thesis by blast
qed

lemma own_settle_promise:
  assumes i: "inv R s" and o: "own s" and p: "p < length (futs s)" "f_promise (futs s ! p)"
    and u: "unsettled s p"
  shows "own (settle p r s)"
proof (rule own_settle [OF i o p(1) u])
  show "a \<in> set (execd s)" if "a < length (acts s)" "a_future (acts s ! a) = p" for a
    using own_futD(1) [OF o that(1)] that(2) p(2) by simp
  show "c \<in> set (execd s)" if "res_act s p c" for c using own_resD(1) [OF o that] p(2) by simp
  show "d \<in> set (execd s)" if "rej_act s p d" for d using own_rejD(1) [OF o that] p(2) by simp
  show "unsettled s g \<and> g \<noteq> p"
    if at: "d \<in> set (f_actions (futs s ! p))" and rj: "rej_act s g d" for d g
  proof -
    obtain c where "res_act s g c" "a_future (acts s ! c) = p"
      using rej_attached [OF i o rj p(1) at] .
    then have False using own_futD(1) [OF o res_act_range, of g c] p(2) by simp
    then show ?thesis ..
  qed
qed

lemma reserved_settle:
  assumes "inv R s" "reserved f s" "p < length (futs s)" "p \<noteq> f" "unsettled s p"
  shows "reserved f (settle p r s)"
proof -
  have sh: "same_shape s (settle p r s)"
    using assms settle_shape by (simp add: unsettled_def)
  note sa = same_shape_acts [OF sh]
  show ?thesis
    using assms(2,4) sa by (auto simp: reserved_def unsettled_def settle_fut)
qed

section \<open>New objects\<close>

lemma add_future_old:
  "h < length (futs s) \<Longrightarrow> futs (add_future p s) ! h = futs s ! h"
  by (simp add: add_future_nth)

lemma own_add_future:
  assumes i: "inv R s" and o: "own s"
  shows "own (add_future p s)"
proof -
  let ?t = "add_future p s"
  have rr: "res_act ?t = res_act s" "rej_act ?t = rej_act s" "user_future ?t = user_future s"
    by (auto simp: res_act_def rej_act_def user_future_def fun_eq_iff)
  note old = add_future_old [where s = s and p = p] inv_action(1) [OF i]
  have u: "h < length (futs s) \<Longrightarrow> unsettled ?t h = unsettled s h" for h
    by (simp add: unsettled_def old(1))
  have "own_futures ?t"
    using own_futD [OF o] old u by (auto simp: own_futures_def rr)
  moreover have "own_res ?t"
    unfolding own_res_def rr add_future_simps
    using own_resD [OF o] own_fut_range(1) [OF i] old u res_act_range by metis
  moreover have "own_rej ?t"
    unfolding own_rej_def rr add_future_simps
    using own_rejD [OF o] own_fut_range(2) [OF i] old u res_act_range by metis
  moreover have "own_attach ?t" using o by (simp add: own_def own_attach_def)
  ultimately show ?thesis by (simp add: own_def)
qed

text \<open>\<open>fresh s f\<close>: \<open>f\<close> is the future just made for the next action.\<close>

definition fresh :: "'v st \<Rightarrow> fid \<Rightarrow> bool" where
  "fresh s f \<longleftrightarrow> f < length (futs s) \<and> \<not> f_promise (futs s ! f) \<and> unsettled s f \<and>
     (\<forall>a < length (acts s). a_future (acts s ! a) \<noteq> f) \<and>
     (\<forall>c. \<not> res_act s f c \<and> \<not> rej_act s f c)"

lemma fresh_add_future:
  assumes "inv R s"
  shows "fresh (add_future False s) (length (futs s))"
proof -
  have "a_future (acts s ! a) \<noteq> length (futs s)" if "a < length (acts s)" for a
    using inv_action(1) [OF assms that] by simp
  then show ?thesis
    using own_fut_range [OF assms, of "length (futs s)"]
    by (auto simp: fresh_def unsettled_def add_future_nth res_act_def rej_act_def)
qed

lemma add_action_old: "a < length (acts s) \<Longrightarrow> acts (add_action k fn f s) ! a = acts s ! a"
  by (simp add: add_action_nth)

lemma add_action_new:
  "acts (add_action k fn f s) ! length (acts s) =
     \<lparr>a_kind = k, a_fn = fn, a_future = f, a_resolver = None, uv_data = False,
      a_instance = False, instanceNum = 0\<rparr>"
  by (simp add: add_action_nth)

lemma fwd_add_action:
  "res_act (add_action k fn f s) g c \<longleftrightarrow> res_act s g c \<or> c = length (acts s) \<and> fn = FwdResolve g"
  "rej_act (add_action k fn f s) g c \<longleftrightarrow> rej_act s g c \<or> c = length (acts s) \<and> fn = FwdReject g"
  by (auto simp: res_act_def rej_act_def add_action_nth less_Suc_eq)

lemma user_future_add: "user_future s g \<Longrightarrow> user_future (add_action k fn f s) g"
  unfolding user_future_def using add_action_old by (metis add_action_simps(11) less_SucI)

lemma own_add_action:
  assumes i: "inv R s" and o: "own s" and f: "fresh s f"
    and fn: "(\<exists>n. fn = UserFn n) \<or> (\<exists>h b n. fn = Attach h b \<and> k = KThen \<and> b < length (acts s) \<and>
        a_fn (acts s ! b) = UserFn n) \<or> (\<exists>g. fn = FwdResolve g \<and> k = KThen \<and> reserved g s \<and> user_future s g \<and> g \<noteq> f)"
  shows "own (add_action k fn f s)"
proof -
  let ?t = "add_action k fn f s" and ?n = "length (acts s)"
  have nrej: "fn \<noteq> FwdReject g" for g using fn by auto
  have rej: "rej_act ?t = rej_act s" using nrej by (auto simp: fwd_add_action fun_eq_iff)
  have u: "unsettled ?t = unsettled s" by (simp add: unsettled_def fun_eq_iff)
  have n: "?n \<notin> set (execd s)"
    using inv_execd_enqd [OF i] inv_enqd_range [OF i] by blast
  have resv: "fn = FwdResolve g \<Longrightarrow> reserved g s \<and> k = KThen \<and> g \<noteq> f \<and> user_future s g" for g using fn by auto
  have "own_futures ?t"
    unfolding own_futures_def rej u
  proof (intro conjI allI impI)
    fix a assume "a < length (acts ?t)"
    then consider (old) "a < ?n" | (new) "a = ?n" by fastforce
    note cs = this
    show "\<not> f_promise (futs ?t ! a_future (acts ?t ! a))"
      using cs f own_futD(1) [OF o] by cases (auto simp: add_action_old add_action_new fresh_def)
    show "a = b" if b: "b < length (acts ?t)"
      and e: "a_future (acts ?t ! a) = a_future (acts ?t ! b)" for b
      using cs b e f own_futD(2) [OF o, of a b]
      by cases (auto simp: add_action_old add_action_new fresh_def less_Suc_eq)
    assume nx: "a \<notin> set (execd ?t)"
    show "unsettled s (a_future (acts ?t ! a))"
      using cs nx f own_futD(3) [OF o] by cases (auto simp: add_action_old add_action_new fresh_def)
    show "\<not> rej_act s (a_future (acts ?t ! a)) c" for c
      using cs nx f own_futD(5) [OF o] by cases (auto simp: add_action_old add_action_new fresh_def)
    show "\<not> res_act ?t (a_future (acts ?t ! a)) c" for c
      using cs
    proof cases
      case old
      then show ?thesis
        using nx own_futD(4) [OF o old] resv [of "a_future (acts s ! a)"]
        by (auto simp: fwd_add_action add_action_old reserved_def)
    next
      case new
      then show ?thesis
        using f resv by (auto simp: fwd_add_action add_action_new fresh_def)
    qed
  qed
  moreover have "own_res ?t"
    unfolding own_res_def rej u
  proof (intro conjI allI impI)
    fix g c assume c: "res_act ?t g c"
    then consider (old) "res_act s g c" | (new) "c = ?n" "fn = FwdResolve g"
      by (auto simp: fwd_add_action)
    note cs = this
    have "user_future s g"
      using cs own_resD(6) [OF o] resv by cases auto
    then show "user_future ?t g" by (rule user_future_add)
    show "\<not> f_promise (futs ?t ! g)"
      using cs own_resD(1) [OF o] resv by cases (auto simp: reserved_def)
    show "a_kind (acts ?t ! c) = KThen"
      using cs own_resD(2) [OF o] resv res_act_range [of s g c]
      by cases (auto simp: add_action_old add_action_new)
    show "c' = c" if "res_act ?t g c'" for c'
      using cs that own_resD(3) [OF o, of g c c'] resv
      by cases (auto simp: fwd_add_action reserved_def)
    assume nx: "c \<notin> set (execd ?t)"
    show "unsettled s g"
      using cs nx own_resD(4) [OF o] resv by cases (auto simp: reserved_def)
    show "d \<in> set (f_actions (futs ?t ! a_future (acts ?t ! c)))" if d: "rej_act s g d" for d
      using cs nx d own_resD(5) [OF o] resv res_act_range [of s g c]
      by cases (auto simp: add_action_old reserved_def)
  qed
  moreover have "own_rej ?t"
    unfolding own_rej_def rej u
  proof (intro conjI allI impI)
    fix g d assume d: "rej_act s g d"
    show "\<not> f_promise (futs ?t ! g)" using own_rejD(1) [OF o d] by simp
    show "a_kind (acts ?t ! d) = KError"
      using own_rejD(2) [OF o d] rej_act_range [OF d] by (simp add: add_action_old)
    show "d' = d" if "rej_act s g d'" for d' using own_rejD(3) [OF o d that] .
    obtain c where c: "res_act s g c" "d \<in> set (f_actions (futs s ! a_future (acts s ! c)))"
      using own_rejD(4) [OF o d] by blast
    then show "\<exists>c. res_act ?t g c \<and> d \<in> set (f_actions (futs ?t ! a_future (acts ?t ! c)))"
      using res_act_range [OF c(1)]
      by (intro exI [of _ c]) (simp add: fwd_add_action add_action_old)
    show "unsettled s g" if "(d, RError e) \<in> set (enq_log ?t)" "d \<notin> set (execd ?t)" for e
      using own_rejD(5) [OF o d] that by simp
  qed
  moreover have "own_attach ?t"
    unfolding own_attach_def
  proof (intro allI impI)
    fix a h b assume a: "a < length (acts ?t)" and at: "a_fn (acts ?t ! a) = Attach h b"
    from a consider (old) "a < ?n" | (new) "a = ?n" by fastforce
    then show "a_kind (acts ?t ! a) = KThen \<and> (\<exists>n. a_fn (acts ?t ! b) = UserFn n)"
    proof cases
      case old
      then have at': "a_fn (acts s ! a) = Attach h b" using at by (simp add: add_action_old)
      then have "b < ?n" using inv_action(2) [OF i old] by simp
      then show ?thesis
        using o old at' by (auto simp: own_def own_attach_def add_action_old)
    next
      case new
      then show ?thesis using at fn by (auto simp: add_action_new add_action_old)
    qed
  qed
  ultimately show ?thesis by (simp add: own_def)
qed

lemma reserved_add:
  assumes i: "inv R s" and f: "reserved f s"
  shows "reserved f (add_future p s)"
    and "h \<noteq> f \<Longrightarrow> fn \<noteq> FwdResolve f \<Longrightarrow> fn \<noteq> FwdReject f \<Longrightarrow>
           reserved f (add_action k fn h s)"
proof -
  show "reserved f (add_future p s)"
    using f by (auto simp: reserved_def unsettled_def add_future_nth res_act_def rej_act_def)
  show "reserved f (add_action k fn h s)"
    if "h \<noteq> f" "fn \<noteq> FwdResolve f" "fn \<noteq> FwdReject f"
    using f that
    by (auto simp: reserved_def unsettled_def add_action_nth less_Suc_eq fwd_add_action)
qed

lemma same_shape_attach: "same_shape s (attach_to f a s)"
  by (simp add: same_shape_def same_act_def attach_to_def)

lemma attach_to_simps [simp]:
  "acts (attach_to f a s) = acts s" "execd (attach_to f a s) = execd s"
  "enqd (attach_to f a s) = enqd s" "length (futs (attach_to f a s)) = length (futs s)"
  "enq_log (attach_to f a s) = enq_log s" "exec_log (attach_to f a s) = exec_log s"
  "res_act (attach_to f a s) = res_act s" "rej_act (attach_to f a s) = rej_act s"
  "user_future (attach_to f a s) = user_future s"
  by (simp_all add: attach_to_def res_act_def rej_act_def user_future_def fun_eq_iff)

lemma attach_to_nth:
  "h < length (futs s) \<Longrightarrow> futs (attach_to f a s) ! h =
     (if h = f then (futs s ! f)\<lparr>f_actions := f_actions (futs s ! f) @ [a]\<rparr> else futs s ! h)"
  by (simp add: attach_to_def upd_fut_nth)

lemma own_attach_to:
  assumes i: "inv R s" and o: "own s"
  shows "own (attach_to f a s)"
proof -
  let ?t = "attach_to f a s"
  have fu: "f_promise (futs ?t ! h) = f_promise (futs s ! h)" "unsettled ?t h = unsettled s h"
    "set (f_actions (futs s ! h)) \<subseteq> set (f_actions (futs ?t ! h))" if "h < length (futs s)" for h
    using that by (auto simp: attach_to_nth unsettled_def)
  note same = attach_to_simps and ia = inv_action(1) [OF i]
  have "own_futures ?t"
    using own_futD [OF o] fu ia by (auto simp: own_futures_def same)
  moreover have "own_res ?t"
    unfolding own_res_def same
  proof (intro conjI allI impI)
    fix g c assume c: "res_act s g c"
    note g = own_fut_range(1) [OF i c]
    show "user_future s g" using own_resD(6) [OF o c] .
    show "\<not> f_promise (futs ?t ! g)" using own_resD(1) [OF o c] g fu by simp
    show "a_kind (acts s ! c) = KThen" using own_resD(2) [OF o c] .
    show "c' = c" if "res_act s g c'" for c' using own_resD(3) [OF o c that] .
    show "unsettled ?t g" if "c \<notin> set (execd s)"
      using own_resD(4) [OF o c that] g fu by simp
    show "d \<in> set (f_actions (futs ?t ! a_future (acts s ! c)))"
      if "c \<notin> set (execd s)" "rej_act s g d" for d
      using own_resD(5) [OF o c that] fu(3) [OF ia [OF res_act_range [OF c]]] by blast
  qed
  moreover have "own_rej ?t"
    unfolding own_rej_def same
  proof (intro conjI allI impI)
    fix g d assume d: "rej_act s g d"
    show "\<not> f_promise (futs ?t ! g)" using own_rejD(1) [OF o d] own_fut_range(2) [OF i d] fu by simp
    show "a_kind (acts s ! d) = KError" using own_rejD(2) [OF o d] .
    show "d' = d" if "rej_act s g d'" for d' using own_rejD(3) [OF o d that] .
    show "\<exists>c. res_act s g c \<and> d \<in> set (f_actions (futs ?t ! a_future (acts s ! c)))"
      using own_rejD(4) [OF o d] fu(3) ia res_act_range by blast
    show "unsettled ?t g" if "(d, RError e) \<in> set (enq_log s)" "d \<notin> set (execd s)" for e
      using own_rejD(5) [OF o d that] own_fut_range(2) [OF i d] fu by simp
  qed
  moreover have "own_attach ?t" using o by (simp add: own_def own_attach_def same)
  ultimately show ?thesis by (simp add: own_def)
qed

lemma reserved_attach_to: "reserved h s \<Longrightarrow> reserved h (attach_to f a s)"
proof -
  assume h: "reserved h s"
  show ?thesis
    using h by (auto simp: reserved_def unsettled_def attach_to_nth)
qed

lemma enq_attach_shape: "free s a \<Longrightarrow> same_shape s (enq_all r [a] (attach_to f a s))"
  using same_shape_enq_all [of "[a]" "attach_to f a s" r]
  by (simp add: free_def same_shape_def)

lemma own_pushed:
  assumes i: "inv R s" and o: "own s" and f: "f < length (futs s)" and a: "free s a"
    and nr: "\<And>g. \<not> rej_act s g a"
  shows "own (pushed f a s)"
proof -
  have "own (enq_all r [a] (attach_to f a s))" for r
    using own_attach_to [OF i o] inv_attach_to(1) [OF i f a] a nr
    by (intro own_enq) (simp_all add: free_def)
  then show ?thesis
    using own_attach_to [OF i o] by (simp add: pushed_def split: option.splits)
qed

lemma reserved_pushed:
  assumes "reserved h s" "free s a"
  shows "reserved h (pushed f a s)"
proof -
  have "same_shape (attach_to f a s) (enq_all r [a] (attach_to f a s))" for r
    using enq_attach_shape [OF assms(2)] by (simp add: same_shape_def)
  then have "reserved h (enq_all r [a] (attach_to f a s))" for r
    using reserved_same_shape [OF reserved_attach_to [OF assms(1), of f a]] by simp
  then show ?thesis
    using reserved_attach_to [OF assms(1)] by (simp add: pushed_def split: option.splits)
qed

section \<open>What the program's calls do\<close>

text \<open>Every call a program can make either returns with one of these states or throws.\<close>

lemma run_api_cases:
  assumes i: "inv R s" and run: "run_api E c s = (q, t)" and ok: "ok q"
  shows "t = s \<or> t = add_future True s \<or>
    (\<exists>p r. t = settle p r s \<and> p < length (futs s) \<and> f_promise (futs s ! p) \<and> unsettled s p) \<or>
    (\<exists>k f n. t = attach_st k f (UserFn n) s \<and> f < length (futs s)) \<or>
    (\<exists>n. t = async_st (UserFn n) s)"
proof -
  have settle: "t = s \<or> (\<exists>p r. t = settle p r s \<and> p < length (futs s) \<and>
      f_promise (futs s ! p) \<and> unsettled s p)"
    if "on_promise p (resolver_resolve_future E r p) s = (q, t)" for p r
  proof (cases "p < length (futs s) \<and> f_promise (futs s ! p)")
    case True
    then have "resolver_resolve_future E r p s = (q, t)"
      using that by (simp add: on_promise_def on_future_def thenM_def bindM_def assertM_def)
    from resolve_future_cases [OF i _ this ok] True show ?thesis
      by (auto simp: unsettled_def split: if_splits)
  next
    case False
    then show ?thesis
      using that ok by (auto simp: on_promise_def on_future_def thenM_def bindM_def assertM_def
          split: if_splits)
  qed
  have attach: "\<exists>f. t = attach_st k f (UserFn n) s \<and> f < length (futs s)"
    if "on_future f (thenM (attach_action E k f (UserFn n)) (retM ())) s = (q, t)" for k f n
  proof -
    have f: "f < length (futs s)"
      using that ok by (auto simp: on_future_def thenM_def bindM_def assertM_def split: if_splits)
    obtain q' u where u: "attach_action E k f (UserFn n) s = (q', u)"
      by (cases "attach_action E k f (UserFn n) s")
    have "ok q' \<and> t = u"
      using that f u ok
      by (cases q') (auto simp: on_future_def thenM_def bindM_def assertM_def retM_def)
    with attach_run(1) [OF i f _ _ u] f show ?thesis by auto
  qed
  have async: "t = async_st (UserFn n) s"
    if "thenM (async E (UserFn n)) (retM ()) s = (q, t)" for n
  proof -
    obtain q' u where u: "async E (UserFn n) s = (q', u)" by (cases "async E (UserFn n) s")
    have "ok q' \<and> t = u"
      using that u ok by (cases q') (auto simp: thenM_def bindM_def retM_def)
    with async_run(1) [OF i _ _ u] show ?thesis by simp
  qed
  show ?thesis
  proof (cases c)
    case NewPromise
    then show ?thesis
      using run by (auto simp: promise_new_def thenM_def bindM_def new_future_eq retM_def)
  next
    case (PromiseResolve p v)
    then show ?thesis
      using run settle [of p "RValue v"] by (auto simp: promise_resolve_def)
  next
    case (PromiseReject p e)
    then show ?thesis
      using run settle [of p "RError e"] by (auto simp: promise_reject_def)
  next
    case (Then f n)
    then show ?thesis using run attach [of f KThen n] by (auto simp: future_then_def)
  next
    case (Finally f n)
    then show ?thesis using run attach [of f KFinally n] by (auto simp: future_finally_def)
  next
    case (OnError f n)
    then show ?thesis using run attach [of f KError n] by (auto simp: future_error_def)
  next
    case (AsyncCall n)
    then show ?thesis using run async [of n] by auto
  qed
qed

text \<open>The state after an action was made for \<open>fn\<close> with a future of its own.\<close>

abbreviation made :: "akind \<Rightarrow> cbfn \<Rightarrow> 'v st \<Rightarrow> 'v st" where
  "made k fn s \<equiv> add_action k fn (length (futs s)) (add_future False s)"

lemma own_made:
  assumes i: "inv R s" and o: "own s"
    and fn: "(\<exists>n. fn = UserFn n) \<or> (\<exists>h b n. fn = Attach h b \<and> k = KThen \<and> b < length (acts s) \<and>
        a_fn (acts s ! b) = UserFn n) \<or> (\<exists>g. fn = FwdResolve g \<and> k = KThen \<and> reserved g s \<and> user_future s g)"
  shows "own (made k fn s)"
proof -
  have i': "inv R (add_future False s)" by (rule inv_add_future [OF i])
  have "g \<noteq> length (futs s)" if "reserved g s" for g
    using that by (auto simp: reserved_def)
  moreover have "user_future (add_future False s) = user_future s"
    by (simp add: user_future_def fun_eq_iff)
  ultimately show ?thesis
    using fn reserved_add(1) [OF i]
    by (intro own_add_action [OF i' own_add_future [OF i o] fresh_add_future [OF i]]) auto
qed

lemma reserved_made:
  assumes "inv R s" "reserved f s" "fn \<noteq> FwdResolve f" "fn \<noteq> FwdReject f"
  shows "reserved f (made k fn s)"
  using assms reserved_add(1) [OF assms(1,2)]
  by (intro reserved_add(2) [OF inv_add_future [OF assms(1)]]) (auto simp: reserved_def)

lemma own_async_st:
  assumes i: "inv R s" and o: "own s"
    and fn: "(\<exists>n. fn = UserFn n) \<or> (\<exists>h b n. fn = Attach h b \<and> h < length (futs s) \<and> free s b \<and>
        a_fn (acts s ! b) = UserFn n)"
  shows "own (async_st fn s)"
    and "reserved f s \<Longrightarrow> reserved f (async_st fn s)"
proof -
  have n: "fn \<noteq> FwdResolve g" "fn \<noteq> FwdReject g" for g using fn by auto
  have ow: "own (made KThen fn s)" using fn by (intro own_made [OF i o]) (auto simp: free_def)
  have iv: "inv R (made KThen fn s)"
    using fn by (intro inv_new_action(1) [OF i]) (auto simp: free_def)
  have sh: "same_shape (made KThen fn s) (enq_all (RValue Void) [length (acts s)] (made KThen fn s))"
    by (intro same_shape_enq_all) auto
  show "own (async_st fn s)"
    unfolding async_st_def using iv n
    by (intro own_enq [OF ow]) (auto simp: inv_def rej_act_def add_action_nth)
  show "reserved f (async_st fn s)" if "reserved f s"
    unfolding async_st_def
    by (rule reserved_same_shape [OF reserved_made [OF i that n] sh]) auto
qed

lemma own_attach_st:
  assumes i: "inv R s" and o: "own s" and f: "f < length (futs s)"
  shows "own (attach_st k f (UserFn n) s)"
    and "reserved g s \<Longrightarrow> reserved g (attach_st k f (UserFn n) s)"
proof -
  let ?s = "made k (UserFn n) s" and ?a = "length (acts s)"
  have new: "inv R ?s" "free ?s ?a" using inv_new_action [OF i, of "UserFn n" k] by simp_all
  have ow: "own ?s" by (rule own_made [OF i o]) simp
  have f': "f < length (futs ?s)" using f by simp
  have nr: "\<not> rej_act ?s g ?a" for g by (simp add: rej_act_def add_action_nth)
  have at: "(\<exists>m. Attach f ?a = UserFn m) \<or> (\<exists>h b m. Attach f ?a = Attach h b \<and>
      h < length (futs ?s) \<and> free ?s b \<and> a_fn (acts ?s ! b) = UserFn m)"
    using f' new(2) by (simp add: add_action_nth)
  show "own (attach_st k f (UserFn n) s)"
    using own_pushed [OF new(1) ow f' new(2) nr] own_async_st(1) [OF new(1) ow at]
    by (simp add: attach_st_def Let_def)
  show "reserved g (attach_st k f (UserFn n) s)" if "reserved g s"
    using reserved_pushed [OF reserved_made [OF i that] new(2)]
      own_async_st(2) [OF new(1) ow at reserved_made [OF i that]]
    by (simp add: attach_st_def Let_def)
qed

lemma own_run_api:
  assumes i: "inv R s" and o: "own s" and run: "run_api E c s = (q, t)" "ok q"
  shows "own t" and "reserved f s \<Longrightarrow> reserved f t"
proof -
  have "own t \<and> (reserved f s \<longrightarrow> reserved f t)"
    using run_api_cases [OF i run]
  proof (elim disjE exE conjE)
    show "own t \<and> (reserved f s \<longrightarrow> reserved f t)" if "t = s" using that o by simp
    show "own t \<and> (reserved f s \<longrightarrow> reserved f t)" if "t = add_future True s"
      using that own_add_future [OF i o] reserved_add(1) [OF i] by simp
    show "own t \<and> (reserved f s \<longrightarrow> reserved f t)"
      if t: "t = settle p r s" and p: "p < length (futs s)" "f_promise (futs s ! p)" "unsettled s p"
      for p r
    proof -
      have "reserved f s \<Longrightarrow> p \<noteq> f" using p(2) by (auto simp: reserved_def)
      then show ?thesis
        using own_settle_promise [OF i o p] reserved_settle [OF i _ p(1) _ p(3)] t by blast
    qed
    show "own t \<and> (reserved f s \<longrightarrow> reserved f t)"
      if "t = attach_st k g (UserFn n) s" "g < length (futs s)" for k g n
      using own_attach_st [OF i o that(2)] that(1) by simp
    show "own t \<and> (reserved f s \<longrightarrow> reserved f t)" if "t = async_st (UserFn n) s" for n
      using own_async_st [OF i o, of "UserFn n"] that by simp
  qed
  then show "own t" "reserved f s \<Longrightarrow> reserved f t" by simp_all
qed

end
