(* ===== verification/AsyncTurn.thy ===== *)
theory AsyncTurn
  imports AsyncOwn
begin

text \<open>
  One turn of the loop: what running an action does, in every state in which the loop can
  run it. The action's own future is settled exactly once, so no \<open>FutureError\<close> ever leaves
  the callback of libuv.
\<close>

section \<open>Settling the action's own future\<close>

text \<open>
  \<open>running a s\<close>: the state of a turn of \<open>a\<close>, with everything left to do that concerns its
  own future in the hands of the code that runs.
\<close>

definition running :: "aid \<Rightarrow> 'v st \<Rightarrow> bool" where
  "running a s \<longleftrightarrow> inv [a] s \<and> own s \<and> a < length (acts s) \<and>
     reserved (a_future (acts s ! a)) s \<and> isOnEventLoopThread s"

lemma running_keeps_action:
  assumes "ext s t" "a < length (acts s)"
  shows "a_future (acts t ! a) = a_future (acts s ! a)" "a_fn (acts t ! a) = a_fn (acts s ! a)"
    "a_kind (acts t ! a) = a_kind (acts s ! a)" "a < length (acts t)"
  using ext_act [OF assms] ext_acts [OF assms] by (simp_all add: same_act_def)

lemma settle_own:
  assumes r: "running a s" and f: "f = a_future (acts s ! a)"
    and err: "\<And>e g. x = RError e \<Longrightarrow> a_fn (acts s ! a) = FwdResolve g \<Longrightarrow> unsettled s g"
    and run: "resolver_resolve_future E x f s = (q, t)" "ok q"
  shows "q = Inr () \<and> t = settle f x s \<and> own t"
proof -
  have i: "inv [a] s" and o: "own s" and a: "a < length (acts s)" and v: "reserved f s"
    using r f by (simp_all add: running_def)
  have fl: "f < length (futs s)" and u: "f_resolver (futs s ! f) = None"
    using v by (simp_all add: reserved_def unsettled_def)
  have "q = Inr () \<and> t = settle f x s"
    using resolve_future_cases [OF i fl run] u by simp
  moreover have "own (settle f x s)"
  proof (rule own_settle [OF i o fl])
    show "unsettled s f" using u by (simp add: unsettled_def)
    show "b \<in> set (execd s)" if "b < length (acts s)" "a_future (acts s ! b) = f" for b
      using v that by (simp add: reserved_def)
    show "c \<in> set (execd s)" if "res_act s f c" for c using v that by (simp add: reserved_def)
    show "d \<in> set (execd s)" if "rej_act s f d" for d using v that by (simp add: reserved_def)
    show "unsettled s g \<and> g \<noteq> f"
      if e: "x = RError e" and d: "d \<in> set (f_actions (futs s ! f))" and g: "rej_act s g d" for d e g
    proof -
      obtain c where c: "res_act s g c" "a_future (acts s ! c) = f"
        using rej_attached [OF i o g fl d] .
      then have "c = a"
        using own_futD(2) [OF o res_act_range [OF c(1)] a] f by simp
      then have fn: "a_fn (acts s ! a) = FwdResolve g" using c(1) by (simp add: res_act_def)
      have "g \<noteq> f" using v c(1) by (auto simp: reserved_def)
      with err [OF e fn] show ?thesis by simp
    qed
  qed
  ultimately show ?thesis by simp
qed

lemma running_settle:
  assumes r: "running a s" and p: "p < length (futs s)" "p \<noteq> a_future (acts s ! a)" "unsettled s p"
    and o: "own (settle p x s)"
  shows "running a (settle p x s)"
proof -
  have i: "inv [a] s" and a: "a < length (acts s)" using r by (simp_all add: running_def)
  have n: "f_resolver (futs s ! p) = None" using p(3) by (simp add: unsettled_def)
  have ex: "ext s (settle p x s)" using ext_settle [OF i p(1) n] .
  from running_keeps_action [OF ex a]
  show ?thesis
    using isOn_ext [OF ex] r inv_settle [OF i p(1) n] o reserved_settle [OF i _ p(1,2,3)]
    by (simp add: running_def)
qed

section \<open>The program's callbacks\<close>

definition running_from :: "aid \<Rightarrow> 'v st \<Rightarrow> 'v st \<Rightarrow> bool" where
  "running_from a s0 s \<longleftrightarrow> running a s \<and> ext s0 s"

lemma keeps_running_api:
  assumes a: "a < length (acts s0)"
  shows "keeps (running_from a s0) (running_from a s0) (run_api E c)"
proof (rule keepsI)
  fix s q t
  assume r: "running_from a s0 s" and run: "run_api E c s = (q, t)" "ok q"
  then have i: "inv [a] s" and o: "own s" and al: "a < length (acts s)" and ex: "ext s0 s"
    and v: "reserved (a_future (acts s ! a)) s"
    by (auto simp: running_from_def running_def)
  have st: "stable [a] s t" by (rule keeps_stable_D [OF keeps_run_api i run])
  then have ext: "ext s t" by (simp add: stable_def)
  note ka = running_keeps_action [OF ext al]
  show "running_from a s0 t"
    using st own_run_api(1) [OF i o run] own_run_api(2) [OF i o run v] ka
      ext_trans [OF ex ext] isOn_ext [OF ext] r
    by (simp add: running_from_def running_def stable_def)
qed

lemma user_fn_running:
  assumes r: "running a s" and run: "call_fn E (UserFn n) x s = (q, t)" "ok q"
  shows "running a t" "ext s t"
proof -
  have a: "a < length (acts s)" using r by (simp add: running_def)
  have "keeps (running_from a s) (running_from a s)
      (thenM (forM (fst (user E n x s)) (run_api E)) (lift_outcome (snd (user E n x s))))"
    using keeps_running_api [OF a]
    by (auto intro!: keeps_then keeps_for simp: lift_outcome_def split: outcome.splits)
  from keepsD [OF this, of s q t] r run have "running_from a s t"
    by (simp add: running_from_def)
  then show "running a t" "ext s t" by (simp_all add: running_from_def)
qed

lemma user_error_running:
  assumes r: "running a s" and run: "call_error_fn E (UserFn n) e s = (q, t)" "ok q"
  shows "running a t" "ext s t"
proof -
  have a: "a < length (acts s)" using r by (simp add: running_def)
  have "keeps (running_from a s) (running_from a s)
      (thenM (forM (fst (user_error E n e s)) (run_api E))
        (case snd (user_error E n e s) of Inl x \<Rightarrow> throwM x | Inr v \<Rightarrow> retM v))"
    using keeps_running_api [OF a] by (auto intro!: keeps_then keeps_for split: sum.splits)
  from keepsD [OF this, of s q t] r run have "running_from a s t"
    by (simp add: running_from_def)
  then show "running a t" "ext s t" by (simp_all add: running_from_def)
qed

section \<open>Forwarding a returned future\<close>

lemma own_forward_reject:
  assumes i: "inv R s" and o: "own s" and c: "res_act s f c" "c \<notin> set (execd s)"
    and nd: "\<And>d. \<not> rej_act s f d" and h: "h = a_future (acts s ! c)"
  shows "own (attach_to h (length (acts s)) (made KError (FwdReject f) s))"
proof -
  let ?n = "length (acts s)" and ?m = "length (futs s)"
  define t where "t = attach_to h ?n (made KError (FwdReject f) s)"
  have c': "c < ?n" using res_act_range [OF c(1)] .
  have fm: "f < ?m" "f \<noteq> ?m" using own_fut_range(1) [OF i c(1)] by simp_all
  have hm: "h < ?m" using inv_action(1) [OF i c'] h by simp
  have uf: "unsettled s f" "\<not> f_promise (futs s ! f)" "user_future s f"
    using own_resD(1,4,6) [OF o c(1)] c(2) by simp_all
  have ne: "?n \<notin> set (enqd s)" "?n \<notin> set (execd s)"
    using inv_execd_enqd [OF i] inv_enqd_range [OF i] by blast+
  have res: "res_act t = res_act s"
    unfolding t_def by (auto simp: fwd_add_action fun_eq_iff) (auto simp: res_act_def)
  have rej: "rej_act t g d \<longleftrightarrow> rej_act s g d \<or> d = ?n \<and> g = f" for g d
    unfolding t_def by (auto simp: fwd_add_action) (auto simp: rej_act_def)
  have acts: "acts t ! a = acts s ! a" if "a < ?n" for a
    using that by (simp add: t_def add_action_nth)
  have actn: "acts t ! ?n = \<lparr>a_kind = KError, a_fn = FwdReject f, a_future = ?m, a_resolver = None,
      uv_data = False, a_instance = False, instanceNum = 0\<rparr>"
    by (simp add: t_def add_action_nth)
  have len: "length (acts t) = Suc ?n" by (simp add: t_def)
  have futs: "unsettled t g = unsettled s g" "f_promise (futs t ! g) = f_promise (futs s ! g)"
    "set (f_actions (futs s ! g)) \<subseteq> set (f_actions (futs t ! g))" if "g < ?m" for g
    using that by (auto simp: t_def unsettled_def attach_to_nth add_future_nth)
  have futm: "unsettled t ?m" "\<not> f_promise (futs t ! ?m)"
    using hm by (simp_all add: t_def unsettled_def attach_to_nth add_future_nth)
  have dh: "?n \<in> set (f_actions (futs t ! h))"
    using hm by (simp add: t_def attach_to_nth)
  have logs: "execd t = execd s" "enq_log t = enq_log s" by (simp_all add: t_def)
  note ia = inv_action(1) [OF i]
  have "own_futures t"
    unfolding own_futures_def logs
  proof (intro conjI allI impI)
    fix a assume a: "a < length (acts t)"
    then consider (old) "a < ?n" | (new) "a = ?n" unfolding len by fastforce
    note cs = this
    show "\<not> f_promise (futs t ! a_future (acts t ! a))"
      using cs futs(2) futm(2) own_futD(1) [OF o] ia by cases (simp_all add: acts actn)
    show "a = b" if b: "b < length (acts t)"
      and e: "a_future (acts t ! a) = a_future (acts t ! b)" for b
    proof -
      have fx: "a_future (acts t ! x) = (if x = ?n then ?m else a_future (acts s ! x))"
        if "x < length (acts t)" for x
        using that unfolding len by (auto simp: acts actn less_Suc_eq)
      have "a < Suc ?n" "b < Suc ?n" using a b unfolding len .
      then show ?thesis
        using own_futD(2) [OF o, of a b] ia [of a] ia [of b] e fx [OF a] fx [OF b]
        by (auto simp: less_Suc_eq)
    qed
    assume nx: "a \<notin> set (execd s)"
    show "unsettled t (a_future (acts t ! a))"
      using cs nx futs(1) futm(1) own_futD(3) [OF o] ia by cases (simp_all add: acts actn)
    show "\<not> res_act t (a_future (acts t ! a)) b" for b
      using cs nx own_futD(4) [OF o] own_fut_range(1) [OF i] unfolding res
      by cases (auto simp: acts actn)
    show "\<not> rej_act t (a_future (acts t ! a)) b" for b
      using cs nx own_futD(4,5) [OF o] own_fut_range(2) [OF i, of ?m] c(1) fm
      by cases (auto simp: acts actn rej)
  qed
  moreover have "own_res t"
    unfolding own_res_def logs res
  proof (intro conjI allI impI)
    fix g b assume b: "res_act s g b"
    note g = own_fut_range(1) [OF i b] and rb = res_act_range [OF b]
    show "\<not> f_promise (futs t ! g)" using own_resD(1) [OF o b] g futs by simp
    show "a_kind (acts t ! b) = KThen" using own_resD(2) [OF o b] acts [OF rb] by simp
    show "user_future t g"
      using own_resD(6) [OF o b] unfolding user_future_def len using acts by (metis less_SucI)
    show "b' = b" if "res_act s g b'" for b' using own_resD(3) [OF o b that] .
    assume nx: "b \<notin> set (execd s)"
    show "unsettled t g" using own_resD(4) [OF o b nx] g futs by simp
    show "d \<in> set (f_actions (futs t ! a_future (acts t ! b)))" if d: "rej_act t g d" for d
    proof (cases "rej_act s g d")
      case True
      then show ?thesis
        using own_resD(5) [OF o b nx] futs(3) [OF ia [OF rb]] acts [OF rb] by auto
    next
      case False
      then have "d = ?n" "g = f" using d rej by auto
      then have "b = c" using own_resD(3) [OF o c(1)] b by simp
      then show ?thesis using \<open>d = ?n\<close> dh h acts [OF c'] by simp
    qed
  qed
  moreover have "own_rej t"
    unfolding own_rej_def logs res
  proof (intro conjI allI impI)
    fix g d assume "rej_act t g d"
    then consider (old) "rej_act s g d" "g \<noteq> f" | (new) "d = ?n" "g = f"
      using rej nd by auto
    note cs = this
    show "\<not> f_promise (futs t ! g)"
      using cs own_rejD(1) [OF o] own_fut_range(2) [OF i] futs uf fm by cases auto
    show "a_kind (acts t ! d) = KError"
      using cs own_rejD(2) [OF o] rej_act_range [of s g d] by cases (auto simp: acts actn)
    show "d' = d" if "rej_act t g d'" for d'
      using cs that own_rejD(3) [OF o] nd rej by cases auto
    show "\<exists>c. res_act s g c \<and> d \<in> set (f_actions (futs t ! a_future (acts t ! c)))"
      using cs
    proof cases
      case old
      then obtain b where b: "res_act s g b" "d \<in> set (f_actions (futs s ! a_future (acts s ! b)))"
        using own_rejD(4) [OF o] by blast
      note rb = res_act_range [OF b(1)]
      have "d \<in> set (f_actions (futs t ! a_future (acts t ! b)))"
        using b(2) futs(3) [OF ia [OF rb]] acts [OF rb] by auto
      with b(1) show ?thesis by blast
    next
      case new
      then show ?thesis using c(1) dh h acts [OF c'] by auto
    qed
    show "unsettled t g" if "(d, RError e) \<in> set (enq_log s)" "d \<notin> set (execd s)" for e
    proof -
      have "d \<in> set (enqd s)" using that(1) by (force simp: enqd_def)
      then have "d \<noteq> ?n" using ne by auto
      then have old: "rej_act s g d" using cs by cases auto
      then show ?thesis
        using own_rejD(5) [OF o old that] futs(1) [OF own_fut_range(2) [OF i old]] by simp
    qed
  qed
  moreover have "own_attach t"
    unfolding own_attach_def
  proof (intro allI impI)
    fix a g b assume a: "a < length (acts t)" and at: "a_fn (acts t ! a) = Attach g b"
    have old: "a < ?n" using a at actn unfolding len by (cases "a = ?n") auto
    then have at': "a_fn (acts s ! a) = Attach g b" using at acts by simp
    have "b < ?n" using inv_action(2) [OF i old] at' by simp
    then show "a_kind (acts t ! a) = KThen \<and> (\<exists>n. a_fn (acts t ! b) = UserFn n)"
      using o old at' acts by (simp add: own_def own_attach_def)
  qed
  ultimately have "own t" unfolding own_def by simp
  then show ?thesis unfolding t_def .
qed

lemma attach_st_on:
  "isOnEventLoopThread s \<Longrightarrow> attach_st k f fn s = pushed f (length (acts s)) (made k fn s)"
  using isOn_ext [OF ext_trans [OF ext_add_future ext_add_action]]
  by (simp add: attach_st_def Let_def)

lemma forward_own:
  assumes r: "running a s" and f: "f = a_future (acts s ! a)" and u: "user_future s f"
    and g: "g < length (futs s)" and on: "isOnEventLoopThread s"
    and run: "forward E g f s = (q, t)" "ok q"
  shows "q = Inr () \<and> own t \<and>
    t = attach_st KError (length (futs s)) (FwdReject f) (attach_st KThen g (FwdResolve f) s)"
proof -
  let ?c = "length (acts s)" and ?h = "length (futs s)" and ?s1 = "made KThen (FwdResolve f) s"
  let ?s2 = "attach_st KThen g (FwdResolve f) s"
  have i: "inv [a] s" and o: "own s" and v: "reserved f s"
    using r f by (simp_all add: running_def)
  have fl: "f < length (futs s)" using v by (simp add: reserved_def)
  have fn1: "fn_ok (length (futs s)) (length (acts s)) (FwdResolve f)" using fl by simp
  have new: "inv [a] ?s1" "free ?s1 ?c" using inv_new_action [OF i fn1, of KThen] by simp_all
  have s2: "?s2 = pushed g ?c ?s1" by (rule attach_st_on [OF on])
  note p2 = attach_st_props [OF i g fn1, where k = KThen]
  have i2: "inv [a] ?s2" and e2: "ext s ?s2" using p2 by simp_all
  have o2: "own ?s2"
    unfolding s2
  proof (rule own_pushed [OF new(1) _ _ new(2)])
    show "own ?s1" using v u by (intro own_made [OF i o]) simp
    show "g < length (futs ?s1)" using g by simp
    show "\<not> rej_act ?s1 h ?c" for h by (simp add: rej_act_def add_action_nth)
  qed
  have on2: "isOnEventLoopThread ?s2" using isOn_ext [OF e2] on by simp
  have len2: "length (acts ?s2) = Suc ?c" "length (futs ?s2) = Suc ?h"
    by (auto simp: s2 pushed_def split: option.splits)
  have act2: "a_fn (acts ?s2 ! ?c) = FwdResolve f" "a_future (acts ?s2 ! ?c) = ?h"
    using ext_act [OF ext_pushed [OF _ new(2)], of g ?c] g
    by (simp_all add: s2 same_act_def add_action_nth)
  have c2: "res_act ?s2 f ?c" using act2 len2 by (simp add: res_act_def)
  have nc: "?c \<notin> set (execd s)" using inv_execd_enqd [OF i] inv_enqd_range [OF i] by blast
  have "execd ?s2 = execd s" using e2 by (simp add: ext_def quiet_def execd_def)
  with nc have c3: "?c \<notin> set (execd ?s2)" by simp
  have nd: "\<not> rej_act ?s2 f d" for d
  proof
    assume "rej_act ?s2 f d"
    then have d: "d < Suc ?c" "a_fn (acts ?s2 ! d) = FwdReject f" using len2 by (auto simp: rej_act_def)
    then have "d < ?c" using act2 by (cases "d = ?c") auto
    then have "rej_act s f d" using d ext_act [OF e2, of d] by (simp add: rej_act_def same_act_def)
    with v show False by (simp add: reserved_def)
  qed
  have h2: "?h < length (futs ?s2)" using len2 by simp
  have fn2: "fn_ok (length (futs ?s2)) (length (acts ?s2)) (FwdReject f)" using fl len2 by simp
  have uh: "f_resolver (futs ?s2 ! ?h) = None"
    using own_futD(3) [OF o2 _ c3] len2 act2 by (simp add: unsettled_def)
  obtain q1 u1 where u1: "attach_action E KThen g (FwdResolve f) s = (q1, u1)"
    by (cases "attach_action E KThen g (FwdResolve f) s")
  have "ok q1" using u1 run by (cases q1) (auto simp: forward_def future_then_def bindM_def)
  with attach_run(1) [OF i g fn1 _ u1] have q1: "q1 = Inr ?h" "u1 = ?s2" by simp_all
  obtain q2 u2 where u2: "attach_action E KError ?h (FwdReject f) ?s2 = (q2, u2)"
    by (cases "attach_action E KError ?h (FwdReject f) ?s2")
  have q2: "ok q2" "u2 = t" "q2 = Inr x \<Longrightarrow> q = Inr ()" for x
    using u1 u2 q1 run by (cases q2; simp add: forward_def future_then_def future_error_def
        bindM_def thenM_def retM_def; fastforce)+
  with attach_run(1) [OF i2 h2 fn2 _ u2] have
    t: "q = Inr ()" "t = attach_st KError ?h (FwdReject f) ?s2" by simp_all
  have "attach_st KError ?h (FwdReject f) ?s2 =
      attach_to ?h (length (acts ?s2)) (made KError (FwdReject f) ?s2)"
    using attach_st_on [OF on2] uh h2 by (simp add: pushed_def add_future_nth)
  then have "own t"
    using own_forward_reject [OF i2 o2 c2 c3 nd act2(2) [symmetric]] t by simp
  with t show ?thesis by simp
qed

section \<open>Running an action\<close>

text \<open>
  \<open>turn a s t q\<close>: what a turn guarantees when it ends without an exception of the kinds
  the library does not handle: it returns, and the own future of the action is settled
  or handed over.
\<close>

definition turn_ok :: "(exn + unit) \<Rightarrow> 'v st \<Rightarrow> bool" where
  "turn_ok q t \<longleftrightarrow> q = Inr () \<and> own t"

lemma settle_own_turn:
  assumes r: "running a s"
    and err: "\<And>e g. x = RError e \<Longrightarrow> a_fn (acts s ! a) = FwdResolve g \<Longrightarrow> unsettled s g"
    and run: "resolver_resolve_future E x (a_future (acts s ! a)) s = (q, t)" "ok q"
  shows "turn_ok q t"
  unfolding turn_ok_def using settle_own [OF r refl _ run] err by blast

text \<open>The lambda of \<open>callFn\<close> that forwards a value finds the future it forwards to unsettled.\<close>

lemma fwd_resolve_running:
  assumes i: "inv [] s0" and o: "own s0" and a: "a \<in> set (pending s0)"
    and fn: "a_fn (acts s0 ! a) = FwdResolve g" and r: "running a (log_exec a s0)"
  shows "running a (settle g (RValue v) (log_exec a s0))" "unsettled s0 g" "g < length (futs s0)"
proof -
  let ?s = "log_exec a s0"
  note pa = inv_pending [OF i a]
  have ra: "res_act s0 g a" using pa(1) fn by (simp add: res_act_def)
  note rd = own_resD [OF o ra]
  show u: "unsettled s0 g" using rd(4) pa(3) by simp
  show g: "g < length (futs s0)" using own_fut_range(1) [OF i ra] .
  have same: "unsettled ?s g" "g < length (futs ?s)" "res_act ?s = res_act s0" "rej_act ?s = rej_act s0"
    using u g by (auto simp: unsettled_def res_act_def rej_act_def fun_eq_iff)
  have iso: "inv [a] ?s" "own ?s" using r by (simp_all add: running_def)
  have ng: "g \<noteq> a_future (acts ?s ! a)"
    using own_futD(4) [OF o pa(1,3)] ra by auto
  have "own (settle g (RValue v) ?s)"
  proof (rule own_settle [OF iso same(2,1)])
    show "b \<in> set (execd ?s)" if "b < length (acts ?s)" "a_future (acts ?s ! b) = g" for b
      using own_futD(4) [OF o, of b a] ra that by auto
    show "c \<in> set (execd ?s)" if "res_act ?s g c" for c
      using rd(3) [of c] that by (simp add: same)
    show "d \<in> set (execd ?s)" if d: "rej_act ?s g d" and e: "(d, RError e) \<in> set (enq_log ?s)" for d e
    proof -
      have "d \<in> set (f_actions (futs s0 ! a_future (acts s0 ! a)))"
        using rd(5) pa(3) d by (simp add: same)
      moreover have "f_resolver (futs s0 ! a_future (acts s0 ! a)) = None"
        using own_futD(3) [OF o pa(1,3)] by (simp add: unsettled_def)
      ultimately have "d \<notin> set (enqd s0)"
        using i inv_action(1) [OF i pa(1)] by (force simp: inv_def inv_settled_def)
      then show ?thesis using e by (force simp: enqd_def)
    qed
  qed simp
  from running_settle [OF r same(2) ng same(1) this]
  show "running a (settle g (RValue v) ?s)" .
qed

text \<open>The lambda that forwards an error, when it is called, finds it unsettled as well.\<close>

lemma fwd_reject_running:
  assumes i: "inv [] s0" and o: "own s0" and a: "a \<in> set (pending s0)"
    and fn: "a_fn (acts s0 ! a) = FwdReject g" and r: "running a (log_exec a s0)"
    and e: "a_resolver (acts s0 ! a) = Some (RError e)"
  shows "running a (settle g (RError e') (log_exec a s0))" "unsettled s0 g" "g < length (futs s0)"
proof -
  let ?s = "log_exec a s0"
  note pa = inv_pending [OF i a]
  have ra: "rej_act s0 g a" using pa(1) fn by (simp add: rej_act_def)
  note rd = own_rejD [OF o ra]
  have enq: "(a, RError e) \<in> set (enq_log s0)" using pa(4) e by simp
  show u: "unsettled s0 g" using rd(5) [OF enq pa(3)] .
  show g: "g < length (futs s0)" using own_fut_range(2) [OF i ra] .
  have same: "unsettled ?s g" "g < length (futs ?s)" "res_act ?s = res_act s0" "rej_act ?s = rej_act s0"
    using u g by (auto simp: unsettled_def res_act_def rej_act_def fun_eq_iff)
  have iso: "inv [a] ?s" "own ?s" using r by (simp_all add: running_def)
  have ng: "g \<noteq> a_future (acts ?s ! a)"
    using own_futD(5) [OF o pa(1,3)] ra by auto
  obtain c0 where c0: "res_act s0 g c0" using rd(4) by blast
  have "own (settle g (RError e') ?s)"
  proof (rule own_settle [OF iso same(2,1)])
    show ex: "b \<in> set (execd ?s)" if "b < length (acts ?s)" "a_future (acts ?s ! b) = g" for b
      using own_futD(5) [OF o, of b a] ra that by auto
    show "c \<in> set (execd ?s)" if "res_act ?s g c" for c
    proof (rule ccontr)
      assume "c \<notin> set (execd ?s)"
      then have nc: "c \<notin> set (execd s0)" by simp
      have rc: "res_act s0 g c" using that by (simp add: same)
      note c = res_act_range [OF rc]
      have "a \<in> set (f_actions (futs s0 ! a_future (acts s0 ! c)))"
        using own_resD(5) [OF o rc nc ra] .
      moreover have "f_resolver (futs s0 ! a_future (acts s0 ! c)) = None"
        using own_futD(3) [OF o c nc] by (simp add: unsettled_def)
      ultimately have "a \<notin> set (enqd s0)"
        using i inv_action(1) [OF i c] by (force simp: inv_def inv_settled_def)
      then show False using enq by (force simp: enqd_def)
    qed
    show "d \<in> set (execd ?s)" if "rej_act ?s g d" for d
      using rd(3) [of d] that by (simp add: same)
    show "unsettled ?s h \<and> h \<noteq> g"
      if d: "d \<in> set (f_actions (futs ?s ! g))" "rej_act ?s h d" for d h
    proof -
      obtain c where c: "res_act ?s h c" "a_future (acts ?s ! c) = g"
        using rej_attached [OF iso d(2) same(2) d(1)] .
      obtain b n where b: "b < length (acts s0)" "a_future (acts s0 ! b) = g"
        "a_fn (acts s0 ! b) = UserFn n"
        using own_resD(6) [OF o c0] unfolding user_future_def by blast
      have "c < length (acts s0)" using c(1) by (simp add: res_act_def)
      then have "c = b" using own_futD(2) [OF o] b c(2) by simp
      then have False using c(1) b(3) by (simp add: res_act_def)
      then show ?thesis ..
    qed
  qed
  from running_settle [OF r same(2) ng same(1) this]
  show "running a (settle g (RError e') ?s)" .
qed

lemma bind_cases:
  assumes "bindM m k s = (q, t)"
  obtains e where "m s = (Inl e, t)" "q = Inl e"
  | x u where "m s = (Inr x, u)" "k x u = (q, t)"
  using assms by (cases "m s") (auto simp: bindM_def split: sum.splits)

lemma then_cases:
  assumes "thenM m k s = (q, t)"
  obtains e where "m s = (Inl e, t)" "q = Inl e"
  | x u where "m s = (Inr x, u)" "k u = (q, t)"
  using assms by (cases "m s") (auto simp: thenM_def bindM_def split: sum.splits)

lemma catch_cases:
  assumes "catchFuture m h s = (q, t)"
  obtains e u where "m s = (Inl (FutureExn e), u)" "h e u = (q, t)"
  | "m s = (q, t)" "\<not> (\<exists>e. q = Inl (FutureExn e))"
  using assms by (cases "m s") (auto simp: catchFuture_def split: sum.splits exn.splits)

lemma running_own:
  assumes "running a s" "ext s t" "running a t"
  shows "a_future (acts s ! a) = a_future (acts t ! a)" "a_fn (acts s ! a) = a_fn (acts t ! a)"
  using running_keeps_action [OF assms(2), of a] assms(1) by (simp_all add: running_def)

text \<open>Running a callback of the program in a \<open>then\<close> or \<open>finally\<close> action.\<close>

lemma callFn_user_turn:
  assumes r: "running a s" and fn: "a_fn (acts s ! a) = UserFn n"
    and run: "callFn E a x s = (q, t)" "ok q"
  shows "turn_ok q t"
proof -
  let ?f = "a_future (acts s ! a)"
  have a: "a < length (acts s)" using r by (simp add: running_def)
  have rej: "turn_ok q t"
    if u: "running a u" "ext s u" and "future_reject E ?f e u = (q, t)" for e u
  proof -
    have "a_fn (acts u ! a) = UserFn n" using running_own [OF r u(2,1)] fn by simp
    then show ?thesis
      using settle_own_turn [OF u(1), of "RError e" E q t] running_own(1) [OF r u(2,1)] that(3) run(2)
      by simp
  qed
  have "callFn E a x s = catchFuture (bindM (call_fn E (UserFn n) x) (\<lambda>r. case r of
           Return v \<Rightarrow> future_resolve E ?f v
         | ReturnFuture g \<Rightarrow> on_future g (forward E g ?f)
         | Throw e \<Rightarrow> throwM e)) (\<lambda>e. future_reject E ?f e) s"
    by (simp only: callFn_eq Let_def fn)
  with run(1) have c: "catchFuture (bindM (call_fn E (UserFn n) x) (\<lambda>r. case r of
           Return v \<Rightarrow> future_resolve E ?f v
         | ReturnFuture g \<Rightarrow> on_future g (forward E g ?f)
         | Throw e \<Rightarrow> throwM e)) (\<lambda>e. future_reject E ?f e) s = (q, t)" by simp
  have body: "turn_ok q' u \<or> (\<exists>e. q' = Inl e) \<and> running a u \<and> ext s u"
    if b: "bindM (call_fn E (UserFn n) x) (\<lambda>r. case r of
           Return v \<Rightarrow> future_resolve E ?f v
         | ReturnFuture g \<Rightarrow> on_future g (forward E g ?f)
         | Throw e \<Rightarrow> throwM e) s = (q', u)" and okq: "ok q'" for q' u
    using b
  proof (cases rule: bind_cases)
    case (1 e)
    then show ?thesis using user_fn_running [OF r 1(1)] okq by auto
  next
    case (2 y w)
    then have w: "running a w" "ext s w" using user_fn_running [OF r 2(1)] by simp_all
    note same = running_own [OF r w(2,1)]
    show ?thesis
    proof (cases y)
      case (Return v)
      then show ?thesis
        using 2(2) settle_own_turn [OF w(1), of "RValue v" E q' u] okq same by simp
    next
      case (ReturnFuture g)
      then have on: "on_future g (forward E g ?f) w = (q', u)" using 2(2) by simp
      then have g: "g < length (futs w)" and fw: "forward E g ?f w = (q', u)"
        using okq by (auto simp: on_future_def thenM_def bindM_def assertM_def split: if_splits)
      have uf: "user_future w ?f"
        using w(1) fn same unfolding user_future_def running_def by metis
      show ?thesis
      proof -
        have "isOnEventLoopThread w" using w(1) by (simp add: running_def)
        from forward_own [OF w(1) same(1) uf g this fw okq] show ?thesis
          unfolding turn_ok_def by blast
      qed
    next
      case (Throw e)
      then show ?thesis using 2(2) w by (auto simp: throwM_def)
    qed
  qed
  from c show ?thesis
  proof (cases rule: catch_cases)
    case (1 e u)
    from body [OF 1(1)] have "running a u" "ext s u" by (auto simp: turn_ok_def)
    from rej [OF this 1(2)] show ?thesis .
  next
    case 2
    from body [OF 2(1) run(2)] 2(2) run(2) show ?thesis by (cases q) auto
  qed
qed

lemma callFn_error_user_turn:
  assumes r: "running a s" and fn: "a_fn (acts s ! a) = UserFn n"
    and run: "callFn_error E a e s = (q, t)" "ok q"
  shows "turn_ok q t"
proof -
  let ?f = "a_future (acts s ! a)"
  have settle: "turn_ok q' t'"
    if u: "running a u" "ext s u" and "resolver_resolve_future E x ?f u = (q', t')" "ok q'"
    for x u q' t'
  proof -
    have "a_fn (acts u ! a) = UserFn n" using running_own [OF r u(2,1)] fn by simp
    then show ?thesis
      using settle_own_turn [OF u(1), of x E q' t'] running_own(1) [OF r u(2,1)] that(3,4) by simp
  qed
  have "catchFuture (bindM (call_error_fn E (UserFn n) e) (future_resolve E ?f))
      (\<lambda>e'. future_reject E ?f e') s = (q, t)"
    using run(1) by (simp only: callFn_error_eq Let_def fn)
  then show ?thesis
  proof (cases rule: catch_cases)
    case (1 e' u)
    from 1(1) show ?thesis
    proof (cases rule: bind_cases)
      case (1 e'')
      then have u: "running a u" "ext s u" using user_error_running [OF r 1(1)] 1(2) by auto
      with settle [OF u, of "RError e'" q t] \<open>future_reject E ?f e' u = (q, t)\<close> run(2)
      show ?thesis by simp
    next
      case (2 v w)
      then have "running a w" "ext s w" using user_error_running [OF r 2(1)] by simp_all
      with settle [of w "RValue v"] 2(2) have "turn_ok (Inl (FutureExn e')) u" by simp
      then show ?thesis by (simp add: turn_ok_def)
    qed
  next
    case 2
    from 2(1) show ?thesis
    proof (cases rule: bind_cases)
      case (1 e'')
      then show ?thesis using 2(2) run(2) by (auto simp: ok_def split: exn.splits)
    next
      case (2 v w)
      then have "running a w" "ext s w" using user_error_running [OF r 2(1)] by simp_all
      with settle [of w "RValue v"] 2(2) run(2) show ?thesis by simp
    qed
  qed
qed

text \<open>A callback of the library that ends by settling the action's future with \<open>Void\<close>.\<close>

lemma lib_fn_turn:
  assumes r: "running a u" and ex: "ext s u" and a: "a < length (acts s)"
    and fn: "call_fn E (a_fn (acts s ! a)) x s = (Inr (Return Void), u)"
    and run: "callFn E a x s = (q, t)" "ok q"
  shows "turn_ok q t"
proof -
  let ?f = "a_future (acts s ! a)"
  have f: "?f = a_future (acts u ! a)" using running_keeps_action(1) [OF ex a] by simp
  have "catchFuture (future_resolve E ?f Void) (\<lambda>e. future_reject E ?f e) u = (q, t)"
    using run(1) fn by (simp add: callFn_eq Let_def catchFuture_def bindM_def)
  then show ?thesis
  proof (cases rule: catch_cases)
    case (1 e u')
    then have "turn_ok (Inl (FutureExn e)) u'"
      using settle_own_turn [OF r, of "RValue Void" E] f by simp
    then show ?thesis by (simp add: turn_ok_def)
  next
    case 2
    then show ?thesis using settle_own_turn [OF r, of "RValue Void" E] f run(2) by simp
  qed
qed

lemma settle_run:
  assumes "inv R s" "g < length (futs s)" "unsettled s g" and on: "isOnEventLoopThread s"
  shows "resolver_resolve_future E r g s = (Inr (), settle g r s) \<or>
    \<not> ok (fst (resolver_resolve_future E r g s))"
  using resolve_future_cases [OF assms(1,2), of E r] assms(3)
  by (cases "resolver_resolve_future E r g s") (auto simp: unsettled_def)

lemma bad_call_fn:
  assumes "call_fn E (a_fn (acts s ! a)) x s = (Inl e, u)" "\<not> ok (Inl e :: exn + unit)"
    and "callFn E a x s = (q, t)" "ok q"
  shows "False"
proof -
  have "catchFuture (bindM (call_fn E (a_fn (acts s ! a)) x) (\<lambda>r. case r of
           Return v \<Rightarrow> future_resolve E (a_future (acts s ! a)) v
         | ReturnFuture g \<Rightarrow> on_future g (forward E g (a_future (acts s ! a)))
         | Throw e \<Rightarrow> throwM e)) (\<lambda>e. future_reject E (a_future (acts s ! a)) e) s = (q, t)"
    using assms(3) by (simp only: callFn_eq Let_def)
  then show False
    using assms(1,2,4) by (auto simp: catchFuture_def bindM_def split: exn.splits)
qed

lemma running_log_exec:
  assumes i: "inv [] s" and o: "own s" and a: "a \<in> set (pending s)" and on: "isOnEventLoopThread s"
  shows "running a (log_exec a s)"
proof -
  note pa = inv_pending [OF i a]
  note of = own_futD [OF o pa(1)]
  have ids: "inv_ids s" using i by (simp add: inv_def)
  have rr: "res_act (log_exec a s) = res_act s" "rej_act (log_exec a s) = rej_act s"
    by (auto simp: res_act_def rej_act_def fun_eq_iff)
  have "isOnEventLoopThread (log_exec a s)" using on by (simp add: isOnEventLoopThread_def)
  moreover have "b = a" if "b < length (acts s)" "a_future (acts s ! b) = a_future (acts s ! a)" for b
    using of(2) [OF that(1)] that(2) by simp
  ultimately show ?thesis
    using inv_log_exec(1) [OF i a] own_log_exec [OF o ids] pa of(1,3,4,5) inv_action(1) [OF i pa(1)]
    by (auto simp: running_def reserved_def rr unsettled_def)
qed

text \<open>The lambda that attaches an action from the loop's thread.\<close>

lemma attach_running:
  assumes i: "inv [] s0" and o: "own s0" and a: "a \<in> set (pending s0)"
    and fn: "a_fn (acts s0 ! a) = Attach h b" and r: "running a (log_exec a s0)"
  shows "h < length (futs (log_exec a s0))" "free (log_exec a s0) b"
    "running a (pushed h b (log_exec a s0))" "ext (log_exec a s0) (pushed h b (log_exec a s0))"
proof -
  let ?s = "log_exec a s0"
  note pa = inv_pending [OF i a]
  have al: "a < length (acts ?s)" using pa(1) by simp
  have on: "isOnEventLoopThread ?s" and ri: "inv [a] ?s" using r by (simp_all add: running_def)
  show h: "h < length (futs ?s)" using inv_action(2) [OF i pa(1)] fn by simp
  show b: "free ?s b" using inv_log_exec(2) [OF i a fn] .
  obtain n where n: "a_fn (acts s0 ! b) = UserFn n"
    using o pa(1) fn unfolding own_def own_attach_def by blast
  show e: "ext ?s (pushed h b ?s)" by (rule ext_pushed [OF h b])
  have "own (pushed h b ?s)"
    using r n by (intro own_pushed [OF ri _ h b]) (auto simp: running_def rej_act_def)
  moreover have "reserved (a_future (acts ?s ! a)) (pushed h b ?s)"
    using r by (intro reserved_pushed [OF _ b]) (simp add: running_def)
  ultimately show "running a (pushed h b ?s)"
    using inv_pushed [OF ri h b] running_keeps_action [OF e al] isOn_ext [OF e] on
    by (simp add: running_def)
qed

lemma callFn_turn:
  assumes i: "inv [] s0" and o: "own s0" and a: "a \<in> set (pending s0)"
    and r: "running a (log_exec a s0)"
    and k: "a_kind (acts s0 ! a) = KThen \<and> x = ArgValue v \<or> a_kind (acts s0 ! a) = KFinally"
    and run: "callFn E a x (log_exec a s0) = (q, t)" "ok q"
  shows "turn_ok q t"
proof -
  let ?s = "log_exec a s0"
  note pa = inv_pending [OF i a]
  have al: "a < length (acts ?s)" using pa(1) by simp
  have on: "isOnEventLoopThread ?s" and ri: "inv [a] ?s" using r by (simp_all add: running_def)
  show ?thesis
  proof (cases "a_fn (acts s0 ! a)")
    case (UserFn n)
    then show ?thesis using callFn_user_turn [OF r _ run] by simp
  next
    case (FwdResolve g)
    then have "a_kind (acts s0 ! a) = KThen"
      using own_resD(2) [OF o, of g a] pa(1) by (simp add: res_act_def)
    with k have x: "x = ArgValue v" by simp
    note fr = fwd_resolve_running [OF i o a FwdResolve r]
    have g: "g < length (futs ?s)" "unsettled ?s g" using fr by (simp_all add: unsettled_def)
    from settle_run [OF ri g on, of E "RValue v"] show ?thesis
    proof
      assume "resolver_resolve_future E (RValue v) g ?s = (Inr (), settle g (RValue v) ?s)"
      then have c: "call_fn E (a_fn (acts ?s ! a)) x ?s = (Inr (Return Void), settle g (RValue v) ?s)"
        using FwdResolve x by (simp add: thenM_def bindM_def retM_def)
      have "ext ?s (settle g (RValue v) ?s)"
        using ext_settle [OF ri g(1)] g(2) by (simp add: unsettled_def)
      from lib_fn_turn [OF fr(1) this al c run] show ?thesis .
    next
      assume no: "\<not> ok (fst (resolver_resolve_future E (RValue v) g ?s))"
      obtain e u where "future_resolve E g v ?s = (Inl e, u)" "\<not> ok (Inl e :: exn + unit)"
        using no by (cases "future_resolve E g v ?s"; cases "fst (future_resolve E g v ?s)") auto
      then have "call_fn E (a_fn (acts ?s ! a)) x ?s = (Inl e, u)"
        using FwdResolve x by (simp add: thenM_def bindM_def)
      from bad_call_fn [OF this _ run] \<open>\<not> ok (Inl e :: exn + unit)\<close> show ?thesis by simp
    qed
  next
    case (FwdReject g)
    then have "a_kind (acts s0 ! a) = KError"
      using own_rejD(2) [OF o, of g a] pa(1) by (simp add: rej_act_def)
    with k show ?thesis by simp
  next
    case (Attach h b)
    note at = attach_running [OF i o a Attach r]
    obtain q1 u where p: "push_action E h b ?s = (q1, u)" by (cases "push_action E h b ?s")
    show ?thesis
    proof (cases "ok q1")
      case True
      from push_action_run(1) [OF ri at(1,2) p True] p Attach
      have c: "call_fn E (a_fn (acts ?s ! a)) x ?s = (Inr (Return Void), pushed h b ?s)"
        by (simp add: thenM_def bindM_def retM_def)
      from lib_fn_turn [OF at(3,4) al c run] show ?thesis .
    next
      case False
      then obtain e where e: "q1 = Inl e" by (cases q1) auto
      with p Attach have "call_fn E (a_fn (acts ?s ! a)) x ?s = (Inl e, u)"
        by (simp add: thenM_def bindM_def)
      from bad_call_fn [OF this _ run] False e show ?thesis by simp
    qed
  qed
qed

lemma callFn_error_turn:
  assumes i: "inv [] s0" and o: "own s0" and a: "a \<in> set (pending s0)"
    and r: "running a (log_exec a s0)" and k: "a_kind (acts s0 ! a) = KError"
    and e: "a_resolver (acts s0 ! a) = Some (RError e)"
    and run: "callFn_error E a e (log_exec a s0) = (q, t)" "ok q"
  shows "turn_ok q t"
proof -
  let ?s = "log_exec a s0" and ?f = "a_future (acts s0 ! a)"
  note pa = inv_pending [OF i a]
  have al: "a < length (acts ?s)" using pa(1) by simp
  have on: "isOnEventLoopThread ?s" and ri: "inv [a] ?s" using r by (simp_all add: running_def)
  have c: "catchFuture (bindM (call_error_fn E (a_fn (acts s0 ! a)) e) (future_resolve E ?f))
      (\<lambda>e'. future_reject E ?f e') ?s = (q, t)"
    using run(1) by (simp add: callFn_error_eq Let_def)
  show ?thesis
  proof (cases "a_fn (acts s0 ! a)")
    case (UserFn n)
    then show ?thesis using callFn_error_user_turn [OF r _ run] by simp
  next
    case (FwdReject g)
    note fr = fwd_reject_running [OF i o a FwdReject r e]
    have g: "g < length (futs ?s)" "unsettled ?s g" using fr by (simp_all add: unsettled_def)
    have ex: "ext ?s (settle g (RError e) ?s)"
      using ext_settle [OF ri g(1)] g(2) by (simp add: unsettled_def)
    from settle_run [OF ri g on, of E "RError e"] show ?thesis
    proof
      assume "resolver_resolve_future E (RError e) g ?s = (Inr (), settle g (RError e) ?s)"
      then have "catchFuture (future_resolve E ?f Void)
          (\<lambda>e'. future_reject E ?f e') (settle g (RError e) ?s) = (q, t)"
        using c FwdReject
        by (simp add: catchFuture_def bindM_def thenM_def retM_def)
      then show ?thesis
      proof (cases rule: catch_cases)
        case (1 e' u)
        then have "turn_ok (Inl (FutureExn e')) u"
          using settle_own_turn [OF fr(1) [where e' = e], of "RValue Void" E] running_keeps_action(1) [OF ex al]
          by simp
        then show ?thesis by (simp add: turn_ok_def)
      next
        case 2
        then show ?thesis
          using settle_own_turn [OF fr(1) [where e' = e], of "RValue Void" E] running_keeps_action(1) [OF ex al]
            run(2) by simp
      qed
    next
      assume no: "\<not> ok (fst (resolver_resolve_future E (RError e) g ?s))"
      then obtain x u where x: "future_reject E g e ?s = (Inl x, u)" "\<not> (\<exists>m. x = FutureExn m)"
        by (cases "future_reject E g e ?s"; cases "fst (future_reject E g e ?s)") auto
      then have "q = Inl x"
        using c FwdReject
        by (auto simp: catchFuture_def bindM_def thenM_def split: exn.splits)
      then show ?thesis using x(2) run(2) by simp
    qed
  next
    case (FwdResolve g)
    then have "a_kind (acts s0 ! a) = KThen"
      using own_resD(2) [OF o, of g a] pa(1) by (simp add: res_act_def)
    with k show ?thesis by simp
  next
    case (Attach h b)
    then have "a_kind (acts s0 ! a) = KThen" using o pa(1) by (simp add: own_def own_attach_def)
    with k show ?thesis by simp
  qed
qed

lemma executeAsync_turn:
  assumes i: "inv [] s" and o: "own s" and a: "a \<in> set (pending s)" and on: "isOnEventLoopThread s"
    and run: "executeAsync E a (log_exec a s) = (q, t)" "ok q"
  shows "turn_ok q t"
proof -
  let ?s = "log_exec a s"
  note pa = inv_pending [OF i a]
  have r: "running a ?s" by (rule running_log_exec [OF i o a on])
  obtain x where x: "a_resolver (acts s ! a) = Some x" using pa(2) by (auto simp: active_def)
  have own_fut: "turn_ok q t"
    if s: "resolver_resolve_future E y (a_future (acts ?s ! a)) ?s = (q, t)" for y
  proof (rule settle_own_turn [OF r _ s run(2)])
    fix g assume "a_fn (acts ?s ! a) = FwdResolve g"
    then have "res_act s g a" using pa(1) by (simp add: res_act_def)
    then show "unsettled ?s g" using own_resD(4) [OF o] pa(3) by (simp add: unsettled_def)
  qed
  show ?thesis
  proof (cases x)
    case (RValue v)
    then have "resolveCb E a v ?s = (q, t)" using run(1) x by (simp add: executeAsync_def)
    then show ?thesis
      using callFn_turn [OF i o a r _ _ run(2), of _ v] own_fut [of "RValue v"]
      by (auto simp: resolveCb_def split: akind.splits)
  next
    case (RError e)
    then have "rejectCb E a e ?s = (q, t)" using run(1) x by (simp add: executeAsync_def)
    then show ?thesis
      using callFn_turn [OF i o a r _ _ run(2)] own_fut [of "RError e"]
        callFn_error_turn [OF i o a r _ _ _ run(2), of e E] x RError
      by (auto simp: rejectCb_def split: akind.splits)
  qed
qed

end
