(* ===== verification/UriTemplate.thy ===== *)
theory UriTemplate
  imports Prelude
begin

text \<open>
  URI templates: \<open>UriTemplate\<close>, \<open>UriTemplateFormat\<close> and \<open>UriTemplateValue\<close>
  (\<open>src/UriTemplate.cpp\<close>, \<open>src/UriTemplateFormat.cpp\<close>, \<open>src/UriTemplateValue.cpp\<close>).
  The four constant regular expressions of the parser are written out as scanners. The
  patterns a template is compiled to are given to the configured regular expression
  library, which is a parameter: \<open>match p a s\<close> is the list of the groups of the match of
  pattern \<open>p\<close> with anchoring \<open>a\<close> on \<open>s\<close>, group 0 first, or \<open>None\<close>.
\<close>

section \<open>Extracted values\<close>

datatype uval = UVal (v_name: string) (v_value: string) (v_children: "(string, uval) omap")

definition empty_value :: uval where
  "empty_value = UVal [] [] []"

definition child :: "string \<Rightarrow> uval \<Rightarrow> uval option" where
  "child n v = omap_find (<) n (v_children v)"

definition set_child :: "string \<Rightarrow> uval \<Rightarrow> uval \<Rightarrow> uval" where
  "set_child n c v = UVal (v_name v) (v_value v) (omap_set (<) n c (v_children v))"

definition setString :: "string \<Rightarrow> uval \<Rightarrow> uval" where
  "setString x v = UVal (v_name v) x (v_children v)"

text \<open>\<open>operator[]\<close>.\<close>

definition getChild :: "string \<Rightarrow> uval \<Rightarrow> exn + uval" where
  "getChild n v = (case child n v of None \<Rightarrow> Inl (AssertExn ''0'') | Some c \<Rightarrow> Inr c)"

definition addChild :: "string \<Rightarrow> string \<Rightarrow> bool \<Rightarrow> (uval, unit) M" where
  "addChild n x replaceIfExists v =
     (case child n v of
        None \<Rightarrow> (Inr (), set_child n (UVal n x []) v)
      | Some c \<Rightarrow> if replaceIfExists then (Inr (), set_child n (setString x c) v)
          else (Inl (AssertExn ''0''), v))"

definition renameChild :: "string \<Rightarrow> string \<Rightarrow> uval \<Rightarrow> bool \<times> uval" where
  "renameChild oldName newName v =
     (case child oldName v of
        None \<Rightarrow> (False, v)
      | Some c \<Rightarrow>
          (case child oldName v of
             Some c' \<Rightarrow> (False, v)
           | None \<Rightarrow> (True, UVal (v_name v) (v_value v)
               (omap_erase (<) oldName
                 (if omap_find (<) newName (v_children v) = None
                  then omap_set (<) newName c (v_children v) else v_children v)))))"

definition removeChild :: "string \<Rightarrow> uval \<Rightarrow> bool \<times> uval" where
  "removeChild n v =
     (case child n v of None \<Rightarrow> (False, v)
      | Some c \<Rightarrow> (True, UVal (v_name v) (v_value v) (omap_erase (<) n (v_children v))))"

section \<open>Scanning a template\<close>

definition isNameStart :: "char \<Rightarrow> bool" where
  "isNameStart c \<longleftrightarrow> (CHR ''a'' \<le> c \<and> c \<le> CHR ''z'') \<or> (CHR ''A'' \<le> c \<and> c \<le> CHR ''Z'') \<or> c = CHR ''_''"

text \<open>\<open>^([a-zA-Z_][^/]*)\<close>: the name and what follows it.\<close>

definition paramSimpleEnd :: "string \<Rightarrow> (string \<times> string) option" where
  "paramSimpleEnd s =
     (case s of [] \<Rightarrow> None
      | c # r \<Rightarrow> if isNameStart c
          then Some (c # takeWhile (\<lambda>x. x \<noteq> CHR ''/'') r, dropWhile (\<lambda>x. x \<noteq> CHR ''/'') r) else None)"

text \<open>\<open>^([a-zA-Z_][^}]*)}\<close>: what stands before the closing brace and what follows it.\<close>

definition paramEnd :: "string \<Rightarrow> (string \<times> string) option" where
  "paramEnd s =
     (case s of [] \<Rightarrow> None
      | c # r \<Rightarrow> if isNameStart c
          then (case dropWhile (\<lambda>x. x \<noteq> CHR ''}'') r of [] \<Rightarrow> None
                | b # r' \<Rightarrow> Some (c # takeWhile (\<lambda>x. x \<noteq> CHR ''}'') r, r'))
          else None)"

text \<open>\<open>([^:]+):\<close> on the text between the braces, which starts with a letter or \<open>_\<close>.\<close>

definition paramNameEnd :: "string \<Rightarrow> string \<times> string" where
  "paramNameEnd nf =
     (case dropWhile (\<lambda>x. x \<noteq> CHR '':'') nf of [] \<Rightarrow> (nf, [])
      | c # f \<Rightarrow> (takeWhile (\<lambda>x. x \<noteq> CHR '':'') nf, f))"

definition notStart :: "char \<Rightarrow> bool" where
  "notStart c \<longleftrightarrow> c \<noteq> CHR ''{'' \<and> c \<noteq> CHR '':''"

text \<open>
  \<open>getNextParameter\<close>: the text before the parameter, its name, its format, and the rest.
  \<open>acc\<close> is what was passed over since the iterator \<open>iBegin\<close>. A colon starts a parameter
  only at the place where the search began or after a slash.
\<close>

function getNextParameter ::
  "string \<Rightarrow> string \<Rightarrow> (string \<times> string \<times> string \<times> string) option" where
  "getNextParameter acc s =
     (let pre = takeWhile notStart s; acc' = acc @ pre in
      case dropWhile notStart s of
        [] \<Rightarrow> None
      | c # r \<Rightarrow>
          if c = CHR '':'' then
            (if pre = [] \<or> last acc' = CHR ''/''
             then (case paramSimpleEnd r of None \<Rightarrow> None
                   | Some (name, r') \<Rightarrow> Some (acc', name, [], r'))
             else getNextParameter (acc' @ [c]) r)
          else
            (case paramEnd r of
               Some (nf, r') \<Rightarrow> Some (acc', fst (paramNameEnd nf), snd (paramNameEnd nf), r')
             | None \<Rightarrow> getNextParameter (acc' @ [c]) r))"
  by pat_completeness auto

termination
proof (relation "measure (\<lambda>(t, s). length s)", goal_cases)
  case 1
  then show ?case by simp
next
  case (2 acc s x xa x21 x22)
  then show ?case
    using takeWhile_dropWhile_id_len [of notStart s] by simp
next
  case (3 acc s x xa x21 x22)
  then show ?case
    using takeWhile_dropWhile_id_len [of notStart s] by simp
qed

declare getNextParameter.simps [simp del]

text \<open>\<open>\([^?][^)]+\)\<close> somewhere in the pattern.\<close>

fun containCapturingGroup :: "string \<Rightarrow> bool" where
  "containCapturingGroup [] = False"
| "containCapturingGroup (c # s) =
     ((c = CHR ''('' \<and>
       (case s of [] \<Rightarrow> False
        | d # r \<Rightarrow> d \<noteq> CHR ''?'' \<and> takeWhile (\<lambda>x. x \<noteq> CHR '')'') r \<noteq> [] \<and>
            dropWhile (\<lambda>x. x \<noteq> CHR '')'') r \<noteq> []))
      \<or> containCapturingGroup s)"

section \<open>Templates and formats\<close>

record uri_template =
  u_template :: string
  u_matchPattern :: string
  u_extractPattern :: string
  u_params :: "string list"
  u_formatNames :: "string list"

type_synonym formats = "(string \<times> uri_template) list"

definition getPattern :: "bool \<Rightarrow> bool \<Rightarrow> uri_template \<Rightarrow> string" where
  "getPattern forExtraction addEndAnchor t =
     (if forExtraction then u_extractPattern t else u_matchPattern t) @
     (if addEndAnchor then ''$'' else [])"

definition isRegExOnly :: "uri_template \<Rightarrow> bool" where
  "isRegExOnly t \<longleftrightarrow> u_params t = []"

definition format_getPattern :: "bool \<Rightarrow> uri_template \<Rightarrow> string" where
  "format_getPattern forExtraction t =
     (if forExtraction then ''('' else []) @ getPattern forExtraction False t @
     (if forExtraction then '')'' else [])"

definition simpleFormat :: uri_template where
  "simpleFormat = \<lparr>u_template = ''[^/]+'', u_matchPattern = ''[^/]+'',
     u_extractPattern = ''[^/]+'', u_params = [], u_formatNames = []\<rparr>"

definition GetGlobalFormat :: "formats \<Rightarrow> string \<Rightarrow> exn + uri_template" where
  "GetGlobalFormat F n = (case map_of F n of None \<Rightarrow> Inl (AssertExn ''0'') | Some t \<Rightarrow> Inr t)"

definition format_of :: "formats \<Rightarrow> string \<Rightarrow> exn + uri_template" where
  "format_of F n = (if n = [] then Inr simpleFormat else GetGlobalFormat F n)"

text \<open>The loop of \<open>UriTemplate::parse\<close>, over what is left of the template.\<close>

lemma getNextParameter_shorter:
  "getNextParameter acc s = Some (t, n, f, r) \<Longrightarrow> length r < length s"
proof (induction acc s arbitrary: t n f r rule: getNextParameter.induct)
  case (1 acc s)
  have len: "length (takeWhile notStart s) + length (dropWhile notStart s) = length s"
    by (rule takeWhile_dropWhile_id_len)
  show ?case
  proof (cases "dropWhile notStart s")
    case Nil
    then show ?thesis
      using "1.prems" by (simp add: getNextParameter.simps [of acc s] del: dropWhile_eq_Nil_conv)
  next
    case (Cons c q)
    have simple: "length r' < length q" if "paramSimpleEnd q = Some (n', r')" for n' r'
      using that length_dropWhile_le [of "\<lambda>x. x \<noteq> CHR ''/''" "tl q"]
      by (auto simp: paramSimpleEnd_def split: list.splits if_splits)
    have brace: "length r' < length q" if pe: "paramEnd q = Some (n', r')" for n' r'
    proof -
      obtain c' q' where q: "q = c' # q'" using pe by (cases q) (simp_all add: paramEnd_def)
      obtain b where "dropWhile (\<lambda>x. x \<noteq> CHR ''}'') q' = b # r'"
        using pe unfolding paramEnd_def q list.case
        by (cases "isNameStart c'") (cases "dropWhile (\<lambda>x. x \<noteq> CHR ''}'') q'", simp_all)
      then have "length (b # r') \<le> length q'" by (metis length_dropWhile_le)
      with q show ?thesis by simp
    qed
    show ?thesis
      using "1.prems" "1.IH" [OF refl refl Cons] Cons len simple brace
      by (auto simp: getNextParameter.simps [of acc s] Let_def less_Suc_eq
          split: if_splits option.splits dest!: simple brace)
  qed
qed

text \<open>
  \<open>UriTemplate::parse\<close>. The record holds what the loop has built so far; \<open>uniqParams\<close> is
  the set of its parameters.
\<close>

function parse_loop :: "formats \<Rightarrow> string \<Rightarrow> uri_template \<Rightarrow> exn + uri_template" where
  "parse_loop F s t =
     (case getNextParameter [] s of
        None \<Rightarrow> Inr (t\<lparr>u_matchPattern := u_matchPattern t @ s,
                       u_extractPattern := u_extractPattern t @ s\<rparr>)
      | Some (pre, name, fmt, r) \<Rightarrow>
          if name \<in> set (u_params t) then Inl (AssertExn ''0'')
          else (case format_of F fmt of Inl e \<Rightarrow> Inl e
                | Inr g \<Rightarrow> parse_loop F r
                    (t\<lparr>u_matchPattern := u_matchPattern t @ pre @ format_getPattern False g,
                       u_extractPattern := u_extractPattern t @ pre @ format_getPattern True g,
                       u_params := u_params t @ [name],
                       u_formatNames := u_formatNames t @ [fmt]\<rparr>)))"
  by pat_completeness auto

termination
  by (relation "measure (\<lambda>(F, s, t). length s)") (auto dest: getNextParameter_shorter)

declare parse_loop.simps [simp del]

definition parse :: "formats \<Rightarrow> string \<Rightarrow> exn + uri_template" where
  "parse F tmpl =
     (if containCapturingGroup tmpl then Inl (AssertExn ''!ContainCapturingGroup(_template)'')
      else parse_loop F tmpl \<lparr>u_template = tmpl, u_matchPattern = [], u_extractPattern = [],
             u_params = [], u_formatNames = []\<rparr>)"

text \<open>The constructor that appends a suffix to the text of another template.\<close>

definition UriTemplate_suffix :: "formats \<Rightarrow> uri_template \<Rightarrow> string \<Rightarrow> exn + uri_template" where
  "UriTemplate_suffix F base suffix = parse F (u_template base @ suffix)"

text \<open>The table of the global formats; a format is looked up by its name and never changed.\<close>

definition AddGlobalFormat :: "string \<Rightarrow> string \<Rightarrow> (formats, unit) M" where
  "AddGlobalFormat n tmpl F =
     (if map_of F n \<noteq> None then (Inl (AssertExn ''0''), F)
      else (case parse F tmpl of Inl e \<Rightarrow> (Inl e, F) | Inr t \<Rightarrow> (Inr (), (n, t) # F)))"

definition ClearGlobalFormats :: "(formats, unit) M" where
  "ClearGlobalFormats F = (Inr (), [])"

section \<open>Extraction\<close>

datatype anchor = ANCHOR_BOTH | ANCHOR_START | UNANCHORED

type_synonym regex_lib = "string \<Rightarrow> anchor \<Rightarrow> string \<Rightarrow> string list option"

definition smatch_str :: "string list \<Rightarrow> nat \<Rightarrow> string" where
  "smatch_str g i = (if i < length g then g ! i else [])"

text \<open>
  \<open>saveValues\<close>, with the position in the groups as part of the state. \<open>n\<close> bounds the depth
  of the recursion through the formats; the table's size is enough.
\<close>

function saveValues :: "nat \<Rightarrow> formats \<Rightarrow> string list \<Rightarrow> string list \<Rightarrow> string list \<Rightarrow>
    (uval \<times> nat, unit) M"
  and saveLoop :: "nat \<Rightarrow> formats \<Rightarrow> string list \<Rightarrow> (string \<times> string) list \<Rightarrow> (uval \<times> nat, unit) M"
where
  "saveValues n F g ps fs (v, pos) =
     (if length ps \<noteq> length fs
      then (Inl (AssertExn ''iParams.size() == iFormatNames.size()''), (v, pos))
      else if int (length g) - int pos < int (length ps)
      then (Inl (AssertExn ''iMatchResults->size() - ioPosition >= iParams.size()''), (v, pos))
      else saveLoop n F g (zip ps fs) (v, pos))"
| "saveLoop n F g [] (v, pos) = (Inr (), (v, pos))"
| "saveLoop n F g ((name, fmt) # pfs) (v, pos) =
     (case addChild name (smatch_str g pos) False v of
        (Inl e, v') \<Rightarrow> (Inl e, (v', pos + 1))
      | (Inr _, v') \<Rightarrow>
         (case format_of F fmt of
            Inl e \<Rightarrow> (Inl e, (v', pos + 1))
          | Inr t \<Rightarrow>
              if isRegExOnly t then saveLoop n F g pfs (v', pos + 1)
              else (case n of
                 0 \<Rightarrow> (Inl (NativeExn ''depth''), (v', pos + 1))
               | Suc m \<Rightarrow>
                  (case saveValues m F g (u_params t) (u_formatNames t)
                          (UVal name (smatch_str g pos) [], pos + 1) of
                     (r, (c, pos')) \<Rightarrow>
                       (case r of Inl e \<Rightarrow> (Inl e, (set_child name c v', pos'))
                        | Inr _ \<Rightarrow> saveLoop n F g pfs (set_child name c v', pos'))))))"
  by pat_completeness auto

termination
  by (relation "measures [\<lambda>x. case x of Inl (n, _) \<Rightarrow> n | Inr (n, _) \<Rightarrow> n,
        \<lambda>x. case x of Inl _ \<Rightarrow> 1 | Inr _ \<Rightarrow> 0,
        \<lambda>x. case x of Inl _ \<Rightarrow> 0 | Inr (n, F, g, pfs, s) \<Rightarrow> length pfs]") auto

declare saveValues.simps [simp del] saveLoop.simps [simp del]

definition extractAndSaveValues ::
  "regex_lib \<Rightarrow> formats \<Rightarrow> uri_template \<Rightarrow> string \<Rightarrow> bool \<Rightarrow> (uval, bool) M" where
  "extractAndSaveValues rx F t uri anchorEnd v =
     (case rx (u_extractPattern t) (if anchorEnd then ANCHOR_BOTH else ANCHOR_START) uri of
        None \<Rightarrow> (Inr False, v)
      | Some g \<Rightarrow>
          (case saveValues (length F) F g (u_params t) (u_formatNames t)
                  (setString (smatch_str g 0) v, 1) of
             (Inl e, (v', _)) \<Rightarrow> (Inl e, v')
           | (Inr _, (v', _)) \<Rightarrow> (Inr True, v')))"

definition extract_uri ::
  "regex_lib \<Rightarrow> formats \<Rightarrow> uri_template \<Rightarrow> string \<Rightarrow> bool \<Rightarrow> (uval, bool) M" where
  "extract_uri = extractAndSaveValues"

section \<open>The table of formats\<close>

definition template_ok :: "formats \<Rightarrow> uri_template \<Rightarrow> bool" where
  "template_ok F t \<longleftrightarrow> distinct (u_params t) \<and> length (u_params t) = length (u_formatNames t) \<and>
     set (u_formatNames t) \<subseteq> insert [] (fst ` set F)"

text \<open>Every format of the table refers to formats that were added before it.\<close>

fun formats_ok :: "formats \<Rightarrow> bool" where
  "formats_ok [] = True"
| "formats_ok ((n, t) # F) = (n \<notin> fst ` set F \<and> template_ok F t \<and> formats_ok F)"

lemma map_of_in: "map_of F n = Some t \<Longrightarrow> n \<in> fst ` set F"
  by (force dest: map_of_SomeD)

lemma format_of_Inr: "format_of F f = Inr g \<Longrightarrow> f \<in> insert [] (fst ` set F)"
  by (auto simp: format_of_def GetGlobalFormat_def dest: map_of_in split: option.splits if_splits)

lemma parse_loop_ok:
  "parse_loop F s t = Inr u \<Longrightarrow> template_ok F t \<Longrightarrow>
     template_ok F u \<and> u_template u = u_template t"
proof (induction F s t arbitrary: u rule: parse_loop.induct)
  case (1 F s t)
  show ?case
  proof (cases "getNextParameter [] s")
    case None
    then show ?thesis
      using "1.prems" by (auto simp: parse_loop.simps [of F s t] template_ok_def)
  next
    case (Some x)
    obtain pre name fmt r where x: "x = (pre, name, fmt, r)" by (cases x)
    have nn: "name \<notin> set (u_params t)"
      using "1.prems"(1) Some x by (auto simp: parse_loop.simps [of F s t] split: if_splits)
    then obtain g where g: "format_of F fmt = Inr g"
      using "1.prems"(1) Some x by (cases "format_of F fmt") (auto simp: parse_loop.simps [of F s t])
    let ?t = "t\<lparr>u_matchPattern := u_matchPattern t @ pre @ format_getPattern False g,
                 u_extractPattern := u_extractPattern t @ pre @ format_getPattern True g,
                 u_params := u_params t @ [name], u_formatNames := u_formatNames t @ [fmt]\<rparr>"
    have eq: "parse_loop F s t = parse_loop F r ?t"
      using Some x nn g by (simp add: parse_loop.simps [of F s t])
    have "template_ok F ?t"
      using "1.prems"(2) nn format_of_Inr [OF g] by (auto simp: template_ok_def)
    from "1.IH" [OF Some [unfolded x] refl refl refl nn g _ this] "1.prems"(1) eq
    show ?thesis by simp
  qed
qed

lemma parse_ok: "parse F s = Inr t \<Longrightarrow> template_ok F t \<and> u_template t = s"
  unfolding parse_def by (auto split: if_splits dest!: parse_loop_ok simp: template_ok_def)

lemma AddGlobalFormat_ok: "formats_ok F \<Longrightarrow> formats_ok (snd (AddGlobalFormat n s F))"
  using parse_ok by (auto simp: AddGlobalFormat_def map_of_eq_None_iff split: sum.splits)

text \<open>C38. A template that was accepted is well formed: its parameter names are distinct, each
has one format name, every named format is in the table, and the text is kept.\<close>

theorem parse_wellformed:
  assumes "parse F s = Inr t"
  shows "distinct (u_params t) \<and> length (u_formatNames t) = length (u_params t) \<and>
    (\<forall>f \<in> set (u_formatNames t). f = [] \<or> (\<exists>g. map_of F f = Some g)) \<and> u_template t = s"
proof -
  have "\<exists>g. map_of F f = Some g" if "f \<in> fst ` set F" for f
    using that by (metis map_of_eq_None_iff not_None_eq)
  moreover have "f = [] \<or> f \<in> fst ` set F" if "f \<in> set (u_formatNames t)" for f
    using parse_ok [OF assms] that by (auto simp: template_ok_def)
  ultimately show ?thesis
    using parse_ok [OF assms] unfolding template_ok_def by metis
qed

lemma parse_example:
  "parse [] ''a/{x}'' = Inr \<lparr>u_template = ''a/{x}'', u_matchPattern = ''a/[^/]+'',
     u_extractPattern = ''a/([^/]+)'', u_params = [''x''], u_formatNames = [[]]\<rparr>"
  by (simp add: parse_def parse_loop.simps getNextParameter.simps notStart_def paramEnd_def
      isNameStart_def paramNameEnd_def format_of_def simpleFormat_def format_getPattern_def
      getPattern_def)

theorem parse_wellformed_witness:
  "\<exists>t. parse [] ''a/{x}'' = Inr t \<and> distinct (u_params t) \<and> u_formatNames t = [[]]"
  using parse_wellformed [OF parse_example] by (simp add: parse_example)

text \<open>Adding a global format never changes what a name that is already in the table means;
a name that is taken is refused and the table stays as it was.\<close>

lemma AddGlobalFormat_keeps:
  assumes "map_of F m = Some t"
  shows "map_of (snd (AddGlobalFormat n s F)) m = Some t \<and>
    AddGlobalFormat m s F = (Inl (AssertExn ''0''), F)"
  using assms by (auto simp: AddGlobalFormat_def split: sum.splits)

lemma AddGlobalFormat_keeps_example:
  "map_of (snd (AddGlobalFormat ''g'' ''b'' [(''f'', simpleFormat)])) ''f'' = Some simpleFormat"
  using AddGlobalFormat_keeps [of "[(''f'', simpleFormat)]" "''f''" simpleFormat "''g''" "''b''"]
  by simp

section \<open>Extraction puts the groups where they belong\<close>

text \<open>The number of groups a list of format names takes, nested formats included.\<close>

fun slots :: "nat \<Rightarrow> formats \<Rightarrow> string list \<Rightarrow> nat" where
  "slots n F [] = 0"
| "slots n F (f # fs) =
     1 + (case format_of F f of Inl _ \<Rightarrow> 0
          | Inr t \<Rightarrow> if isRegExOnly t then 0
              else (case n of 0 \<Rightarrow> 0 | Suc m \<Rightarrow> slots m F (u_formatNames t))) + slots n F fs"

text \<open>Reading the extracted values back, in the order of the template.\<close>

fun leaves :: "nat \<Rightarrow> formats \<Rightarrow> (string \<times> string) list \<Rightarrow> uval \<Rightarrow> string list" where
  "leaves n F [] v = []"
| "leaves n F ((name, f) # pfs) v =
     (case child name v of None \<Rightarrow> []
      | Some c \<Rightarrow> v_value c #
          (case format_of F f of Inl _ \<Rightarrow> []
           | Inr t \<Rightarrow> if isRegExOnly t then []
               else (case n of 0 \<Rightarrow> [] | Suc m \<Rightarrow> leaves m F (zip (u_params t) (u_formatNames t)) c)))
     @ leaves n F pfs v"

lemma child_set_child [simp]:
  "child m (set_child n c v) = (if m = n then Some c else child m v)"
  by (simp add: child_def set_child_def str_keys.find_set_same str_keys.find_set_other)

lemma value_set_child [simp]: "v_value (set_child n c v) = v_value v"
  by (simp add: set_child_def)

lemma addChild_new: "child n v = None \<Longrightarrow> addChild n x b v = (Inr (), set_child n (UVal n x []) v)"
  by (simp add: addChild_def)

lemma set_child_twice [simp]: "child m (set_child n c (set_child n d v)) = child m (set_child n c v)"
  by simp

lemma leaves_cong:
  "(\<And>name. name \<in> fst ` set pfs \<Longrightarrow> child name v = child name w) \<Longrightarrow>
     leaves n F pfs v = leaves n F pfs w"
proof (induction pfs)
  case (Cons a pfs)
  obtain name f where a: "a = (name, f)" by (cases a)
  have "child name v = child name w" using Cons.prems a by simp
  moreover have "leaves n F pfs v = leaves n F pfs w" using Cons by simp
  ultimately show ?case by (simp only: a leaves.simps)
qed simp

lemma formats_ok_suffix:
  "formats_ok (G @ F) \<Longrightarrow> formats_ok F \<and> (\<forall>f \<in> fst ` set F. map_of (G @ F) f = map_of F f)"
proof (induction G)
  case (Cons a G)
  obtain n t where a: "a = (n, t)" by (cases a)
  with Cons show ?case by auto
qed simp

lemma format_split:
  assumes "formats_ok F" "map_of F f = Some t"
  obtains G H where "F = G @ (f, t) # H" "template_ok H t"
proof -
  have "\<exists>G H. F = G @ (f, t) # H \<and> template_ok H t"
    using assms
  proof (induction F)
    case (Cons a F)
    obtain n u where a: "a = (n, u)" by (cases a)
    show ?case
    proof (cases "n = f")
      case True
      then show ?thesis using Cons.prems a by (intro exI [of _ "[]"] exI [of _ F]) simp
    next
      case False
      then obtain G H where "F = G @ (f, t) # H" "template_ok H t"
        using Cons a by auto
      then show ?thesis by (intro exI [of _ "a # G"] exI [of _ H]) simp
    qed
  qed simp
  with that show ?thesis by blast
qed

definition refers :: "formats \<Rightarrow> string list \<Rightarrow> bool" where
  "refers H fs \<longleftrightarrow> set fs \<subseteq> insert [] (fst ` set H)"

text \<open>What a format name stands for, and the formats its own template refers to.\<close>

lemma format_cases:
  assumes F: "formats_ok (G @ H)" and f: "refers H [f]"
  obtains t where "format_of (G @ H) f = Inr t" "isRegExOnly t"
  | t G' H' where "format_of (G @ H) f = Inr t" "\<not> isRegExOnly t" "G @ H = G' @ H'"
      "length H' < length H" "distinct (u_params t)" "length (u_params t) = length (u_formatNames t)"
      "refers H' (u_formatNames t)"
proof (cases "f = []")
  case True
  then show ?thesis
    using that(1) [of simpleFormat] by (simp add: format_of_def simpleFormat_def isRegExOnly_def)
next
  case False
  then have "f \<in> fst ` set H" using f by (simp add: refers_def)
  then obtain t where t: "map_of H f = Some t" by (metis map_of_eq_None_iff not_None_eq)
  have "map_of (G @ H) f = Some t"
    using formats_ok_suffix [OF F] t \<open>f \<in> fst ` set H\<close> by metis
  then have fo: "format_of (G @ H) f = Inr t"
    using False by (simp add: format_of_def GetGlobalFormat_def del: map_of_append)
  obtain G1 H1 where s: "H = G1 @ (f, t) # H1" "template_ok H1 t"
    using format_split [OF _ t] formats_ok_suffix [OF F] by blast
  show ?thesis
  proof (cases "isRegExOnly t")
    case True
    with that(1) fo show ?thesis .
  next
    case False
    show ?thesis
      by (rule that(2) [OF fo False, of "G @ G1 @ [(f, t)]" H1])
        (use s in \<open>auto simp: template_ok_def refers_def\<close>)
  qed
qed

definition saved :: "nat \<Rightarrow> formats \<Rightarrow> string list \<Rightarrow> (string \<times> string) list \<Rightarrow> uval \<Rightarrow> nat \<Rightarrow> uval \<Rightarrow> bool" where
  "saved n F g pfs v pos v' \<longleftrightarrow>
     saveLoop n F g pfs (v, pos) = (Inr (), (v', pos + slots n F (map snd pfs))) \<and>
     v_value v' = v_value v \<and>
     (\<forall>name. name \<notin> fst ` set pfs \<longrightarrow> child name v' = child name v) \<and>
     leaves n F pfs v' = take (slots n F (map snd pfs)) (drop pos g)"

lemma slots_ge: "length fs \<le> slots n F fs"
  by (induction n F fs rule: slots.induct) auto

lemma take_drop_Cons: "pos < length g \<Longrightarrow> take (Suc k) (drop pos g) = g ! pos # take k (drop (Suc pos) g)"
  by (simp add: Cons_nth_drop_Suc [symmetric])

lemma take_add_drop: "take (a + b) (drop pos g) = take a (drop pos g) @ take b (drop (pos + a) g)"
  by (simp add: take_add add.commute)

lemma smatch_str_in: "i < length g \<Longrightarrow> smatch_str g i = g ! i"
  by (simp add: smatch_str_def)

lemma saveLoop_saved:
  assumes "formats_ok F" and "F = G @ H" and "length H \<le> n" and "refers H (map snd pfs)"
    and "distinct (map fst pfs)" and "\<forall>name \<in> fst ` set pfs. child name v = None"
    and "pos + slots n F (map snd pfs) \<le> length g"
  shows "\<exists>v'. saved n F g pfs v pos v'"
  using assms
proof (induction n arbitrary: G H pfs v pos rule: less_induct)
  case (less n)
  note outer = less.IH
  from less.prems show ?case
  proof (induction pfs arbitrary: v pos)
    case Nil
    then show ?case by (simp add: saved_def saveLoop.simps)
  next
    case (Cons a pfs)
    obtain name f where a: "a = (name, f)" by (cases a)
    let ?x = "smatch_str g pos"
    let ?v = "set_child name (UVal name ?x []) v"
    have pos: "pos < length g" and x: "?x = g ! pos"
      using Cons.prems(7) a by (auto simp: smatch_str_def)
    have add: "addChild name ?x False v = (Inr (), ?v)"
      using Cons.prems(6) a by (simp add: addChild_new)
    have rf: "refers H [f]" "refers H (map snd pfs)"
      using Cons.prems(4) a by (auto simp: refers_def)
    have nn: "name \<notin> fst ` set pfs" using Cons.prems(5) a by auto
    have rest: "\<exists>v'. saved n F g pfs w q v'"
      if w: "\<forall>m. m \<noteq> name \<longrightarrow> child m w = child m v"
        and q: "q + slots n F (map snd pfs) \<le> length g" for w q
    proof (rule Cons.IH [OF Cons.prems(1-3) rf(2) _ _ q])
      show "distinct (map fst pfs)" using Cons.prems(5) by simp
      show "\<forall>m \<in> fst ` set pfs. child m w = None"
      proof
        fix m assume m: "m \<in> fst ` set pfs"
        then have "m \<noteq> name" "child m v = None" using nn Cons.prems(6) by auto
        then show "child m w = None" using w by simp
      qed
    qed
    from format_cases [OF Cons.prems(1) [unfolded Cons.prems(2)] rf(1)]
    show ?case
    proof cases
      case (1 t)
      then have t: "format_of F f = Inr t" using Cons.prems(2) by simp
      have sl: "slots n F (map snd (a # pfs)) = Suc (slots n F (map snd pfs))"
        using a t 1(2) by simp
      obtain v' where v': "saved n F g pfs ?v (Suc pos) v'"
        using rest [of ?v "Suc pos"] Cons.prems(7) sl by auto
      have "saveLoop n F g (a # pfs) (v, pos) = saveLoop n F g pfs (?v, Suc pos)"
        using add t 1(2) by (simp add: a saveLoop.simps(2))
      moreover have "child name v' = Some (UVal name ?x [])"
        using v' nn by (simp add: saved_def)
      ultimately have "saved n F g (a # pfs) v pos v'"
        using v' t 1(2) a nn sl x pos by (auto simp: saved_def take_drop_Cons)
      then show ?thesis by blast
    next
      case (2 t G' H')
      then have t: "format_of F f = Inr t" and F': "F = G' @ H'" using Cons.prems(2) by simp_all
      obtain m where m: "n = Suc m" using 2(4) Cons.prems(3) by (cases n) auto
      let ?ps = "zip (u_params t) (u_formatNames t)"
      have ps: "map fst ?ps = u_params t" "map snd ?ps = u_formatNames t"
        using 2(6) by simp_all
      let ?k = "slots m F (u_formatNames t)"
      have sl: "slots n F (map snd (a # pfs)) = Suc (?k + slots n F (map snd pfs))"
        using a t 2(2) m by simp
      have fit: "Suc pos + ?k + slots n F (map snd pfs) \<le> length g"
        using Cons.prems(7) sl by simp
      have "\<exists>c. saved m F g ?ps (UVal name ?x []) (Suc pos) c"
      proof (rule outer [of m])
        show "m < n" "length H' \<le> m" using m 2(4) Cons.prems(3) by simp_all
        show "formats_ok F" "F = G' @ H'" using Cons.prems(1) F' by simp_all
        show "refers H' (map snd ?ps)" "distinct (map fst ?ps)" using 2(5,7) ps by simp_all
        show "\<forall>nm \<in> fst ` set ?ps. child nm (UVal name ?x []) = None" by (simp add: child_def)
        show "Suc pos + slots m F (map snd ?ps) \<le> length g" using fit ps by simp
      qed
      then obtain c where c: "saved m F g ?ps (UVal name ?x []) (Suc pos) c" by blast
      let ?w = "set_child name c ?v"
      obtain v' where v': "saved n F g pfs ?w (Suc pos + ?k) v'"
        using rest [of ?w "Suc pos + ?k"] fit by auto
      have "length (u_params t) \<le> ?k" using slots_ge [of "u_formatNames t" m F] 2(6) by simp
      then have "saveValues m F g (u_params t) (u_formatNames t) (UVal name ?x [], Suc pos) =
          (Inr (), (c, Suc pos + ?k))"
        using c 2(6) fit ps by (simp add: saveValues.simps saved_def)
      then have "saveLoop n F g (a # pfs) (v, pos) = saveLoop n F g pfs (?w, Suc pos + ?k)"
        using add t 2(2) m by (simp add: a saveLoop.simps(2))
      moreover have "child name v' = Some c" using v' nn by (simp add: saved_def)
      moreover have "v_value c = ?x" "leaves m F ?ps c = take ?k (drop (Suc pos) g)"
        using c ps by (simp_all add: saved_def)
      ultimately have "saved n F g (a # pfs) v pos v'"
        using v' t 2(2) a nn sl x pos m
        by (auto simp: saved_def take_drop_Cons take_add_drop)
      then show ?thesis by blast
    qed
  qed
qed

text \<open>C32. When the URI matches, every parameter of the template, and every parameter of the
formats it is built from, gets the group of the match that belongs to it: reading the
values back in the order of the template gives the groups of the match in order, and the
whole match is the value itself. No assertion fails. This holds whenever the library
returns one group per parameter of the pattern and the parameters are not already
present in the values.\<close>

theorem extract_in_order:
  assumes "formats_ok F" and "parse F s = Inr t"
    and "rx (u_extractPattern t) (if b then ANCHOR_BOTH else ANCHOR_START) uri = Some g"
    and "length g = 1 + slots (length F) F (u_formatNames t)"
    and "\<forall>name \<in> set (u_params t). child name v = None"
  shows "\<exists>v'. extract_uri rx F t uri b v = (Inr True, v') \<and> v_value v' = hd g \<and>
    leaves (length F) F (zip (u_params t) (u_formatNames t)) v' = tl g"
proof -
  let ?ps = "zip (u_params t) (u_formatNames t)" and ?v = "setString (smatch_str g 0) v"
  have ok: "distinct (u_params t)" "length (u_params t) = length (u_formatNames t)"
    "refers F (u_formatNames t)"
    using parse_ok [OF assms(2)] by (auto simp: template_ok_def refers_def)
  have ps: "map fst ?ps = u_params t" "map snd ?ps = u_formatNames t" using ok(2) by simp_all
  have new: "child name ?v = None" if "name \<in> fst ` set ?ps" for name
  proof -
    have "name \<in> set (u_params t)" using that ps(1) by (metis set_map)
    then show ?thesis using assms(5) by (simp add: child_def setString_def)
  qed
  have "\<exists>v'. saved (length F) F g ?ps ?v 1 v'"
    by (rule saveLoop_saved [OF assms(1), of "[]" F]) (use ok new assms(4) ps in simp_all)
  then obtain v' where v': "saved (length F) F g ?ps ?v 1 v'" by blast
  have "length (u_params t) \<le> slots (length F) F (u_formatNames t)"
    using slots_ge [of "u_formatNames t" "length F" F] ok(2) by simp
  then have "saveValues (length F) F g (u_params t) (u_formatNames t) (?v, 1) =
      (Inr (), (v', 1 + slots (length F) F (u_formatNames t)))"
    using v' ok(2) ps assms(4) by (simp add: saveValues.simps saved_def)
  then have "extract_uri rx F t uri b v = (Inr True, v')"
    using assms(3) by (simp add: extract_uri_def extractAndSaveValues_def)
  moreover have "v_value v' = hd g"
    using v' assms(4) by (cases g) (auto simp: saved_def setString_def smatch_str_def)
  moreover have "leaves (length F) F ?ps v' = tl g"
    using v' ps assms(4) by (cases g) (auto simp: saved_def)
  ultimately show ?thesis by blast
qed

lemmas parse_eval = parse_def parse_loop.simps getNextParameter.simps notStart_def paramEnd_def
  isNameStart_def paramNameEnd_def format_of_def simpleFormat_def format_getPattern_def
  getPattern_def GetGlobalFormat_def

definition pair_format :: uri_template where
  "pair_format = \<lparr>u_template = ''{l}-{r}'', u_matchPattern = ''[^/]+-[^/]+'',
     u_extractPattern = ''([^/]+)-([^/]+)'', u_params = [''l'', ''r''], u_formatNames = [[], []]\<rparr>"

definition pair_template :: uri_template where
  "pair_template = \<lparr>u_template = ''k/{p:pair}'', u_matchPattern = ''k/[^/]+-[^/]+'',
     u_extractPattern = ''k/(([^/]+)-([^/]+))'', u_params = [''p''], u_formatNames = [''pair'']\<rparr>"

lemma pair_parses:
  "parse [] ''{l}-{r}'' = Inr pair_format"
  "parse [(''pair'', pair_format)] ''k/{p:pair}'' = Inr pair_template"
  by (simp_all add: pair_format_def pair_template_def parse_eval)

theorem extract_in_order_witness:
  "\<exists>v'. extract_uri (\<lambda>p a u. Some [''k/1-2'', ''1-2'', ''1'', ''2'']) [(''pair'', pair_format)]
       pair_template ''k/1-2'' True empty_value = (Inr True, v') \<and> v_value v' = ''k/1-2'' \<and>
     leaves 1 [(''pair'', pair_format)] [(''p'', ''pair'')] v' = [''1-2'', ''1'', ''2'']"
proof -
  have F: "formats_ok [(''pair'', pair_format)]"
    by (simp add: template_ok_def pair_format_def)
  have n: "slots (Suc 0) [(''pair'', pair_format)] [''pair''] = 3"
    by (simp add: format_of_def GetGlobalFormat_def isRegExOnly_def pair_format_def simpleFormat_def)
  show ?thesis
    using extract_in_order [OF F pair_parses(2), of
        "\<lambda>p a u. Some [''k/1-2'', ''1-2'', ''1'', ''2'']" True "''k/1-2''" _ empty_value] n
    by (simp add: pair_template_def child_def empty_value_def)
qed

text \<open>\<open>UriTemplateValue::renameChild\<close> never renames: whatever the names and the children,
it returns false and leaves the value as it is, even when the new name is free.\<close>

lemma renameChild_never_renames:
  "renameChild oldName newName v = (False, v)"
  by (cases "child oldName v") (simp_all add: renameChild_def)

text \<open>A capturing group of one character is not recognised: such a template is accepted,
although the documentation says it must be refused.\<close>

lemma short_capturing_group_accepted:
  "containCapturingGroup ''/(ab)/{x}'' \<and> \<not> containCapturingGroup ''/(a)/{x}'' \<and>
   (\<exists>t. parse [] ''/(a)/{x}'' = Inr t \<and> u_extractPattern t = ''/(a)/([^/]+)'')"
  by (simp add: parse_eval)

end
