(* ===== verification/Headers.thy ===== *)
theory Headers
  imports Prelude
begin

text \<open>
  Text of HTTP headers: the case-insensitive order of \<open>native::text::ci_less\<close>
  (\<open>include/native/text.hpp\<close>), the header map of \<open>MessageBase\<close>
  (\<open>include/native/http/MessageBase.hpp\<close>, \<open>src/http/MessageBase.cpp\<close>), its version string and
  the texts of the status codes, and decimal numbers as an output stream writes them.
\<close>

section \<open>The case-insensitive order\<close>

text \<open>\<open>tolower\<close> in the C locale.\<close>

definition tolower :: "char \<Rightarrow> char" where
  "tolower c = (if CHR ''A'' \<le> c \<and> c \<le> CHR ''Z'' then char_of (of_char c + 32 :: nat) else c)"

definition nocase_compare :: "char \<Rightarrow> char \<Rightarrow> bool" where
  "nocase_compare c d \<longleftrightarrow> tolower c < tolower d"

text \<open>\<open>std::lexicographical_compare\<close> with \<open>nocase_compare\<close>.\<close>

fun ci_less :: "string \<Rightarrow> string \<Rightarrow> bool" where
  "ci_less s [] = False"
| "ci_less [] (d # t) = True"
| "ci_less (c # s) (d # t) =
     (if nocase_compare c d then True else if nocase_compare d c then False else ci_less s t)"

lemma ci_less_lower: "ci_less s t \<longleftrightarrow> map tolower s < map tolower t"
  by (induction s t rule: ci_less.induct) (auto simp: nocase_compare_def)

lemma ci_same: "same_key ci_less s t \<longleftrightarrow> map tolower s = map tolower t"
  by (auto simp: same_key_def ci_less_lower)

interpretation ci: key_order ci_less
  by unfold_locales (auto simp: ci_less_lower)

section \<open>Decimal numbers\<close>

definition digit :: "nat \<Rightarrow> char" where
  "digit d = char_of (48 + d)"

fun dec :: "nat \<Rightarrow> string" where
  "dec n = (if n < 10 then [digit n] else dec (n div 10) @ [digit (n mod 10)])"

declare dec.simps [simp del]

definition dec_int :: "int \<Rightarrow> string" where
  "dec_int i = (if i < 0 then CHR ''-'' # dec (nat (- i)) else dec (nat i))"

definition undec :: "string \<Rightarrow> nat" where
  "undec s = foldl (\<lambda>n c. 10 * n + (of_char c - 48)) 0 s"

lemma of_char_digit [simp]: "d < 10 \<Longrightarrow> of_char (digit d) = (48 + d :: nat)"
  by (simp add: digit_def)

lemma undec_dec: "undec (dec n) = n"
proof (induction n rule: dec.induct)
  case (1 n)
  show ?case
  proof (cases "n < 10")
    case True
    then show ?thesis by (simp add: dec.simps [of n] undec_def)
  next
    case False
    then have "undec (dec (n div 10)) = n div 10" using 1 by simp
    then show ?thesis using False by (simp add: dec.simps [of n] undec_def)
  qed
qed

lemma dec_nonempty [simp]: "dec n \<noteq> []"
  by (subst dec.simps) simp

section \<open>MessageBase\<close>

record message =
  httpMajor :: nat
  httpMinor :: nat
  headers :: "(string, string) omap"

definition message_init :: message where
  "message_init = \<lparr>httpMajor = 1, httpMinor = 1, headers = []\<rparr>"

definition getHttpVersionString :: "('a message_scheme) \<Rightarrow> string" where
  "getHttpVersionString m =
     ''HTTP/'' @ dec (httpMajor m) @ (if httpMajor m = 1 then ''.'' @ dec (httpMinor m) else [])"

definition getHeader :: "string \<Rightarrow> ('a message_scheme) \<Rightarrow> string" where
  "getHeader k m = (case omap_find ci_less k (headers m) of Some v \<Rightarrow> v | None \<Rightarrow> [])"

text \<open>The overload that tells whether the header is there; the value is untouched if not.\<close>

definition getHeaderIf :: "string \<Rightarrow> string \<Rightarrow> ('a message_scheme) \<Rightarrow> bool \<times> string" where
  "getHeaderIf k v m =
     (case omap_find ci_less k (headers m) of Some x \<Rightarrow> (True, x) | None \<Rightarrow> (False, v))"

text \<open>\<open>OutgoingMessage::setHeader\<close>.\<close>

definition setHeader :: "string \<Rightarrow> string \<Rightarrow> ('a message_scheme) \<Rightarrow> ('a message_scheme)" where
  "setHeader k v m = m\<lparr>headers := omap_set ci_less k v (headers m)\<rparr>"

definition status_table :: "(int \<times> string) list" where
  "status_table =
    [(100, ''Continue''), (101, ''Switching Protocols''), (102, ''Processing''),
     (200, ''OK''), (201, ''Created''), (202, ''Accepted''),
     (203, ''Non-Authoritative Information''), (204, ''No Content''), (205, ''Reset Content''),
     (206, ''Partial Content''), (207, ''Multi-Status''), (208, ''Already Reported''),
     (226, ''IM Used''), (300, ''Multiple Choices''), (301, ''Moved Permanently''),
     (302, ''Found''), (303, ''See Other''), (304, ''Not Modified''), (305, ''Use Proxy''),
     (306, ''(reserved)''), (307, ''Temporary Redirect''), (308, ''Permanent Redirect''),
     (400, ''Bad Request''), (401, ''Unauthorized''), (402, ''Payment Required''),
     (403, ''Forbidden''), (404, ''Not Found''), (405, ''Method Not Allowed''),
     (406, ''Not Acceptable''), (407, ''Proxy Authentication Required''),
     (408, ''Request Timeout''), (409, ''Conflict''), (410, ''Gone''),
     (411, ''Length Required''), (412, ''Precondition Failed''),
     (413, ''Request Entity Too Large''), (414, ''Request-URI Too Long''),
     (415, ''Unsupported Media Type''), (416, ''Requested Range Not Satisfiable''),
     (417, ''Expectation Faiiled''), (418, ''I'' @ [CHR 0x27] @ ''m a teapot''),
     (421, ''Misdirected Request''), (422, ''Unprocessable Entity''), (423, ''Locked''),
     (424, ''Failed Dependency''), (425, ''Unordered Collection''), (426, ''Upgrade Required''),
     (428, ''Precondition Required''), (429, ''Too Many Requests''),
     (431, ''Request Header Fields Too Large''), (451, ''Unavailable For Legal Reasons''),
     (500, ''Internal Server Error''), (501, ''Not Implemented''), (502, ''Bad Gateway''),
     (503, ''Service Unavailable''), (504, ''Gateway Time-out''),
     (505, ''HTTP Version Not Supported''), (506, ''Variant Also Negotiates''),
     (507, ''Insufficient Storage''), (508, ''Loop Detected''),
     (509, ''Bandwidth Limit Exceeded''), (510, ''Not Extended''),
     (511, ''Network Authentication Required'')]"

definition GetStatusText :: "int \<Rightarrow> string" where
  "GetStatusText status = (case map_of status_table status of Some t \<Rightarrow> t | None \<Rightarrow> ''Unknown'')"

section \<open>The header map\<close>

text \<open>Header names are case insensitive: after a header is set, it is found under every
spelling of its name that differs only in the case of ASCII letters; every other header
keeps its value; and the map stays sorted with one entry per name.\<close>

lemma header_lookup:
  assumes "omap_sorted ci_less (headers m)"
  shows "getHeader k' (setHeader k v m) =
      (if map tolower k' = map tolower k then v else getHeader k' m) \<and>
    omap_sorted ci_less (headers (setHeader k v m))"
proof -
  have "omap_find ci_less k' (omap_set ci_less k v (headers m)) = Some v"
    if "map tolower k' = map tolower k"
  proof -
    have "same_key ci_less k' k" using that by (simp add: ci_same)
    then show ?thesis by (simp add: ci.find_same [of k' k] ci.find_set_same)
  qed
  moreover have "omap_find ci_less k' (omap_set ci_less k v (headers m)) =
      omap_find ci_less k' (headers m)" if "map tolower k' \<noteq> map tolower k"
    using that by (intro ci.find_set_other) (simp add: ci_same)
  ultimately show ?thesis
    using ci.sorted_set [OF assms] by (simp add: getHeader_def setHeader_def)
qed

lemma header_lookup_example:
  "getHeader ''CONTENT-type'' (setHeader ''Content-Type'' ''x'' message_init) = ''x''"
proof -
  have eq: "map tolower ''CONTENT-type'' = map tolower ''Content-Type''"
    by code_simp
  have s: "omap_sorted ci_less (headers message_init)" by (simp add: message_init_def)
  show ?thesis
    using conjunct1 [OF header_lookup [OF s, of "''CONTENT-type''" "''Content-Type''" "''x''"]]
    by (simp only: eq refl if_True)
qed

end
