(* ===== verification/HttpMessage.thy ===== *)
theory HttpMessage
  imports Headers
begin

text \<open>
  HTTP messages: \<open>UrlObject\<close>, \<open>IncomingMessage\<close>, \<open>OutgoingMessage\<close>, the parts of
  \<open>ServerResponse\<close> and \<open>ClientRequest\<close> that build a message (\<open>src/http/*.cpp\<close>). The HTTP
  parser (\<open>http_parser\<close>) is not part of this code: the model has the callbacks it is given,
  one operation each, and its URL parser is a parameter. What is handed to \<open>sendData\<close> is
  collected in the field \<open>wire\<close>.
\<close>

section \<open>UrlObject\<close>

datatype url_field = UF_SCHEMA | UF_HOST | UF_PORT | UF_PATH | UF_QUERY | UF_FRAGMENT

text \<open>\<open>http_parser_url\<close>: which fields are set, their offset and length, and the port.\<close>

record url_handle =
  field_set :: "url_field \<Rightarrow> bool"
  field_data :: "url_field \<Rightarrow> nat \<times> nat"
  url_port :: nat

record url_object =
  url_handle :: url_handle
  url_buf :: string

definition empty_url :: url_object where
  "empty_url = \<lparr>url_handle = \<lparr>field_set = (\<lambda>_. False), field_data = (\<lambda>_. (0, 0)), url_port = 0\<rparr>,
     url_buf = []\<rparr>"

text \<open>\<open>std::string::substr\<close>, which throws when it starts behind the end.\<close>

definition substr :: "nat \<times> nat \<Rightarrow> string \<Rightarrow> exn + string" where
  "substr ol s = (if fst ol \<le> length s then Inr (take (snd ol) (drop (fst ol) s))
     else Inl (NativeExn ''out_of_range''))"

definition has :: "url_field \<Rightarrow> url_object \<Rightarrow> bool" where
  "has f u = field_set (url_handle u) f"

definition url_field_text :: "url_field \<Rightarrow> url_object \<Rightarrow> exn + string" where
  "url_field_text f u = substr (field_data (url_handle u) f) (url_buf u)"

definition url_schema :: "url_object \<Rightarrow> exn + string" where
  "url_schema u = (if has UF_SCHEMA u then url_field_text UF_SCHEMA u else Inr ''http'')"

definition url_host :: "url_object \<Rightarrow> exn + string" where
  "url_host u = (if has UF_SCHEMA u then url_field_text UF_HOST u else Inr ''localhost'')"

definition url_port_of :: "url_object \<Rightarrow> exn + nat" where
  "url_port_of u =
     (if url_port (url_handle u) \<noteq> 0 then Inr (url_port (url_handle u))
      else case url_schema u of Inl e \<Rightarrow> Inl e | Inr s \<Rightarrow> Inr (if s = ''http'' then 80 else 443))"

definition url_path :: "url_object \<Rightarrow> exn + string" where
  "url_path u = (if has UF_PATH u then url_field_text UF_PATH u else Inr ''/'')"

definition url_query :: "url_object \<Rightarrow> exn + string" where
  "url_query u = (if has UF_QUERY u then url_field_text UF_QUERY u else Inr [])"

definition url_fragment :: "url_object \<Rightarrow> exn + string" where
  "url_fragment u = (if has UF_QUERY u then url_field_text UF_FRAGMENT u else Inr [])"

text \<open>\<open>UrlObject::parse\<close>, with \<open>http_parser_parse_url\<close> as the parameter \<open>pu\<close>.\<close>

type_synonym url_parser = "string \<Rightarrow> bool \<Rightarrow> url_handle option"

definition url_parse :: "url_parser \<Rightarrow> string \<Rightarrow> bool \<Rightarrow> (url_object, unit) M" where
  "url_parse pu buf is_connect u =
     (case pu buf is_connect of
        None \<Rightarrow> (Inl (NativeExn ''Failed to parse URL.''), u\<lparr>url_buf := buf\<rparr>)
      | Some h \<Rightarrow> (Inr (), u\<lparr>url_buf := buf, url_handle := h\<rparr>))"

section \<open>IncomingMessage\<close>

record incoming = message +
  isRequest :: bool
  upgrade :: bool
  meth :: nat
  statusCode :: nat
  responseStatusString :: string
  url :: url_object
  body :: string
  wasHeaderValue :: bool
  lastHeaderField :: string
  lastHeaderValue :: string
  headerComplete :: bool
  messageComplete :: bool

definition incoming_init :: "bool \<Rightarrow> incoming" where
  "incoming_init isReq = \<lparr>httpMajor = 1, httpMinor = 1, headers = [], isRequest = isReq,
     upgrade = False, meth = 0, statusCode = 16, responseStatusString = [], url = empty_url,
     body = [], wasHeaderValue = True, lastHeaderField = [], lastHeaderValue = [],
     headerComplete = False, messageComplete = False\<rparr>"

definition on_status :: "string \<Rightarrow> ('a incoming_scheme) \<Rightarrow> ('a incoming_scheme)" where
  "on_status s m = m\<lparr>responseStatusString := s\<rparr>"

definition on_url :: "url_parser \<Rightarrow> string \<Rightarrow> (('a incoming_scheme), unit) M" where
  "on_url pu s m =
     (case url_parse pu s False (url m) of (r, u) \<Rightarrow> (r, m\<lparr>url := u\<rparr>))"

definition on_header_field :: "string \<Rightarrow> ('a incoming_scheme) \<Rightarrow> ('a incoming_scheme)" where
  "on_header_field s m =
     (if wasHeaderValue m then
        (if lastHeaderField m \<noteq> []
         then m\<lparr>headers := omap_set ci_less (lastHeaderField m) (lastHeaderValue m) (headers m),
                lastHeaderValue := []\<rparr>
         else m)\<lparr>lastHeaderField := s, wasHeaderValue := False\<rparr>
      else m\<lparr>lastHeaderField := lastHeaderField m @ s\<rparr>)"

definition on_header_value :: "string \<Rightarrow> ('a incoming_scheme) \<Rightarrow> ('a incoming_scheme)" where
  "on_header_value s m =
     (let m' = m\<lparr>headerComplete := True\<rparr> in
      if \<not> wasHeaderValue m then m'\<lparr>lastHeaderValue := s, wasHeaderValue := True\<rparr>
      else m'\<lparr>lastHeaderValue := lastHeaderValue m @ s\<rparr>)"

text \<open>What the parser knows when the headers are complete.\<close>

record parser_info =
  p_upgrade :: bool
  p_http_major :: nat
  p_http_minor :: nat
  p_method :: nat
  p_status_code :: nat

definition on_headers_complete :: "parser_info \<Rightarrow> ('a incoming_scheme) \<Rightarrow> int \<times> ('a incoming_scheme)" where
  "on_headers_complete p m =
     (let m1 = (if lastHeaderField m \<noteq> []
           then m\<lparr>headers := omap_set ci_less (lastHeaderField m) (lastHeaderValue m) (headers m)\<rparr>
           else m);
          m2 = m1\<lparr>upgrade := p_upgrade p, httpMajor := p_http_major p, httpMinor := p_http_minor p\<rparr>
      in if isRequest m then (0, m2\<lparr>meth := p_method p\<rparr>)
         else let c = p_status_code p in
           (if c div 100 = 1 \<or> c = 204 \<or> c = 304 then 1 else 0, m2\<lparr>statusCode := c\<rparr>))"

definition on_body :: "string \<Rightarrow> ('a incoming_scheme) \<Rightarrow> ('a incoming_scheme)" where
  "on_body s m = m\<lparr>body := s\<rparr>"

text \<open>\<open>onMessageComplete\<close> is the hook of the subclass.\<close>

definition on_message_complete ::
  "(('a incoming_scheme) \<Rightarrow> ('a incoming_scheme)) \<Rightarrow> ('a incoming_scheme) \<Rightarrow> ('a incoming_scheme)" where
  "on_message_complete onMessageComplete m = onMessageComplete (m\<lparr>messageComplete := True\<rparr>)"

text \<open>
  \<open>parse\<close>: \<open>http_parser_execute\<close> is a parameter, which from its state and the bytes gives the
  calls it makes of the callbacks, in order, how many bytes it consumed, and its new state.
  \<open>on_status\<close> is installed for responses only. An exception of a callback (\<open>on_url\<close> throws)
  passes through the parser.
\<close>

datatype parse_event =
    EvStatus string
  | EvUrl string
  | EvHeaderField string
  | EvHeaderValue string
  | EvHeadersComplete parser_info
  | EvBody string
  | EvMessageComplete

type_synonym 'p http_lib = "'p \<Rightarrow> string \<Rightarrow> parse_event list \<times> int \<times> 'p"

definition run_event ::
  "url_parser \<Rightarrow> (('a incoming_scheme) \<Rightarrow> ('a incoming_scheme)) \<Rightarrow> parse_event
     \<Rightarrow> (('a incoming_scheme), unit) M" where
  "run_event pu onMessageComplete e =
     (case e of
        EvStatus s \<Rightarrow> modM (\<lambda>m. if isRequest m then m else on_status s m)
      | EvUrl s \<Rightarrow> on_url pu s
      | EvHeaderField s \<Rightarrow> modM (on_header_field s)
      | EvHeaderValue s \<Rightarrow> modM (on_header_value s)
      | EvHeadersComplete p \<Rightarrow> modM (\<lambda>m. snd (on_headers_complete p m))
      | EvBody s \<Rightarrow> modM (on_body s)
      | EvMessageComplete \<Rightarrow> modM (on_message_complete onMessageComplete))"

definition run_events ::
  "url_parser \<Rightarrow> (('a incoming_scheme) \<Rightarrow> ('a incoming_scheme)) \<Rightarrow> parse_event list
     \<Rightarrow> (('a incoming_scheme), unit) M" where
  "run_events pu hook es = forM es (run_event pu hook)"

section \<open>Headers arrive in pieces\<close>

text \<open>
  The parser calls \<open>on_header_field\<close> and \<open>on_header_value\<close> with pieces of a name and of a
  value, cut at the boundaries of the buffers the socket delivers. One header is a list of
  pieces of its name and a list of pieces of its value.
\<close>

type_synonym pieces = "string list \<times> string list"

definition feed_header :: "pieces \<Rightarrow> incoming \<Rightarrow> incoming" where
  "feed_header h m = fold on_header_value (snd h) (fold on_header_field (fst h) m)"

definition feed_headers :: "pieces list \<Rightarrow> incoming \<Rightarrow> incoming" where
  "feed_headers hs m = fold feed_header hs m"

text \<open>A header the parser can deliver: a name that is not empty, and at least one call each.\<close>

definition header_ok :: "pieces \<Rightarrow> bool" where
  "header_ok h \<longleftrightarrow> fst h \<noteq> [] \<and> concat (fst h) \<noteq> [] \<and> snd h \<noteq> []"

definition add_headers :: "pieces list \<Rightarrow> (string, string) omap \<Rightarrow> (string, string) omap" where
  "add_headers hs M = fold (\<lambda>h. omap_set ci_less (concat (fst h)) (concat (snd h))) hs M"

lemma fold_field:
  "\<not> wasHeaderValue m \<Longrightarrow>
     fold on_header_field fs m = m\<lparr>lastHeaderField := lastHeaderField m @ concat fs\<rparr>"
  by (induction fs arbitrary: m) (simp_all add: on_header_field_def)

lemma on_header_value_more:
  "wasHeaderValue m \<Longrightarrow>
     on_header_value v m = m\<lparr>lastHeaderValue := lastHeaderValue m @ v, headerComplete := True\<rparr>"
  by (simp add: on_header_value_def Let_def)

lemma fold_value:
  "wasHeaderValue m \<Longrightarrow> vs \<noteq> [] \<Longrightarrow>
     fold on_header_value vs m =
       m\<lparr>lastHeaderValue := lastHeaderValue m @ concat vs, headerComplete := True\<rparr>"
proof (induction vs arbitrary: m)
  case (Cons v vs)
  show ?case
  proof (cases "vs = []")
    case True
    then show ?thesis by (simp add: on_header_value_more [OF Cons.prems(1)])
  next
    case False
    with Cons.IH [of "m\<lparr>lastHeaderValue := lastHeaderValue m @ v, headerComplete := True\<rparr>"]
    show ?thesis
      using Cons.prems by (simp add: on_header_value_more [OF Cons.prems(1)])
  qed
qed simp

text \<open>The header that is complete but not yet in the map.\<close>

definition pending_headers :: "incoming \<Rightarrow> (string, string) omap" where
  "pending_headers m =
     (if lastHeaderField m \<noteq> []
      then omap_set ci_less (lastHeaderField m) (lastHeaderValue m) (headers m) else headers m)"

lemma feed_header_pending:
  assumes w: "wasHeaderValue m" and ok: "header_ok h"
  shows "wasHeaderValue (feed_header h m) \<and>
    pending_headers (feed_header h m) =
      omap_set ci_less (concat (fst h)) (concat (snd h)) (pending_headers m) \<and>
    isRequest (feed_header h m) = isRequest m"
proof -
  obtain f fs v vs where h: "h = (f # fs, v # vs)"
    using ok by (cases h) (auto simp: header_ok_def neq_Nil_conv)
  have ne: "f @ concat fs \<noteq> []" using ok h by (simp add: header_ok_def)
  let ?m1 = "on_header_field f m"
  have m1: "\<not> wasHeaderValue ?m1" "lastHeaderField ?m1 = f" "headers ?m1 = pending_headers m"
    "isRequest ?m1 = isRequest m"
    using w by (auto simp: on_header_field_def pending_headers_def)
  let ?m2 = "fold on_header_field fs ?m1"
  have m2: "?m2 = ?m1\<lparr>lastHeaderField := f @ concat fs\<rparr>"
    using fold_field [OF m1(1)] m1(2) by simp
  let ?m3 = "on_header_value v ?m2"
  have m3: "wasHeaderValue ?m3" "lastHeaderValue ?m3 = v" "lastHeaderField ?m3 = f @ concat fs"
    "headers ?m3 = pending_headers m" "isRequest ?m3 = isRequest m"
    using m1 unfolding m2 by (simp_all add: on_header_value_def Let_def)
  have "feed_header h m = fold on_header_value vs ?m3" by (simp add: feed_header_def h)
  then show ?thesis
    using fold_value [OF m3(1), of vs] m3 ne
    by (cases "vs = []") (auto simp: h pending_headers_def)
qed

lemma feed_headers_pending:
  assumes "wasHeaderValue m" and "\<forall>h \<in> set hs. header_ok h"
  shows "wasHeaderValue (feed_headers hs m) \<and>
    pending_headers (feed_headers hs m) = add_headers hs (pending_headers m) \<and>
    isRequest (feed_headers hs m) = isRequest m"
  using assms
proof (induction hs arbitrary: m)
  case (Cons h hs)
  then show ?case
    using feed_header_pending [of m h] by (simp add: feed_headers_def add_headers_def)
qed (simp add: feed_headers_def add_headers_def)

text \<open>C29. However the names and values of the headers are cut into pieces by the network, the
message ends with the same headers: the map that the whole names and values give, a
later header of the same name, up to case, replacing an earlier one.\<close>

theorem headers_reassembled:
  assumes "\<forall>h \<in> set hs. header_ok h"
  shows "headers (snd (on_headers_complete p (feed_headers hs (incoming_init isReq)))) =
    add_headers hs []"
proof -
  have "pending_headers (feed_headers hs (incoming_init isReq)) = add_headers hs []"
    using feed_headers_pending [OF _ assms, of "incoming_init isReq"]
    by (simp add: incoming_init_def pending_headers_def)
  then show ?thesis
    by (simp add: on_headers_complete_def pending_headers_def Let_def split: if_splits)
qed

theorem headers_reassembled_witness:
  "headers (snd (on_headers_complete
     \<lparr>p_upgrade = False, p_http_major = 1, p_http_minor = 1, p_method = 1, p_status_code = 0\<rparr>
     (feed_headers [([''Ho'', ''st''], [''a.'', ''b''])] (incoming_init True)))) = [(''Host'', ''a.b'')]"
  using headers_reassembled [of "[([''Ho'', ''st''], [''a.'', ''b''])]"
    "\<lparr>p_upgrade = False, p_http_major = 1, p_http_minor = 1, p_method = 1, p_status_code = 0\<rparr>" True]
  by (simp add: header_ok_def add_headers_def)

text \<open>The body is not put together from its pieces: after any number of calls of \<open>on_body\<close>
the message has the last piece only.\<close>

lemma body_keeps_last_piece:
  assumes "bs \<noteq> []"
  shows "body (fold on_body bs m) = last bs"
  using assms by (induction bs rule: rev_induct) (simp_all add: on_body_def)

lemma body_keeps_last_piece_witness:
  "body (fold on_body [''hello '', ''world''] (incoming_init True)) = ''world''"
  using body_keeps_last_piece [of "[''hello '', ''world'']" "incoming_init True"] by simp

end
