(* ===== verification/Outgoing.thy ===== *)
theory Outgoing
  imports HttpMessage
begin

text \<open>
  Messages that are sent: \<open>OutgoingMessage\<close> (\<open>src/http/OutgoingMessage.cpp\<close>) and its two
  subclasses \<open>ServerResponse\<close> (\<open>src/http/ServerResponse.cpp\<close>) and \<open>ClientRequest\<close>
  (\<open>src/http/ClientRequest.cpp\<close>). The virtual calls \<open>setHeaderFirstLine\<close>, \<open>writeData\<close> and
  \<open>sendData\<close> are dispatched on the field \<open>kind\<close>. What the message asks of its socket is
  recorded, in order, in the field \<open>wire\<close>.
\<close>

section \<open>The state\<close>

datatype out_kind =
    Response int
  | Request string string int string

datatype wire_op =
    SockWrite string
  | SockConnectWrite string int string

record outgoing = message +
  headerSent :: bool
  closed :: bool
  sent :: bool
  last_chunk :: bool
  chunkedEncoding :: bool
  useChunkedEncodingByDefault :: bool
  sendDate :: bool
  shouldKeepAlive :: bool
  contentLength :: int
  hasBody :: bool
  kind :: out_kind
  connected :: bool
  wire :: "wire_op list"

text \<open>The two constructors of \<open>OutgoingMessage\<close>: for a request, from nothing; for a response, from
the request it answers, of which \<open>MessageBase(const MessageBase \&)\<close> copies the version only.\<close>

definition OutgoingMessage :: "out_kind \<Rightarrow> outgoing" where
  "OutgoingMessage k = setHeader ''Content-Type'' ''text/html''
     \<lparr>httpMajor = 1, httpMinor = 1, headers = [], headerSent = False, closed = False, sent = False,
      last_chunk = False, chunkedEncoding = True, useChunkedEncodingByDefault = False,
      sendDate = False, shouldKeepAlive = True, contentLength = - 1, hasBody = False, kind = k,
      connected = False, wire = []\<rparr>"

definition OutgoingMessage_from :: "('a message_scheme) \<Rightarrow> out_kind \<Rightarrow> outgoing" where
  "OutgoingMessage_from incomming k = setHeader ''Content-Type'' ''text/html''
     \<lparr>httpMajor = httpMajor incomming, httpMinor = httpMinor incomming,
      headers = [], headerSent = False, closed = False, sent = False,
      last_chunk = False, chunkedEncoding = False, useChunkedEncodingByDefault = False,
      sendDate = False, shouldKeepAlive = True, contentLength = - 1, hasBody = False, kind = k,
      connected = True, wire = []\<rparr>"

definition ServerResponse :: "('a message_scheme) \<Rightarrow> outgoing" where
  "ServerResponse request =
     setHeader ''Content-Type'' ''text/html'' (OutgoingMessage_from request (Response 200))"

definition ClientRequest :: "string \<Rightarrow> string \<Rightarrow> int \<Rightarrow> string \<Rightarrow> outgoing" where
  "ClientRequest method host port path =
     (OutgoingMessage (Request method host port (if path = [] then ''/'' else path)))
       \<lparr>shouldKeepAlive := True\<rparr>"

text \<open>\<open>ClientRequest::Create\<close> from a URI; the URL parser is a parameter.\<close>

definition ClientRequest_Create :: "url_parser \<Rightarrow> string \<Rightarrow> string \<Rightarrow> exn + outgoing" where
  "ClientRequest_Create pu method uri =
     (case url_parse pu uri False empty_url of
        (Inl e, _) \<Rightarrow> Inl e
      | (Inr (), u) \<Rightarrow>
        (case url_host u of Inl e \<Rightarrow> Inl e | Inr host \<Rightarrow>
        (case url_port_of u of Inl e \<Rightarrow> Inl e | Inr port \<Rightarrow>
        (case url_path u of Inl e \<Rightarrow> Inl e | Inr path \<Rightarrow>
        (case url_query u of Inl e \<Rightarrow> Inl e | Inr query \<Rightarrow>
           Inr (ClientRequest method host (int port)
             (if query \<noteq> [] then path @ ''?'' @ query else path)))))))"

section \<open>Sending\<close>

definition CRLF :: string where
  "CRLF = [CHR 0x0D, CHR 0x0A]"

definition setHeaderFirstLine :: "outgoing \<Rightarrow> string" where
  "setHeaderFirstLine m =
     (case kind m of
        Response status \<Rightarrow>
          getHttpVersionString m @ '' '' @ dec_int status @ '' '' @ GetStatusText status @ CRLF
      | Request method host port path \<Rightarrow>
          method @ '' '' @ path @ '' '' @ getHttpVersionString m @ CRLF)"

definition header_lines :: "(string, string) omap \<Rightarrow> string" where
  "header_lines hs = concat (map (\<lambda>(k, v). k @ '': '' @ v @ CRLF) hs)"

definition getMessageHeaderRaw :: "outgoing \<Rightarrow> string" where
  "getMessageHeaderRaw m = setHeaderFirstLine m @ header_lines (headers m) @ CRLF"

definition setStatus :: "int \<Rightarrow> outgoing \<Rightarrow> outgoing" where
  "setStatus status_code m = m\<lparr>kind := Response status_code\<rparr>"

text \<open>A request that is not connected connects first and writes when that is done.\<close>

definition sendData :: "string \<Rightarrow> outgoing \<Rightarrow> outgoing" where
  "sendData data m =
     (case kind m of
        Response _ \<Rightarrow> m\<lparr>wire := wire m @ [SockWrite data]\<rparr>
      | Request method host port path \<Rightarrow>
          if connected m then m\<lparr>wire := wire m @ [SockWrite data]\<rparr>
          else m\<lparr>wire := wire m @ [SockConnectWrite host port data]\<rparr>)"

definition prepare_headers :: "string \<Rightarrow> outgoing \<Rightarrow> outgoing" where
  "prepare_headers str m =
     (let m1 = (if last_chunk m then m\<lparr>chunkedEncoding := False\<rparr> else m);
          m2 = (if \<not> chunkedEncoding m1 \<and> omap_find ci_less ''Content-Length'' (headers m1) = None
                then (setHeader ''Content-Length'' (dec (length str)) m1)\<lparr>closed := True, sent := True\<rparr>
                else m1);
          m3 = (if shouldKeepAlive m2 then setHeader ''Connection'' ''keep-alive'' m2
                else setHeader ''Connection'' ''close'' m2);
          m4 = (if chunkedEncoding m3 then setHeader ''Transfer-Encoding'' ''chunked'' m3 else m3)
      in m4\<lparr>headerSent := True\<rparr>)"

definition OutgoingMessage_writeData :: "string \<Rightarrow> (outgoing, unit) M" where
  "OutgoingMessage_writeData str m =
     (if closed m then (Inl (AssertExn ''!_closed''), m)
      else if \<not> headerSent m then
        (let m' = prepare_headers str m in (Inr (), sendData (getMessageHeaderRaw m' @ str) m'))
      else (Inr (), sendData str m))"

definition ServerResponse_writeData :: "string \<Rightarrow> (outgoing, unit) M" where
  "ServerResponse_writeData data m =
     OutgoingMessage_writeData data
       (if \<not> headerSent m \<and> (kind m = Response 204 \<or> kind m = Response 304)
        then m\<lparr>shouldKeepAlive := False\<rparr> else m)"

definition writeData :: "string \<Rightarrow> (outgoing, unit) M" where
  "writeData data m =
     (case kind m of Response _ \<Rightarrow> ServerResponse_writeData data m
      | Request _ _ _ _ \<Rightarrow> OutgoingMessage_writeData data m)"

text \<open>\<open>OutgoingMessage::endData\<close>; a request calls just this. What a response does when the
write is done is in the theory of its connection.\<close>

definition endData :: "string \<Rightarrow> (outgoing, unit) M" where
  "endData str m =
     (if closed m then (Inl (AssertExn ''!_closed''), m)
      else if last_chunk m then (Inl (AssertExn ''!_last''), m)
      else case writeData str (m\<lparr>last_chunk := True\<rparr>) of
             (Inl e, m') \<Rightarrow> (Inl e, m')
           | (Inr _, m') \<Rightarrow> (Inr (), m'\<lparr>closed := True, sent := True\<rparr>))"

section \<open>Lemmas\<close>

lemmas out_defs = sendData_def setHeader_def

lemma kind_prepare [simp]: "kind (prepare_headers s m) = kind m"
  by (simp add: prepare_headers_def Let_def setHeader_def)

lemma wire_prepare [simp]: "wire (prepare_headers s m) = wire m"
  by (simp add: prepare_headers_def Let_def setHeader_def)

lemma headerSent_prepare [simp]: "headerSent (prepare_headers s m)"
  by (simp add: prepare_headers_def Let_def)

lemma sendData_simps [simp]:
  "headerSent (sendData s m) = headerSent m" "closed (sendData s m) = closed m"
  "headers (sendData s m) = headers m" "kind (sendData s m) = kind m"
  "last_chunk (sendData s m) = last_chunk m" "shouldKeepAlive (sendData s m) = shouldKeepAlive m"
  by (simp_all add: sendData_def split: out_kind.splits)

lemma prepare_simps [simp]:
  "shouldKeepAlive (prepare_headers s m) = shouldKeepAlive m"
  "last_chunk (prepare_headers s m) = last_chunk m"
  by (simp_all add: prepare_headers_def Let_def setHeader_def)

text \<open>The text of what is handed to the socket.\<close>

fun wire_text :: "wire_op \<Rightarrow> string" where
  "wire_text (SockWrite s) = s"
| "wire_text (SockConnectWrite h p s) = s"

definition sent_text :: "outgoing \<Rightarrow> string" where
  "sent_text m = concat (map wire_text (wire m))"

lemma sent_text_send: "sent_text (sendData s m) = sent_text m @ s"
  by (simp add: sent_text_def sendData_def split: out_kind.splits)

lemma prepare_closed: "last_chunk m \<or> closed m \<Longrightarrow> closed (prepare_headers s m) \<longleftrightarrow>
    closed m \<or> omap_find ci_less ''Content-Length'' (headers m) = None"
  by (auto simp: prepare_headers_def Let_def setHeader_def)

lemma sent_text_upd [simp]:
  "sent_text (m\<lparr>last_chunk := b\<rparr>) = sent_text m" "sent_text (m\<lparr>closed := b\<rparr>) = sent_text m"
  "sent_text (m\<lparr>sent := b\<rparr>) = sent_text m" "sent_text (m\<lparr>closed := b, sent := c\<rparr>) = sent_text m"
  by (simp_all add: sent_text_def)

text \<open>The headers of a message that is sent in one piece.\<close>

definition keepAlive_of :: "outgoing \<Rightarrow> bool" where
  "keepAlive_of m \<longleftrightarrow> shouldKeepAlive m \<and> kind m \<noteq> Response 204 \<and> kind m \<noteq> Response 304"

lemma ci_set_find:
  "omap_find ci_less k' (omap_set ci_less k v M) =
     (if map tolower k' = map tolower k then Some v else omap_find ci_less k' M)"
proof (cases "map tolower k' = map tolower k")
  case True
  then have "same_key ci_less k' k" by (simp add: ci_same)
  with True show ?thesis by (simp add: ci.find_same [of k' k] ci.find_set_same)
next
  case False
  then show ?thesis by (simp add: ci.find_set_other ci_same)
qed

lemma lower_names [simp]:
  "map tolower ''Content-Length'' = ''content-length''" "map tolower ''Connection'' = ''connection''"
  "map tolower ''Transfer-Encoding'' = ''transfer-encoding''"
  by code_simp+

lemma prepare_headers_last:
  assumes "last_chunk m"
  shows "headers (prepare_headers s m) =
    omap_set ci_less ''Connection'' (if shouldKeepAlive m then ''keep-alive'' else ''close'')
      (if omap_find ci_less ''Content-Length'' (headers m) = None
       then omap_set ci_less ''Content-Length'' (dec (length s)) (headers m) else headers m)"
  using assms by (cases "omap_find ci_less ''Content-Length'' (headers m)"; cases "shouldKeepAlive m")
    (simp_all add: prepare_headers_def Let_def setHeader_def)

lemma prepare_find:
  assumes "last_chunk m"
  shows "omap_find ci_less k (headers (prepare_headers s m)) =
    (if map tolower k = ''connection''
     then Some (if shouldKeepAlive m then ''keep-alive'' else ''close'')
     else if map tolower k = ''content-length''
     then Some (case omap_find ci_less ''Content-Length'' (headers m) of
                  None \<Rightarrow> dec (length s) | Some v \<Rightarrow> v)
     else omap_find ci_less k (headers m))"
proof -
  have "omap_find ci_less k (headers m) = omap_find ci_less ''Content-Length'' (headers m)"
    if "map tolower k = ''content-length''"
    using that lower_names(1) by (intro ci.find_same) (simp only: ci_same)
  then show ?thesis
    unfolding prepare_headers_last [OF assms] ci_set_find lower_names
    by (cases "omap_find ci_less ''Content-Length'' (headers m)")
      (simp_all only: ci_set_find lower_names option.case refl if_True option.distinct if_False
        split: if_split, simp_all)
qed

lemma writeData_eq:
  "writeData d m = OutgoingMessage_writeData d
     (if \<not> headerSent m \<and> (kind m = Response 204 \<or> kind m = Response 304)
      then m\<lparr>shouldKeepAlive := False\<rparr> else m)"
  by (auto simp: writeData_def ServerResponse_writeData_def split: out_kind.splits)

lemma endData_returns:
  "writeData s (m\<lparr>last_chunk := True\<rparr>) = (Inr (), m') \<Longrightarrow> \<not> closed m \<Longrightarrow> \<not> last_chunk m \<Longrightarrow>
     endData s m = (Inr (), m'\<lparr>closed := True, sent := True\<rparr>)"
  by (simp add: endData_def)

section \<open>What is sent\<close>

text \<open>A message nothing of which has been sent.\<close>

definition fresh :: "outgoing \<Rightarrow> bool" where
  "fresh m \<longleftrightarrow> \<not> closed m \<and> \<not> last_chunk m \<and> \<not> headerSent m \<and> wire m = []"

text \<open>C27. A message ended in one call goes out as one write: the first line, every header, an
empty line and the body. Its \<open>Content-Length\<close> is the length of the body in decimal unless
the caller set one, \<open>Connection\<close> tells whether the connection is kept (never for the status
codes 204 and 304), every other header is as it was set, and the message is then closed.\<close>

theorem message_in_one_write:
  assumes "fresh m"
  shows "\<exists>m'. endData text_body m = (Inr (), m') \<and> closed m' \<and> sent m' \<and> headerSent m' \<and>
    map wire_text (wire m') = [setHeaderFirstLine m' @ header_lines (headers m') @ CRLF @ text_body] \<and>
    (\<forall>k. omap_find ci_less k (headers m') =
      (if map tolower k = ''connection'' then Some (if keepAlive_of m then ''keep-alive'' else ''close'')
       else if map tolower k = ''content-length''
       then Some (case omap_find ci_less ''Content-Length'' (headers m) of
                    None \<Rightarrow> dec (length text_body) | Some v \<Rightarrow> v)
       else omap_find ci_less k (headers m)))"
proof -
  define m1 where "m1 = (if kind m = Response 204 \<or> kind m = Response 304
    then m\<lparr>last_chunk := True, shouldKeepAlive := False\<rparr> else m\<lparr>last_chunk := True\<rparr>)"
  define p where "p = prepare_headers text_body m1"
  define m' where "m' = sendData (getMessageHeaderRaw p @ text_body) p"
  have m1: "last_chunk m1" "headers m1 = headers m" "wire m1 = []"
    "shouldKeepAlive m1 = keepAlive_of m" "\<not> closed m1" "\<not> headerSent m1"
    using assms by (auto simp: m1_def fresh_def keepAlive_of_def)
  have "writeData text_body (m\<lparr>last_chunk := True\<rparr>) = OutgoingMessage_writeData text_body m1"
    using assms by (simp add: writeData_eq fresh_def m1_def)
  also have "\<dots> = (Inr (), m')"
    using m1(5,6) by (simp add: OutgoingMessage_writeData_def m'_def p_def Let_def)
  finally have "endData text_body m = (Inr (), m'\<lparr>closed := True, sent := True\<rparr>)"
    using assms by (intro endData_returns) (simp_all add: fresh_def)
  moreover have "map wire_text (wire m') = [getMessageHeaderRaw p @ text_body]"
    using m1(3) by (simp add: m'_def p_def sendData_def split: out_kind.splits)
  moreover have "setHeaderFirstLine (m'\<lparr>closed := True, sent := True\<rparr>) = setHeaderFirstLine p"
    by (simp add: m'_def setHeaderFirstLine_def getHttpVersionString_def sendData_def
        split: out_kind.splits)
  moreover have "headers m' = headers p" "headerSent m'" by (simp_all add: m'_def p_def)
  ultimately show ?thesis
    using prepare_find [OF m1(1), of _ text_body] m1(2,4)
    by (intro exI [of _ "m'\<lparr>closed := True, sent := True\<rparr>"])
      (simp add: getMessageHeaderRaw_def p_def)
qed

theorem message_in_one_write_witness:
  "\<exists>m'. endData ''hello'' (ServerResponse message_init) = (Inr (), m') \<and> sent m'"
proof -
  have "fresh (ServerResponse message_init)"
    by (simp add: fresh_def ServerResponse_def OutgoingMessage_from_def setHeader_def)
  from message_in_one_write [OF this, of "''hello''"] show ?thesis by blast
qed

text \<open>Calls on a message: its owner may set headers and the status, write and end.\<close>

datatype out_call =
    SetHeader string string
  | SetStatus int
  | Write string
  | End string

text \<open>The state after a call, and the data of it if the call returns and sends.\<close>

fun out_step :: "out_call \<Rightarrow> outgoing \<Rightarrow> string option \<times> outgoing" where
  "out_step (SetHeader k v) m = (None, setHeader k v m)"
| "out_step (SetStatus c) m = (None, case kind m of Response _ \<Rightarrow> setStatus c m | _ \<Rightarrow> m)"
| "out_step (Write d) m = (case writeData d m of (Inr _, m') \<Rightarrow> (Some d, m') | (Inl _, m') \<Rightarrow> (None, m'))"
| "out_step (End d) m = (case endData d m of (Inr _, m') \<Rightarrow> (Some d, m') | (Inl _, m') \<Rightarrow> (None, m'))"

fun out_run :: "out_call list \<Rightarrow> outgoing \<Rightarrow> string list \<times> outgoing" where
  "out_run [] m = ([], m)"
| "out_run (c # cs) m =
     (let (d, m') = out_step c m; (ds, m'') = out_run cs m'
      in ((case d of None \<Rightarrow> [] | Some x \<Rightarrow> [x]) @ ds, m''))"

lemma write_after_headers:
  "headerSent m \<Longrightarrow> writeData d m =
     (if closed m then (Inl (AssertExn ''!_closed''), m) else (Inr (), sendData d m))"
  by (simp add: writeData_eq OutgoingMessage_writeData_def)

lemma step_after_headers:
  assumes "headerSent m" and "out_step c m = (d, m')"
  shows "headerSent m' \<and> (closed m \<longrightarrow> closed m' \<and> d = None) \<and>
    ((last_chunk m \<longrightarrow> closed m) \<longrightarrow> last_chunk m' \<longrightarrow> closed m') \<and>
    sent_text m' = sent_text m @ (case d of None \<Rightarrow> [] | Some x \<Rightarrow> x)"
proof (cases c)
  case (SetStatus n)
  with assms show ?thesis
    by (auto simp: setStatus_def sent_text_def split: out_kind.splits)
next
  case (Write x)
  with assms show ?thesis
    by (auto simp: write_after_headers sent_text_send split: if_splits)
next
  case (End x)
  with assms show ?thesis
    by (auto simp: endData_def write_after_headers sent_text_send split: if_splits)
qed (use assms in \<open>auto simp: setHeader_def sent_text_def\<close>)

lemma run_after_headers:
  "headerSent m \<Longrightarrow> out_run cs m = (ds, m') \<Longrightarrow>
     headerSent m' \<and> (closed m \<longrightarrow> closed m' \<and> ds = []) \<and>
     ((last_chunk m \<longrightarrow> closed m) \<longrightarrow> last_chunk m' \<longrightarrow> closed m') \<and> sent_text m' = sent_text m @ concat ds"
proof (induction cs arbitrary: m ds m')
  case (Cons c cs)
  obtain d u where u: "out_step c m = (d, u)" by (cases "out_step c m")
  obtain es v where v: "out_run cs u = (es, v)" by (cases "out_run cs u")
  show ?case
    using Cons.IH [OF _ v] step_after_headers [OF Cons.prems(1) u] Cons.prems(2) u v
    by (auto split: option.splits)
qed simp

lemma write_first:
  assumes "\<not> closed m" and "\<not> headerSent m" and "wire m = []"
  shows "\<exists>p. writeData d m = (Inr (), sendData (getMessageHeaderRaw p @ d) p) \<and>
    headerSent p \<and> sent_text p = [] \<and> last_chunk p = last_chunk m \<and> wire p = [] \<and> kind p = kind m"
proof -
  define m1 where "m1 = (if kind m = Response 204 \<or> kind m = Response 304
    then m\<lparr>shouldKeepAlive := False\<rparr> else m)"
  have "\<not> closed m1" "\<not> headerSent m1" "wire m1 = []" "last_chunk m1 = last_chunk m"
    "kind m1 = kind m"
    using assms by (simp_all add: m1_def)
  moreover have "writeData d m = OutgoingMessage_writeData d m1"
    using assms by (simp add: writeData_eq m1_def)
  ultimately show ?thesis
    by (intro exI [of _ "prepare_headers d m1"]) (simp add: OutgoingMessage_writeData_def Let_def sent_text_def)
qed

lemma kind_sendData [simp]: "kind (sendData s m) = kind m"
  by (simp add: sendData_def split: out_kind.splits)

lemma endData_kind: "endData d m = (Inr (), m') \<Longrightarrow> kind m' = kind m"
  by (auto simp: endData_def writeData_eq OutgoingMessage_writeData_def Let_def split: if_splits)

lemma endData_keepAlive:
  "endData d m = (Inr (), m') \<Longrightarrow> \<not> headerSent m \<Longrightarrow> shouldKeepAlive m' = keepAlive_of m"
  by (auto simp: endData_def writeData_eq OutgoingMessage_writeData_def Let_def keepAlive_of_def
      split: if_splits)

text \<open>Either nothing has been sent, or the head and then the data of the calls that returned.\<close>

definition sent_so_far :: "outgoing \<Rightarrow> string list \<Rightarrow> bool" where
  "sent_so_far m ds \<longleftrightarrow> headerSent m \<and> ds \<noteq> [] \<and> (last_chunk m \<longrightarrow> closed m) \<and>
     (\<exists>h. sent_text m = getMessageHeaderRaw h @ concat ds)"

lemma step_fresh:
  assumes "fresh m" and "out_step c m = (d, m')"
  shows "(case d of None \<Rightarrow> fresh m' | Some x \<Rightarrow> sent_so_far m' [x])"
    and "c = End x \<Longrightarrow> d = Some x \<and> closed m'"
proof -
  show "(case d of None \<Rightarrow> fresh m' | Some x \<Rightarrow> sent_so_far m' [x])"
  proof (cases c)
    case (SetStatus n)
    with assms show ?thesis by (auto simp: setStatus_def fresh_def split: out_kind.splits)
  next
    case (Write x)
    with assms show ?thesis
      using write_first [of m x]
      by (fastforce simp: fresh_def sent_so_far_def sent_text_send)
  next
    case (End x)
    with assms show ?thesis
      using write_first [of "m\<lparr>last_chunk := True\<rparr>" x]
      by (fastforce simp: fresh_def endData_def sent_so_far_def sent_text_send)
  qed (use assms in \<open>auto simp: setHeader_def fresh_def\<close>)
  show "d = Some x \<and> closed m'" if "c = End x"
    using assms that write_first [of "m\<lparr>last_chunk := True\<rparr>" x]
    by (auto simp: fresh_def endData_def)
qed

lemma run_sent:
  assumes "sent_so_far m ds" and "out_run cs m = (es, m')"
  shows "sent_so_far m' (ds @ es)"
  using run_after_headers [OF _ assms(2)] assms(1) by (auto simp: sent_so_far_def)

lemma run_fresh:
  "fresh m \<Longrightarrow> out_run cs m = (ds, m') \<Longrightarrow> (fresh m' \<and> ds = []) \<or> sent_so_far m' ds"
proof (induction cs arbitrary: m ds m')
  case (Cons c cs)
  obtain d u where u: "out_step c m = (d, u)" by (cases "out_step c m")
  obtain es v where v: "out_run cs u = (es, v)" by (cases "out_run cs u")
  have r: "ds = (case d of None \<Rightarrow> [] | Some x \<Rightarrow> [x]) @ es" "m' = v"
    using Cons.prems(2) u v by simp_all
  show ?case
  proof (cases d)
    case None
    then show ?thesis using step_fresh(1) [OF Cons.prems(1) u] Cons.IH [OF _ v] r by simp
  next
    case (Some x)
    then show ?thesis using step_fresh(1) [OF Cons.prems(1) u] run_sent [OF _ v, of "[x]"] r by simp
  qed
qed simp

lemma out_run_append:
  "out_run (cs @ cs') m =
     (let (ds, u) = out_run cs m; (es, v) = out_run cs' u in (ds @ es, v))"
  by (induction cs arbitrary: m) (auto simp: Let_def split: prod.splits)

lemma end_closes:
  assumes "sent_so_far m ds" and "out_step (End x) m = (d, m')"
  shows "closed m' \<and> headerSent m'"
  using assms by (auto simp: sent_so_far_def endData_def write_after_headers split: if_splits)

lemma run_end:
  assumes m: "fresh m" and r: "out_run (cs @ [End x]) m = (ds, u)"
  shows "closed u \<and> sent_so_far u ds"
proof -
  obtain es v where v: "out_run cs m = (es, v)" by (cases "out_run cs m")
  obtain d w where w: "out_step (End x) v = (d, w)" by (cases "out_step (End x) v")
  have e: "out_run [End x] v = (case d of None \<Rightarrow> [] | Some y \<Rightarrow> [y], w)"
    using w by (simp del: out_step.simps)
  have ds: "ds = es @ (case d of None \<Rightarrow> [] | Some y \<Rightarrow> [y])" "u = w"
    using r by (auto simp: out_run_append v e Let_def simp del: out_run.simps)
  from run_fresh [OF m v] show ?thesis
  proof
    assume f: "fresh v \<and> es = []"
    with step_fresh [OF _ w] ds show ?thesis by fastforce
  next
    assume so: "sent_so_far v es"
    from run_sent [OF so e] end_closes [OF so w] ds show ?thesis by simp
  qed
qed

text \<open>C30. The head of a message is sent exactly once and before any data, whatever the owner
calls: up to and including the first \<open>end\<close> the text sent is one head followed by the data of
the calls that returned, in order; and no call after \<open>end\<close> sends anything.\<close>

theorem head_once_then_data:
  assumes "fresh m"
  shows "\<exists>h. sent_text (snd (out_run (before @ End x # after) m)) =
      getMessageHeaderRaw h @ concat (fst (out_run (before @ [End x]) m)) \<and>
    fst (out_run (before @ End x # after) m) = fst (out_run (before @ [End x]) m)"
proof -
  obtain ds u where u: "out_run (before @ [End x]) m = (ds, u)"
    by (cases "out_run (before @ [End x]) m")
  obtain es v where v: "out_run after u = (es, v)" by (cases "out_run after u")
  have run: "out_run (before @ End x # after) m = (ds @ es, v)"
    using out_run_append [of "before @ [End x]" after m] by (simp add: u v)
  have "closed u" "sent_so_far u ds" using run_end [OF assms u] by simp_all
  then show ?thesis
    using run_after_headers [OF _ v] by (auto simp: run u sent_so_far_def)
qed

theorem head_once_then_data_witness:
  "fst (out_run [SetStatus 404, End ''no'', Write ''x'', End ''y''] (ServerResponse message_init)) =
   fst (out_run [SetStatus 404, End ''no''] (ServerResponse message_init))"
proof -
  have "fresh (ServerResponse message_init)"
    by (simp add: fresh_def ServerResponse_def OutgoingMessage_from_def setHeader_def)
  from head_once_then_data [OF this, of "[SetStatus 404]" "''no''" "[Write ''x'', End ''y'']"]
  show ?thesis by simp
qed

end
