(* ===== verification/Loops.thy ===== *)
theory Loops
  imports Prelude
begin

text \<open>
  The loops and the registry of the loop of each thread: \<open>src/Loop.cpp\<close>. Threads and loops are
  numbers; the map's values are weak pointers, and \<open>l_alive\<close> holds the loops that are not
  destroyed. The read-write lock of the map makes each operation atomic. What \<open>uv_run\<close> does is
  a parameter of \<open>run\<close>.
\<close>

section \<open>State\<close>

record loop =
  l_uv :: bool
  l_started :: bool
  l_threadId :: "nat option"

record loops =
  l_map :: "(nat, nat) omap"
  l_alive :: "nat list"
  l_obj :: "nat \<Rightarrow> loop"
  l_next :: nat

definition no_loops :: loops where
  "no_loops = \<lparr>l_map = [], l_alive = [], l_obj = (\<lambda>_. \<lparr>l_uv = False, l_started = False, l_threadId = None\<rparr>),
     l_next = 0\<rparr>"

section \<open>The registry\<close>

text \<open>\<open>deregisterLoop\<close> erases the first entry that points to the loop; an expired pointer never
does.\<close>

fun erase_loop :: "nat list \<Rightarrow> nat \<Rightarrow> (nat, nat) omap \<Rightarrow> bool \<times> (nat, nat) omap" where
  "erase_loop alive l [] = (False, [])"
| "erase_loop alive l ((t, m) # es) =
     (if m \<in> set alive \<and> m = l then (True, es)
      else (fst (erase_loop alive l es), (t, m) # snd (erase_loop alive l es)))"

definition deregisterLoop :: "nat \<Rightarrow> loops \<Rightarrow> bool \<times> loops" where
  "deregisterLoop l s =
     (case erase_loop (l_alive s) l (l_map s) of (b, m) \<Rightarrow> (b, s\<lparr>l_map := m\<rparr>))"

definition registerLoop :: "nat \<Rightarrow> nat \<Rightarrow> loops \<Rightarrow> loops" where
  "registerLoop t l s =
     (let s' = snd (deregisterLoop l s) in s'\<lparr>l_map := omap_set (<) t l (l_map s')\<rparr>)"

text \<open>\<open>Loop::Create\<close> and the constructor, called on thread \<open>t\<close>; \<open>u\<close>: \<open>uv_loop_init\<close> succeeds.
A loop for which it fails has no \<open>_uv_loop\<close>, but it is registered.\<close>

definition Loop_Create :: "bool \<Rightarrow> nat \<Rightarrow> loops \<Rightarrow> nat \<times> loops" where
  "Loop_Create u t s =
     (let l = l_next s in
      (l, registerLoop t l (s\<lparr>l_next := Suc l, l_alive := l # l_alive s,
         l_obj := (l_obj s)(l := \<lparr>l_uv = u, l_started = False, l_threadId = None\<rparr>)\<rparr>)))"

definition Loop_GetInstance :: "nat \<Rightarrow> loops \<Rightarrow> nat option" where
  "Loop_GetInstance t s = (case omap_find (<) t (l_map s) of
     Some l \<Rightarrow> if l \<in> set (l_alive s) then Some l else None | None \<Rightarrow> None)"

definition Loop_GetInstanceSafe :: "nat \<Rightarrow> (loops, nat) M" where
  "Loop_GetInstanceSafe t s = (case Loop_GetInstance t s of
     None \<Rightarrow> (Inl (AssertExn ''instance''), s) | Some l \<Rightarrow> (Inr l, s))"

definition isOnEventLoopThread :: "nat \<Rightarrow> nat \<Rightarrow> loops \<Rightarrow> bool" where
  "isOnEventLoopThread t l s \<longleftrightarrow>
     \<not> l_started (l_obj s l) \<or> l_threadId (l_obj s l) = Some t"

text \<open>\<open>run\<close>, \<open>run_once\<close> and \<open>run_nowait\<close> on thread \<open>t\<close>: before and after \<open>uv_run\<close>.\<close>

definition run_begin :: "nat \<Rightarrow> nat \<Rightarrow> loops \<Rightarrow> loops" where
  "run_begin t l s = registerLoop t l
     (s\<lparr>l_obj := (l_obj s)(l := (l_obj s l)\<lparr>l_started := True, l_threadId := Some t\<rparr>)\<rparr>)"

definition run_end :: "nat \<Rightarrow> loops \<Rightarrow> loops" where
  "run_end l s = s\<lparr>l_obj := (l_obj s)(l := (l_obj s l)\<lparr>l_started := False\<rparr>)\<rparr>"

definition run_nowait :: "nat \<Rightarrow> nat \<Rightarrow> (loops \<Rightarrow> int \<times> loops) \<Rightarrow> (loops, bool) M" where
  "run_nowait t l uv_run s =
     (case uv_run (run_begin t l s) of (r, s') \<Rightarrow> (Inr (r = 0), run_end l s'))"

text \<open>\<open>run\<close> and \<open>run_once\<close> differ in the mode they give to \<open>uv_run\<close>.\<close>

definition Loop_run :: "nat \<Rightarrow> nat \<Rightarrow> (loops \<Rightarrow> int \<times> loops) \<Rightarrow> (loops, bool) M" where
  "Loop_run t l uv_run = thenM (assertM (\<lambda>s. l_uv (l_obj s l)) ''_uv_loop'') (run_nowait t l uv_run)"

text \<open>The function \<open>native::run\<close>.\<close>

definition native_run :: "nat \<Rightarrow> (nat \<Rightarrow> loops \<Rightarrow> int \<times> loops) \<Rightarrow> (loops, bool) M" where
  "native_run t uv_run = bindM (Loop_GetInstanceSafe t) (\<lambda>l. Loop_run t l (uv_run l))"

text \<open>The destructor: the weak pointers to the loop are expired when it runs.\<close>

definition Loop_destroy :: "nat \<Rightarrow> loops \<Rightarrow> loops" where
  "Loop_destroy l s = snd (deregisterLoop l (s\<lparr>l_alive := removeAll l (l_alive s)\<rparr>))"

text \<open>\<open>HandleDeleter\<close>: \<open>uv_loop_close\<close> is called until it succeeds; \<open>r\<close> gives its results and \<open>n\<close>
bounds the number of calls.\<close>

fun close_uv_loop :: "nat \<Rightarrow> (nat \<Rightarrow> int) \<Rightarrow> nat \<Rightarrow> nat option" where
  "close_uv_loop 0 r i = None"
| "close_uv_loop (Suc n) r i = (if r i = 0 then Some i else close_uv_loop n r (Suc i))"

section \<open>Lemmas\<close>

lemma erase_loop_sub: "set (snd (erase_loop A l m)) \<subseteq> set m"
  by (induction A l m rule: erase_loop.induct) auto

lemma erase_loop_expired: "l \<notin> set A \<Longrightarrow> erase_loop A l m = (False, m)"
  by (induction A l m rule: erase_loop.induct) auto

lemma erase_loop_keys: "fst ` set (snd (erase_loop A l m)) \<subseteq> fst ` set m"
  using erase_loop_sub by (rule image_mono)

lemma erase_loop_sorted: "omap_sorted (<) m \<Longrightarrow> omap_sorted (<) (snd (erase_loop A l m))"
proof (induction m)
  case (Cons p m)
  obtain t k where p: "p = (t, k)" by (cases p)
  have sub: "x \<in> set (snd (erase_loop A l m)) \<Longrightarrow> x \<in> set m" for x
    using erase_loop_sub [of A l m] by blast
  show ?case using Cons by (auto simp: p dest!: sub split: prod.splits)
qed simp

text \<open>A loop has at most one thread.\<close>

definition registry_ok :: "loops \<Rightarrow> bool" where
  "registry_ok s \<longleftrightarrow> omap_sorted (<) (l_map s) \<and>
     (\<forall>t u l. l \<in> set (l_alive s) \<longrightarrow> (t, l) \<in> set (l_map s) \<longrightarrow> (u, l) \<in> set (l_map s) \<longrightarrow> t = u) \<and>
     (\<forall>(t, l) \<in> set (l_map s). l < l_next s) \<and> (\<forall>l \<in> set (l_alive s). l < l_next s)"

lemma erase_loop_gone:
  assumes "l \<in> set A" and "\<forall>t u. (t, l) \<in> set m \<longrightarrow> (u, l) \<in> set m \<longrightarrow> t = u" and "omap_sorted (<) m"
  shows "(t, l) \<notin> set (snd (erase_loop A l m))"
  using assms
proof (induction m)
  case (Cons p m)
  obtain u k where p: "p = (u, k)" by (cases p)
  show ?case
  proof (cases "k = l")
    case True
    have "(t, l) \<notin> set m"
    proof
      assume t: "(t, l) \<in> set m"
      then have "t = u" using Cons.prems(2) unfolding p True by (meson list.set_intros)
      with t Cons.prems(3) show False unfolding p omap_sorted_Cons by force
    qed
    with True Cons.prems(1) show ?thesis unfolding p by simp
  next
    case False
    moreover have "(t, l) \<notin> set (snd (erase_loop A l m))"
    proof (rule Cons.IH [OF Cons.prems(1)])
      show "\<forall>t u. (t, l) \<in> set m \<longrightarrow> (u, l) \<in> set m \<longrightarrow> t = u"
        using Cons.prems(2) by (meson list.set_intros(2))
      show "omap_sorted (<) m" using Cons.prems(3) unfolding p omap_sorted_Cons by blast
    qed
    ultimately show ?thesis unfolding p by simp
  qed
qed simp

lemma nat_set_in:
  "(a, v) \<in> set (omap_set ((<) :: nat \<Rightarrow> nat \<Rightarrow> bool) k w m) \<Longrightarrow> (a, v) \<in> set m \<or> (a = k \<and> v = w)"
  by (induction m) (auto split: if_splits)

lemma registerLoop_ok:
  assumes "registry_ok s" and "l \<in> set (l_alive s)"
  shows "registry_ok (registerLoop t l s)"
proof -
  let ?m = "snd (erase_loop (l_alive s) l (l_map s))"
  have s: "omap_sorted (<) (l_map s)" and b: "l < l_next s"
    using assms by (auto simp: registry_ok_def)
  have gone: "(u, l) \<notin> set ?m" for u
    using assms s by (intro erase_loop_gone) (auto simp: registry_ok_def)
  have map: "l_map (registerLoop t l s) = omap_set (<) t l ?m"
    "l_alive (registerLoop t l s) = l_alive s" "l_next (registerLoop t l s) = l_next s"
    by (simp_all add: registerLoop_def deregisterLoop_def Let_def split: prod.splits)
  have el: "(u, k) \<in> set (omap_set (<) t l ?m) \<Longrightarrow> (u, k) \<in> set (l_map s) \<and> k \<noteq> l \<or> u = t \<and> k = l" for u k
    using gone erase_loop_sub [of "l_alive s" l "l_map s"] by (blast dest: nat_set_in)
  have "omap_sorted (<) (omap_set (<) t l ?m)"
    by (intro nat_keys.sorted_set erase_loop_sorted s)
  moreover have "u = v" if "k \<in> set (l_alive s)" "(u, k) \<in> set (omap_set (<) t l ?m)"
    "(v, k) \<in> set (omap_set (<) t l ?m)" for u v k
    using el [OF that(2)] el [OF that(3)] that(1) assms(1) by (auto simp: registry_ok_def)
  moreover have "k < l_next s" if "(u, k) \<in> set (omap_set (<) t l ?m)" for u k
    using el [OF that] assms(1) b by (auto simp: registry_ok_def)
  ultimately show ?thesis
    using assms(1) unfolding registry_ok_def map by (auto simp: registry_ok_def)
qed

lemma Loop_create_ok:
  assumes "registry_ok s"
  shows "registry_ok (snd (Loop_Create u t s)) \<and> fst (Loop_Create u t s) \<in> set (l_alive (snd (Loop_Create u t s)))"
proof -
  let ?s = "s\<lparr>l_next := Suc (l_next s), l_alive := l_next s # l_alive s,
    l_obj := (l_obj s)(l_next s := \<lparr>l_uv = u, l_started = False, l_threadId = None\<rparr>)\<rparr>"
  have "registry_ok ?s" using assms by (fastforce simp: registry_ok_def)
  then have "registry_ok (registerLoop t (l_next s) ?s)" by (rule registerLoop_ok) simp
  then show ?thesis
    by (simp add: Loop_Create_def Let_def registerLoop_def deregisterLoop_def split: prod.splits)
qed

lemma Loop_destroy_ok: "registry_ok s \<Longrightarrow> registry_ok (Loop_destroy l s)"
proof -
  assume ok: "registry_ok s"
  let ?A = "removeAll l (l_alive s)" and ?m = "snd (erase_loop (removeAll l (l_alive s)) l (l_map s))"
  have eq: "l_map (Loop_destroy l s) = ?m" "l_alive (Loop_destroy l s) = ?A"
    "l_next (Loop_destroy l s) = l_next s"
    by (simp_all add: Loop_destroy_def deregisterLoop_def split: prod.splits)
  have "omap_sorted (<) ?m" using ok by (intro erase_loop_sorted) (simp add: registry_ok_def)
  moreover have "set ?m \<subseteq> set (l_map s)" by (rule erase_loop_sub)
  ultimately show ?thesis
    using ok unfolding registry_ok_def eq by fastforce
qed

lemma find_register:
  "omap_find (<) t (l_map (registerLoop t l s)) = Some l" "l_alive (registerLoop t l s) = l_alive s"
  by (simp_all add: registerLoop_def deregisterLoop_def Let_def nat_keys.find_set_same split: prod.splits)

section \<open>Properties\<close>

text \<open>What the threads may do.\<close>

inductive loops_step :: "loops \<Rightarrow> loops \<Rightarrow> bool" where
  new: "loops_step s (snd (Loop_Create u t s))"
| begin_run: "l \<in> set (l_alive s) \<Longrightarrow> loops_step s (run_begin t l s)"
| end_run: "loops_step s (run_end l s)"
| destroy: "loops_step s (Loop_destroy l s)"

abbreviation loops_reach :: "loops \<Rightarrow> bool" where
  "loops_reach \<equiv> reached (\<lambda>s. s = no_loops) loops_step"

lemma registry_ok_step:
  assumes "registry_ok s" and "loops_step s s'"
  shows "registry_ok s'"
  using assms(2)
proof cases
  case (begin_run l t)
  then have "registry_ok (s\<lparr>l_obj := (l_obj s)(l := (l_obj s l)\<lparr>l_started := True, l_threadId := Some t\<rparr>)\<rparr>)"
    using assms(1) by (simp add: registry_ok_def)
  with begin_run show ?thesis by (simp add: run_begin_def registerLoop_ok)
next
  case (end_run l)
  with assms(1) show ?thesis by (simp add: registry_ok_def run_end_def)
qed (simp_all add: Loop_create_ok Loop_destroy_ok assms(1))

interpretation registry: invariant "\<lambda>s. s = no_loops" loops_step registry_ok
proof
  show "registry_ok s" if "s = no_loops" for s using that by (simp add: registry_ok_def no_loops_def)
qed (rule registry_ok_step)



end
