(* ===== verification/AsyncFresh.thy ===== *)
theory AsyncFresh
  imports AsyncProps
begin

text \<open>
  A future that belongs to no promise and no callback, like the future of a worker or of a
  pending request of the library, is settled by nobody but its owner: every operation of the
  asynchronous core, and every step of the loop, keeps \<open>fresh\<close>. Waiters may be attached to it.
\<close>

definition fresh_at :: "fid \<Rightarrow> 'v st \<Rightarrow> bool" where
  "fresh_at f s = fresh s f"

definition not_fwd :: "fid \<Rightarrow> cbfn \<Rightarrow> bool" where
  "not_fwd f fn \<longleftrightarrow> fn \<noteq> FwdResolve f \<and> fn \<noteq> FwdReject f"

lemma not_fwd_simps [simp]:
  "not_fwd f (UserFn n)" "not_fwd f (Attach g a)"
  "not_fwd f (FwdResolve g) \<longleftrightarrow> g \<noteq> f" "not_fwd f (FwdReject g) \<longleftrightarrow> g \<noteq> f"
  by (auto simp: not_fwd_def)

lemma fresh_atD:
  assumes "fresh_at f s"
  shows "f < length (futs s)" "\<not> f_promise (futs s ! f)" "f_resolver (futs s ! f) = None"
    "a < length (acts s) \<Longrightarrow> a_future (acts s ! a) \<noteq> f"
    "a < length (acts s) \<Longrightarrow> not_fwd f (a_fn (acts s ! a))"
  using assms by (auto simp: fresh_at_def fresh_def unsettled_def res_act_def rej_act_def not_fwd_def)

lemma fresh_atI:
  assumes "f < length (futs s)" "\<not> f_promise (futs s ! f)" "f_resolver (futs s ! f) = None"
    "\<And>a. a < length (acts s) \<Longrightarrow> a_future (acts s ! a) \<noteq> f \<and> not_fwd f (a_fn (acts s ! a))"
  shows "fresh_at f s"
  using assms by (auto simp: fresh_at_def fresh_def unsettled_def res_act_def rej_act_def not_fwd_def)

abbreviation keeps_fresh :: "fid \<Rightarrow> ('v st, 'a) M \<Rightarrow> bool" where
  "keeps_fresh f m \<equiv> keeps (fresh_at f) (fresh_at f) m"

lemma fresh_mono:
  assumes f: "fresh_at f s" and "length (futs s) \<le> length (futs t)"
    and fu: "f_promise (futs t ! f) = f_promise (futs s ! f)"
      "f_resolver (futs t ! f) = f_resolver (futs s ! f)"
    and ac: "\<And>a. a < length (acts t) \<Longrightarrow>
      a < length (acts s) \<and> a_future (acts t ! a) = a_future (acts s ! a) \<and> a_fn (acts t ! a) = a_fn (acts s ! a)
      \<or> a_future (acts t ! a) \<noteq> f \<and> not_fwd f (a_fn (acts t ! a))"
  shows "fresh_at f t"
proof (rule fresh_atI)
  show "f < length (futs t)" using fresh_atD(1) [OF f] assms(2) by simp
  show "\<not> f_promise (futs t ! f)" using fresh_atD(2) [OF f] fu by simp
  show "f_resolver (futs t ! f) = None" using fresh_atD(3) [OF f] fu by simp
  show "a_future (acts t ! a) \<noteq> f \<and> not_fwd f (a_fn (acts t ! a))" if "a < length (acts t)" for a
    using ac [OF that] fresh_atD(4,5) [OF f, of a] by auto
qed

section \<open>The operations\<close>

lemma fresh_upd_act:
  assumes "\<And>x. a_future (g x) = a_future x \<and> a_fn (g x) = a_fn x" and "fresh_at f s"
  shows "fresh_at f (upd_act a g s)"
proof (rule fresh_mono [OF assms(2)])
  fix b assume b: "b < length (acts (upd_act a g s))"
  then show "b < length (acts s) \<and> a_future (acts (upd_act a g s) ! b) = a_future (acts s ! b) \<and>
      a_fn (acts (upd_act a g s) ! b) = a_fn (acts s ! b)
    \<or> a_future (acts (upd_act a g s) ! b) \<noteq> f \<and> not_fwd f (a_fn (acts (upd_act a g s) ! b))"
    using assms(1) by (cases "b = a") (simp_all add: upd_act_def)
qed (simp_all add: upd_act_def)

lemma fresh_fields:
  assumes "fresh_at f s" "futs t = futs s" "acts t = acts s"
  shows "fresh_at f t"
  by (rule fresh_mono [OF assms(1)]) (auto simp: assms)

lemma keeps_fresh_upd:
  "(\<And>x. a_future (g x) = a_future x \<and> a_fn (g x) = a_fn x) \<Longrightarrow> keeps_fresh f (modM (upd_act a g))"
  by (intro keeps_mod fresh_upd_act) auto

lemma keeps_fresh_enqueue: "keeps_fresh f (enqueue E a)"
proof -
  have log: "keeps_fresh f (modM (log_enqueue a))"
    by (rule keeps_mod, erule fresh_fields) (simp_all add: log_enqueue_def)
  show ?thesis
    unfolding enqueue_def increaseInstance_def
    by (auto intro!: keeps_then keeps_fresh_upd log)
qed

lemma keeps_fresh_resolve_action: "keeps_fresh f (resolver_resolve_action E r a)"
  unfolding resolver_resolve_action_eq
  by (intro keeps_then keeps_assert keeps_fresh_upd keeps_fresh_enqueue) auto

lemma keeps_fresh_settle:
  assumes "g \<noteq> f"
  shows "keeps_fresh f (future_resolve E g v)" "keeps_fresh f (future_reject E g e)"
proof -
  have set: "keeps_fresh f (modM (set_resolver g r))" for r
    by (rule keeps_mod, erule fresh_mono) (auto simp: set_resolver_def upd_fut_def assms)
  have body: "keeps_fresh f (\<lambda>s. if f_resolver (futs s ! g) \<noteq> None then throwM PromiseAlreadySatisfied s
      else thenM (modM (set_resolver g r))
        (forM (f_actions (futs s ! g)) (resolver_resolve_action E r')) s)" for r r'
  proof (rule keepsI)
    fix s q t
    assume s: "fresh_at f s" and ok: "ok q"
      and run: "(if f_resolver (futs s ! g) \<noteq> None then throwM PromiseAlreadySatisfied s
        else thenM (modM (set_resolver g r)) (forM (f_actions (futs s ! g)) (resolver_resolve_action E r')) s) = (q, t)"
    have "keeps_fresh f (thenM (modM (set_resolver g r)) (forM (f_actions (futs s ! g)) (resolver_resolve_action E r')))"
      by (intro keeps_then set keeps_for keeps_fresh_resolve_action)
    from keepsD [OF this s] run ok s show "fresh_at f t"
      by (auto simp: throwM_def split: if_splits)
  qed
  show "keeps_fresh f (future_resolve E g v)" "keeps_fresh f (future_reject E g e)"
    unfolding future_resolve_def future_reject_def by (intro keeps_then keeps_assert body)+
qed

lemma fresh_add_action_future:
  assumes "not_fwd f fn" and s: "fresh_at f s"
  shows "fresh_at f (add_action k fn (length (futs s)) (add_future False s))"
  using assms(1) fresh_atD(1) [OF s]
  by (intro fresh_mono [OF s]) (auto simp: add_future_nth add_action_nth less_Suc_eq)

lemma fresh_add_fut: 
  assumes s: "fresh_at f s"
  shows "fresh_at f (add_future p s)"
  using fresh_atD(1) [OF s] by (intro fresh_mono [OF s]) (auto simp: add_future_nth)

lemma keeps_fresh_new:
  "keeps_fresh f (new_future p)" "not_fwd f fn \<Longrightarrow> keeps_fresh f (new_action k fn)"
  by (auto simp: keeps_def new_future_eq new_action_eq fresh_add_fut fresh_add_action_future)

lemma keeps_case:
  "(\<And>s. keeps P Q (m s)) \<Longrightarrow> keeps P Q (\<lambda>s. m s s)"
  unfolding keeps_def by blast

lemma keeps_fresh_push: "keeps_fresh f (push_action E g a)"
  unfolding push_action_def
proof (rule keeps_then)
  show "keeps_fresh f (modM (upd_fut g (\<lambda>x. x\<lparr>f_actions := f_actions x @ [a]\<rparr>)))"
  proof (rule keeps_mod)
    fix s assume s: "fresh_at f s"
    show "fresh_at f (upd_fut g (\<lambda>x. x\<lparr>f_actions := f_actions x @ [a]\<rparr>) s)"
      using fresh_atD(1) [OF s]
      by (intro fresh_mono [OF s]) (cases "g = f"; simp add: upd_fut_def)+
  qed
  show "keeps_fresh f (\<lambda>s. case f_resolver (futs s ! g) of None \<Rightarrow> retM () s
       | Some r \<Rightarrow> resolver_resolve_action E r a s)"
    unfolding keeps_def
    using keeps_fresh_resolve_action [of f E _ a] by (auto simp: keeps_def retM_def split: option.splits)
qed

lemma keeps_fresh_async: "not_fwd f fn \<Longrightarrow> keeps_fresh f (async E fn)"
  unfolding async_def ActionCallback_Create_def
  using keeps_fresh_resolve_action [of f E "RValue Void"]
  by (intro keeps_bind keeps_then keeps_fresh_new) (simp_all add: keeps_def retM_def)

lemma keeps_fresh_attach:
  assumes "not_fwd f fn"
  shows "keeps_fresh f (attach_action E k g fn)"
proof -
  have "keeps_fresh f (\<lambda>s. if \<not> isOnEventLoopThread s
      then thenM (async E (Attach g a)) (retM ()) s else push_action E g a s)" for a
  proof (rule keepsI)
    fix s q t
    assume s: "fresh_at f s" "ok q" and run: "(if \<not> isOnEventLoopThread s
      then thenM (async E (Attach g a)) (retM ()) s else push_action E g a s) = (q, t)"
    have "keeps_fresh f (thenM (async E (Attach g a)) (retM ()))"
      by (intro keeps_then keeps_fresh_async keeps_ret) simp
    then show "fresh_at f t"
      using run s keeps_fresh_push [of f E g a] keepsD [where P = "fresh_at f" and Q = "fresh_at f"]
      by (metis (full_types))
  qed
  then show ?thesis
    unfolding attach_action_def Create_eq
    by (intro keeps_bind keeps_then keeps_fresh_new assms) (simp_all add: keeps_def retM_def)
qed

lemma keeps_fresh_if:
  assumes "\<And>s. fresh_at f s \<Longrightarrow> P s \<Longrightarrow> keeps_fresh f m"
  shows "keeps_fresh f (thenM (assertM P msg) m)"
proof (rule keepsI)
  fix s q t
  assume s: "fresh_at f s" "ok q" and run: "thenM (assertM P msg) m s = (q, t)"
  show "fresh_at f t"
    using run s keepsD [OF assms [OF s(1)] s(1)] by (cases "P s") (auto simp: monad_defs)
qed

lemma keeps_fresh_api: "keeps_fresh f (run_api E c)"
proof -
  have settle: "keeps_fresh f (on_promise p (promise_resolve E p v))"
    "keeps_fresh f (on_promise p (promise_reject E p e))" for p v e
    unfolding on_promise_def on_future_def promise_resolve_def promise_reject_def
    by (auto intro!: keeps_then keeps_fresh_if keeps_fresh_settle dest: fresh_atD(2))
  show ?thesis
  proof (cases c)
    case (AsyncCall n)
    show ?thesis unfolding AsyncCall run_api.simps
      by (intro keeps_then keeps_fresh_async keeps_ret) simp
  next
    case NewPromise
    show ?thesis unfolding NewPromise run_api.simps promise_new_def
      by (intro keeps_then keeps_fresh_new keeps_ret)
  qed (simp only: run_api.simps settle on_future_def future_then_def future_finally_def future_error_def;
      intro keeps_then keeps_assert keeps_fresh_attach keeps_ret; simp)+
qed

section \<open>The callbacks\<close>

lemma keeps_fresh_call:
  assumes "not_fwd f fn"
  shows "keeps_fresh f (call_fn E fn x)" "keeps_fresh f (call_error_fn E fn e)"
proof -
  have out: "keeps_fresh f (lift_outcome r)" for r
    unfolding lift_outcome_def by (cases r) (simp_all add: keeps_ret keeps_throw)
  have "keeps_fresh f (thenM (forM cs (run_api E)) (lift_outcome r))" for cs r
    by (intro keeps_then keeps_for keeps_fresh_api out)
  then have user: "keeps_fresh f (call_fn E (UserFn n) x)" for n
    by (simp add: keeps_def)
  have "keeps_fresh f (thenM (forM cs (run_api E)) (case r of Inl x \<Rightarrow> throwM x | Inr v \<Rightarrow> retM v))" for cs r
    by (intro keeps_then keeps_for keeps_fresh_api) (cases r; simp add: keeps_ret keeps_throw)
  then have error: "keeps_fresh f (call_error_fn E (UserFn n) e)" for n
    unfolding call_error_fn.simps by (rule keeps_case)
  have put: "keeps_fresh f (thenM (future_resolve E g v) (retM y))"
    "keeps_fresh f (thenM (future_reject E g e) (retM z))" if "g \<noteq> f" for g v e y z
    using that by (intro keeps_then keeps_ret keeps_fresh_settle; simp)+
  have att: "keeps_fresh f (thenM (push_action E g a) (retM y))" for g a y
    by (intro keeps_then keeps_ret keeps_fresh_push)
  show "keeps_fresh f (call_fn E fn x)"
  proof (cases fn)
    case (FwdResolve g)
    with assms put show ?thesis by (cases x) (simp_all add: keeps_throw)
  next
    case (UserFn n)
    show ?thesis unfolding UserFn by (rule user)
  qed (simp_all only: call_fn.simps att keeps_throw)
  show "keeps_fresh f (call_error_fn E fn e)"
    using assms put error by (cases fn) (simp_all add: keeps_throw del: call_error_fn.simps(1))
qed

lemma keeps_fresh_forward: "h \<noteq> f \<Longrightarrow> keeps_fresh f (forward E g h)"
  unfolding forward_def future_then_def future_error_def
  by (auto intro!: keeps_bind keeps_then keeps_fresh_attach)

lemma callFn_fresh:
  assumes s: "fresh_at f s" and a: "a < length (acts s)"
  shows "callFn E a x s = (q, t) \<Longrightarrow> ok q \<Longrightarrow> fresh_at f t"
    and "callFn_error E a e s = (q, t) \<Longrightarrow> ok q \<Longrightarrow> fresh_at f t"
proof -
  let ?fn = "a_fn (acts s ! a)" and ?g = "a_future (acts s ! a)"
  have g: "?g \<noteq> f" "not_fwd f ?fn" using fresh_atD(4,5) [OF s a] .
  have k: "keeps_fresh f (case r of Return v \<Rightarrow> future_resolve E ?g v
         | ReturnFuture h \<Rightarrow> on_future h (forward E h ?g) | Throw e \<Rightarrow> throwM e)" for r
    using g by (cases r) (auto simp: on_future_def intro!: keeps_then keeps_fresh_settle keeps_fresh_forward)
  let ?m = "\<lambda>x. catchFuture (bindM (call_fn E ?fn x) (\<lambda>r. case r of Return v \<Rightarrow> future_resolve E ?g v
         | ReturnFuture h \<Rightarrow> on_future h (forward E h ?g) | Throw e \<Rightarrow> throwM e)) (\<lambda>e. future_reject E ?g e)"
  let ?n = "catchFuture (bindM (call_error_fn E ?fn e) (future_resolve E ?g)) (\<lambda>e'. future_reject E ?g e')"
  have "keeps_fresh f (?m x)" and "keeps_fresh f ?n"
    by (intro keeps_catch keeps_bind k keeps_fresh_settle g keeps_fresh_call)+
  note D = this [THEN keepsD, OF s]
  show "fresh_at f t" if "callFn E a x s = (q, t)" "ok q"
    using that by (intro D(1) [of q]) (simp_all add: callFn_eq Let_def)
  show "fresh_at f t" if "callFn_error E a e s = (q, t)" "ok q"
    using that by (intro D(2) [of q]) (simp_all add: callFn_error_eq Let_def)
qed

lemma execute_fresh:
  assumes s: "fresh_at f s" and a: "a < length (acts s)"
    and run: "executeAsync E a s = (q, t)" "ok q"
  shows "fresh_at f t"
proof -
  have g: "a_future (acts s ! a) \<noteq> f" using fresh_atD(4) [OF s a] .
  have "fresh_at f t" if "resolver_resolveCb E r a s = (q, t)" for r
    using that run(2) callFn_fresh [OF s a] keepsD [OF keeps_fresh_settle(1) [OF g] s]
      keepsD [OF keeps_fresh_settle(2) [OF g] s]
    by (cases r; cases "a_kind (acts s ! a)") (auto simp: resolveCb_def rejectCb_def)
  then show ?thesis
    using run s by (auto simp: executeAsync_def throwM_def split: option.splits)
qed

lemma Async_fresh:
  assumes i: "inv [] s" and a: "a \<in> set (pending s)" and s: "fresh_at f s"
    and run: "Async E a s = (q, t)" and ok: "ok q"
  shows "fresh_at f t"
proof -
  obtain u where u: "executeAsync E a (log_exec a s) = (q, u)"
    and t: "t = (if \<exists>x. q = Inr x then uv_close a u else u)"
    using Async_turn [OF i a run ok] .
  have "fresh_at f (log_exec a s)" by (rule fresh_fields [OF s]) simp_all
  from execute_fresh [OF this _ u ok] inv_pending(1) [OF i a] have "fresh_at f u" by simp
  then show ?thesis unfolding t by (auto intro: fresh_fields simp: uv_close_def)
qed

theorem async_step_fresh:
  assumes "step E s t" and i: "inv [] s" and f: "fresh_at f s"
  shows "fresh_at f t"
  using assms(1)
proof cases
  case (step_call c q)
  then show ?thesis using keepsD [OF keeps_fresh_api f] by blast
next
  case (step_fire a)
  then show ?thesis using Async_fresh [OF i _ f] by force
next
  case (step_closed a)
  then have "t = closed_st a s" using AsyncClosed_eq [OF i] by simp
  then show ?thesis
    by (intro fresh_mono [OF f]) (auto simp: closed_st_nth)
qed (auto intro: fresh_fields [OF f] simp: run_enter_def run_leave_def)

end
