(* ===== verification/AsyncOwner.thy ===== *)
theory AsyncOwner
  imports AsyncFresh
begin

text \<open>
  The contract between the asynchronous core and the components that own futures: a worker its
  future, a handle the promise of its close, a request the promise of its completion. The owner
  makes a future and settles it once; in between nothing that the program or the loop does
  settles it, and afterwards its result stays. \<open>Workers\<close> and \<open>Handles\<close> rest on the
  interpretation of the contract on the store of \<open>Async\<close>.
\<close>

section \<open>The contract\<close>

text \<open>\<open>os\<close> are the futures that owners still have to settle; no two owners share one.\<close>

definition owns :: "('s \<Rightarrow> bool) \<Rightarrow> (fid \<Rightarrow> 's \<Rightarrow> bool) \<Rightarrow> 's \<Rightarrow> fid list \<Rightarrow> bool" where
  "owns valid open_at s os \<longleftrightarrow> valid s \<and> distinct os \<and> (\<forall>f \<in> set os. open_at f s)"

lemma ownsD:
  "owns valid open_at s os \<Longrightarrow> valid s" "owns valid open_at s os \<Longrightarrow> f \<in> set os \<Longrightarrow> open_at f s"
  "owns valid open_at s os \<Longrightarrow> distinct os"
  by (simp_all add: owns_def)

lemma owns_sub: "owns valid open_at s os \<Longrightarrow> distinct ps \<Longrightarrow> set ps \<subseteq> set os \<Longrightarrow> owns valid open_at s ps"
  by (auto simp: owns_def)

locale future_store =
  fixes valid :: "'s \<Rightarrow> bool"
    and open_at :: "fid \<Rightarrow> 's \<Rightarrow> bool"
    and outcome :: "'s \<Rightarrow> fid \<Rightarrow> 'r option"
    and later :: "'s \<Rightarrow> 's \<Rightarrow> bool"
    and new :: "('s, fid) M"
    and settle_it :: "'r \<Rightarrow> fid \<Rightarrow> ('s, unit) M"
    and other :: "'s \<Rightarrow> 's \<Rightarrow> bool"
  assumes open_none: "open_at f s \<Longrightarrow> outcome s f = None"
    and later_final: "later s t \<Longrightarrow> outcome s f = Some r \<Longrightarrow> outcome t f = Some r"
    and new_ok: "valid s \<Longrightarrow> new s = (Inr f, t) \<Longrightarrow> valid t \<and> open_at f t \<and> \<not> open_at f s \<and> later s t"
    and new_keeps: "new s = (Inr f, t) \<Longrightarrow> open_at g s \<Longrightarrow> open_at g t"
    and settle_ok: "valid s \<Longrightarrow> open_at f s \<Longrightarrow> settle_it r f s = (Inr x, t) \<Longrightarrow>
      valid t \<and> outcome t f = Some r \<and> later s t"
    and settle_keeps: "valid s \<Longrightarrow> open_at f s \<Longrightarrow> settle_it r f s = (Inr x, t) \<Longrightarrow> g \<noteq> f \<Longrightarrow> open_at g s \<Longrightarrow> open_at g t"
    and other_ok: "valid s \<Longrightarrow> other s t \<Longrightarrow> valid t \<and> later s t"
    and other_keeps: "valid s \<Longrightarrow> other s t \<Longrightarrow> open_at g s \<Longrightarrow> open_at g t"
begin

abbreviation owning :: "'s \<Rightarrow> fid list \<Rightarrow> bool" where
  "owning \<equiv> owns valid open_at"

lemma owner_makes: "owning s os \<Longrightarrow> new s = (Inr f, t) \<Longrightarrow> owning t (f # os)"
  using new_ok new_keeps unfolding owns_def by fastforce

lemma owner_settles:
  assumes "owning s (f # os)" and "settle_it r f s = (Inr x, t)"
  shows "owning t os" "outcome t f = Some r"
proof -
  have a: "valid s" "open_at f s" "f \<notin> set os" using assms(1) by (auto simp: owns_def)
  note s = settle_ok [OF a(1,2) assms(2)] settle_keeps [OF a(1,2) assms(2)]
  then show "outcome t f = Some r" by blast
  have "open_at g t" if "g \<in> set os" for g
    using s(2) that a(3) assms(1) unfolding owns_def by (metis list.set_intros(2))
  with s(1) assms(1) show "owning t os" by (simp add: owns_def)
qed

lemma owner_waits: "owning s os \<Longrightarrow> other s t \<Longrightarrow> owning t os"
  using other_ok other_keeps unfolding owns_def by fast

text \<open>A promise that is settled before its future is handed out.\<close>

lemma owner_settles_new:
  assumes "owning s os" and "new s = (Inr f, u)" and "settle_it r f u = (Inr x, t)"
  shows "owning t os" "outcome t f = Some r"
  using owner_settles [OF owner_makes [OF assms(1,2)] assms(3)] .

text \<open>However long the program goes on, an owned future stays open and a settled one as it is.\<close>

lemma owner_waits_on: "other\<^sup>*\<^sup>* s t \<Longrightarrow> owning s os \<Longrightarrow> owning t os"
  by (induction rule: rtranclp_induct) (auto intro: owner_waits)

lemma owned_open: "other\<^sup>*\<^sup>* s t \<Longrightarrow> owning s os \<Longrightarrow> f \<in> set os \<Longrightarrow> outcome t f = None"
  by (rule open_none [OF ownsD(2) [OF owner_waits_on]])

lemma settled_stays:
  assumes "owning s (f # os)" and "settle_it r f s = (Inr x, t)" and "other\<^sup>*\<^sup>* t u"
  shows "owning u os \<and> outcome u f = Some r"
  using assms(3)
proof (induction rule: rtranclp_induct)
  case base
  show ?case using owner_settles [OF assms(1,2)] by blast
next
  case (step u v)
  then have "valid u" by (simp add: owns_def)
  with step show ?case using owner_waits later_final other_ok by blast
qed

end

section \<open>The store of the core\<close>

definition outcome_at :: "'v st \<Rightarrow> fid \<Rightarrow> 'v resolver option" where
  "outcome_at s f = (if f < length (futs s) then f_resolver (futs s ! f) else None)"

lemma fresh_settled:
  assumes i: "inv [] s" and f: "fresh_at f s" and run: "resolver_resolve_future E r f s = (Inr x, t)"
  shows "t = settle f r s" "inv [] t" "grows s t" "f_resolver (futs t ! f) = Some r"
    "g \<noteq> f \<Longrightarrow> fresh_at g s \<Longrightarrow> fresh_at g t"
proof -
  note fD = fresh_atD(1,3) [OF f]
  show t: "t = settle f r s" using resolve_future_cases [OF i fD(1) run] fD(2) by simp
  show "inv [] t" using inv_settle [OF i fD] by (simp add: t)
  show "grows s t" using ext_settle [OF i fD] by (simp add: t ext_def)
  show "f_resolver (futs t ! f) = Some r" using settle_fut [OF fD(1)] by (simp add: t)
  show "fresh_at g t" if "g \<noteq> f" "fresh_at g s"
    using keepsD [OF keeps_fresh_settle(1) that(2), of f E _ "Inr x" t]
      keepsD [OF keeps_fresh_settle(2) that(2), of f E _ "Inr x" t] that(1) run by (cases r) auto
qed

lemma resolve_future_fresh:
  assumes "inv [] s" and "fresh_at f s" and "uv_ok E" and "isOnEventLoopThread s"
  shows "resolver_resolve_future E r f s = (Inr (), settle f r s)"
  using resolve_future_uv_ok [OF assms(1) fresh_atD(1) [OF assms(2)] assms(3,4)] fresh_atD(3) [OF assms(2)] by simp

interpretation store: future_store "inv []" fresh_at outcome_at grows "new_future False"
  "resolver_resolve_future E" "step E" for E :: "'v env"
proof
  fix s t :: "'v st" and f g :: fid and r and x :: unit
  show "outcome_at s f = None" if "fresh_at f s" using fresh_atD(3) [OF that] by (simp add: outcome_at_def)
  show "outcome_at t f = Some r" if "grows s t" "outcome_at s f = Some r"
    using that by (auto simp: outcome_at_def grows_def grows_fut_def split: if_splits)
  show "inv [] t \<and> fresh_at f t \<and> \<not> fresh_at f s \<and> grows s t" if "inv [] s" "new_future False s = (Inr f, t)"
    using that inv_add_future fresh_add_future [OF that(1)] ext_add_future [of s False]
    by (auto simp: new_future_eq fresh_at_def ext_def dest: fresh_atD(1) [unfolded fresh_at_def])
  show "fresh_at g t" if "new_future False s = (Inr f, t)" "fresh_at g s"
    using that fresh_add_fut by (auto simp: new_future_eq)
  show "inv [] t \<and> grows s t" if "inv [] s" "step E s t" using that inv_step grows_step by blast
  show "fresh_at g t" if "inv [] s" "step E s t" "fresh_at g s" using async_step_fresh [OF that(2,1,3)] .
  assume a: "inv [] s" "fresh_at f s" "resolver_resolve_future E r f s = (Inr x, t)"
  show "inv [] t \<and> outcome_at t f = Some r \<and> grows s t"
    using fresh_settled [OF a] fresh_atD(1) [OF a(2)] by (auto simp: outcome_at_def grows_def)
  show "g \<noteq> f \<Longrightarrow> fresh_at g s \<Longrightarrow> fresh_at g t" using fresh_settled(5) [OF a] .
qed

section \<open>What owners and the program do together\<close>

inductive owner_step :: "'v env \<Rightarrow> 'v st \<Rightarrow> 'v st \<Rightarrow> bool" for E where
  makes: "owner_step E s (add_future False s)"
| settles: "fresh_at f s \<Longrightarrow> resolver_resolve_future E r f s = (Inr x, t) \<Longrightarrow> owner_step E s t"
| goes_on: "step E s t \<Longrightarrow> owner_step E s t"

lemma own_settle_fresh:
  assumes i: "inv [] s" and o: "own s" and f: "fresh_at f s"
  shows "own (settle f r s)"
proof (rule own_settle [OF i o fresh_atD(1) [OF f]])
  have fr: "fresh s f" using f by (simp add: fresh_at_def)
  show "unsettled s f" "\<And>a. a < length (acts s) \<Longrightarrow> a_future (acts s ! a) = f \<Longrightarrow> a \<in> set (execd s)"
    "\<And>c. res_act s f c \<Longrightarrow> c \<in> set (execd s)" "\<And>d. rej_act s f d \<Longrightarrow> d \<in> set (execd s)"
    using fr by (auto simp: fresh_def)
  show "unsettled s g \<and> g \<noteq> f" if at: "d \<in> set (f_actions (futs s ! f))" and rj: "rej_act s g d" for d g
  proof -
    obtain c where "res_act s g c" "a_future (acts s ! c) = f"
      using rej_attached [OF i o rj fresh_atD(1) [OF f] at] .
    with fr show ?thesis by (auto simp: fresh_def res_act_def)
  qed
qed

lemma owner_step_ok:
  assumes "inv [] s \<and> own s" and "owner_step E s t"
  shows "inv [] t \<and> own t"
  using assms(2)
proof cases
  case makes
  then show ?thesis using assms(1) inv_add_future own_add_future by blast
next
  case (settles f r x)
  then show ?thesis using assms(1) fresh_settled(1,2) own_settle_fresh by metis
next
  case goes_on
  then show ?thesis using owned_core.keeps assms(1) by blast
qed

interpretation owners: invariant "\<lambda>s. \<exists>th. s = init_st th" "owner_step E" "\<lambda>s. inv [] s \<and> own s" for E :: "'v env"
proof
  show "inv [] s \<and> own s" if "\<exists>th. s = init_st th" for s :: "'v st" using that inv_init own_init by blast
qed (rule owner_step_ok)

lemma owner_step_grows:
  assumes "owner_step E s t" and i: "inv [] s"
  shows "grows s t"
  using assms(1)
proof cases
  case makes
  then show ?thesis using ext_add_future [of s False] by (simp add: ext_def)
next
  case (settles f r x)
  then show ?thesis using fresh_settled(3) [OF i] by blast
qed (use grows_step i in blast)

lemma owner_steps_grow: "(owner_step E)\<^sup>*\<^sup>* s t \<Longrightarrow> inv [] s \<Longrightarrow> own s \<Longrightarrow> grows s t"
  by (erule owners.runs_extend) (auto intro: owner_step_grows grows_trans)

end
