(* ===== verification/Workers.thy ===== *)
theory Workers
  imports AsyncOwner
begin

text \<open>
  The work that runs on libuv's threads: \<open>WorkerBase\<close>, \<open>WorkerCallback\<close> and \<open>worker()\<close>
  (\<open>src/worker/*\<close>, \<open>include/native/worker*\<close>). A worker is named by its index. The
  specialisations of \<open>WorkerCallback\<close> differ in the resolver that \<open>callFn\<close> makes of what the
  function returns; \<open>Void\<close> stands for a \<open>void\<close> result.
\<close>

section \<open>State\<close>

text \<open>\<open>FutureSharedResolverValue\<close> or \<open>FutureSharedResolverError\<close>, and \<open>FutureSharedResolverFuture\<close>.\<close>

datatype 'v wresolver = Settled "'v resolver" | Forward fid

record 'v workerObj =
  w_fn :: nat
  w_future :: fid
  w_resolver :: "'v wresolver option"
  w_data :: bool
  w_instance :: bool

text \<open>\<open>p_queue\<close>: given to \<open>uv_queue_work\<close>, not yet run; \<open>p_done\<close>: run, \<open>WorkerAfter\<close> not yet called.\<close>

record 'v pool =
  p_st :: "'v st"
  p_workers :: "'v workerObj list"
  p_queue :: "nat list"
  p_done :: "nat list"

text \<open>The functions of the program that run on a worker thread, and the results of
\<open>uv_queue_work\<close>.\<close>

record 'v wenv =
  work :: "nat \<Rightarrow> 'v outcome"
  uv_queue_work :: "nat \<Rightarrow> int"

definition on_st :: "('v st, 'a) M \<Rightarrow> ('v pool, 'a) M" where
  "on_st m p = (case m (p_st p) of (r, t) \<Rightarrow> (r, p\<lparr>p_st := t\<rparr>))"

definition upd_worker :: "nat \<Rightarrow> ('v workerObj \<Rightarrow> 'v workerObj) \<Rightarrow> 'v pool \<Rightarrow> 'v pool" where
  "upd_worker w g p = p\<lparr>p_workers := (p_workers p)[w := g (p_workers p ! w)]\<rparr>"

section \<open>Operations\<close>

definition WorkerCallback_Create :: "nat \<Rightarrow> ('v pool, nat) M" where
  "WorkerCallback_Create n =
     bindM (on_st (new_future False)) (\<lambda>f p.
       (Inr (length (p_workers p)),
        p\<lparr>p_workers := p_workers p @ [\<lparr>w_fn = n, w_future = f, w_resolver = None,
             w_data = False, w_instance = False\<rparr>]\<rparr>))"

text \<open>\<open>WorkerBase::enqueue\<close>.\<close>

definition worker_enqueue :: "'v wenv \<Rightarrow> nat \<Rightarrow> ('v pool, unit) M" where
  "worker_enqueue W w =
     thenM (assertM (\<lambda>p. \<not> w_instance (p_workers p ! w)) ''!_instance'')
    (thenM (assertM (\<lambda>p. \<not> w_data (p_workers p ! w)) ''this->_uvWork.data == nullptr'')
    (thenM (modM (upd_worker w (\<lambda>x. x\<lparr>w_data := True, w_instance := True\<rparr>)))
    (if uv_queue_work W w \<noteq> 0
     then thenM (modM (upd_worker w (\<lambda>x. x\<lparr>w_data := False, w_instance := False\<rparr>)))
            (throwM (NativeExn ''uv_queue_work''))
     else modM (\<lambda>p. p\<lparr>p_queue := p_queue p @ [w]\<rparr>))))"

text \<open>\<open>callFn\<close> on the worker thread; an exception that is not a \<open>FutureError\<close> leaves it.\<close>

definition set_wresolver :: "nat \<Rightarrow> 'v wresolver \<Rightarrow> ('v pool, unit) M" where
  "set_wresolver w r = modM (upd_worker w (\<lambda>x. x\<lparr>w_resolver := Some r\<rparr>))"

definition worker_callFn :: "'v wenv \<Rightarrow> nat \<Rightarrow> ('v pool, unit) M" where
  "worker_callFn W w = (\<lambda>p0.
     catchFuture
       (case work W (w_fn (p_workers p0 ! w)) of
          Return v \<Rightarrow> set_wresolver w (Settled (RValue v))
        | ReturnFuture g \<Rightarrow> set_wresolver w (Forward g)
        | Throw e \<Rightarrow> throwM e)
       (\<lambda>e. set_wresolver w (Settled (RError e))) p0)"

text \<open>\<open>WorkerBase::Worker\<close>, \<open>executeWorker\<close> and \<open>resolveCb\<close>.\<close>

definition Worker :: "'v wenv \<Rightarrow> nat \<Rightarrow> ('v pool, unit) M" where
  "Worker W w =
     thenM (assertM (\<lambda>p. w_data (p_workers p ! w)) ''iHandle->data != nullptr'')
    (thenM (worker_callFn W w)
    (modM (\<lambda>p. p\<lparr>p_queue := remove1 w (p_queue p), p_done := p_done p @ [w]\<rparr>)))"

text \<open>\<open>FutureSharedResolver::resolve\<close> on the worker's future.\<close>

fun wresolver_resolve :: "'v env \<Rightarrow> 'v wresolver \<Rightarrow> fid \<Rightarrow> ('v st, unit) M" where
  "wresolver_resolve E (Settled r) f = resolver_resolve_future E r f"
| "wresolver_resolve E (Forward g) f = on_future g (forward E g f)"

definition executeWorkerAfter :: "'v env \<Rightarrow> nat \<Rightarrow> ('v pool, unit) M" where
  "executeWorkerAfter E w = (\<lambda>p. case w_resolver (p_workers p ! w) of
     None \<Rightarrow> throwM (AssertExn ''this->_resolver'') p
   | Some r \<Rightarrow> on_st (wresolver_resolve E r (w_future (p_workers p ! w))) p)"

text \<open>\<open>WorkerBase::WorkerAfter\<close>; the status that libuv passes is not looked at.\<close>

definition WorkerAfter :: "'v env \<Rightarrow> nat \<Rightarrow> int \<Rightarrow> ('v pool, unit) M" where
  "WorkerAfter E w status =
     thenM (modM (\<lambda>p. p\<lparr>p_done := remove1 w (p_done p)\<rparr>))
    (thenM (assertM (\<lambda>p. w_data (p_workers p ! w)) ''iHandle->data != nullptr'')
    (thenM (modM (upd_worker w (\<lambda>x. x\<lparr>w_data := False\<rparr>)))
    (thenM (assertM (\<lambda>p. w_instance (p_workers p ! w)) ''currobj->_instance'')
    (thenM (modM (upd_worker w (\<lambda>x. x\<lparr>w_instance := False\<rparr>)))
    (executeWorkerAfter E w)))))"

text \<open>\<open>worker(loop, f)\<close>.\<close>

definition worker :: "'v wenv \<Rightarrow> nat \<Rightarrow> ('v pool, fid) M" where
  "worker W n =
     bindM (WorkerCallback_Create n) (\<lambda>w.
     thenM (worker_enqueue W w) (\<lambda>p. retM (w_future (p_workers p ! w)) p))"

section \<open>Steps\<close>

text \<open>The asynchronous core goes on, a function of the program calls \<open>worker\<close>, a thread of the
pool runs a queued function, and the loop calls \<open>WorkerAfter\<close>.\<close>

inductive pool_step :: "'v env \<Rightarrow> 'v wenv \<Rightarrow> 'v pool \<Rightarrow> 'v pool \<Rightarrow> bool" for E W where
  pool_lib: "step E (p_st p) t \<Longrightarrow> pool_step E W p (p\<lparr>p_st := t\<rparr>)"
| pool_call: "worker W n p = (Inr f, q) \<Longrightarrow> pool_step E W p q"
| pool_run: "w \<in> set (p_queue p) \<Longrightarrow> Worker W w p = (Inr x, q) \<Longrightarrow> pool_step E W p q"
| pool_after: "loop_started (p_st p) \<Longrightarrow> cur_thread (p_st p) = loop_thread (p_st p) \<Longrightarrow>
    w \<in> set (p_done p) \<Longrightarrow> WorkerAfter E w s p = (Inr x, q) \<Longrightarrow> pool_step E W p q"

abbreviation pool_steps :: "'v env \<Rightarrow> 'v wenv \<Rightarrow> 'v pool \<Rightarrow> 'v pool \<Rightarrow> bool" where
  "pool_steps E W \<equiv> (pool_step E W)\<^sup>*\<^sup>*"

definition init_pool :: "nat \<Rightarrow> 'v pool" where
  "init_pool th = \<lparr>p_st = init_st th, p_workers = [], p_queue = [], p_done = []\<rparr>"

abbreviation pool_reach :: "'v env \<Rightarrow> 'v wenv \<Rightarrow> 'v pool \<Rightarrow> bool" where
  "pool_reach E W \<equiv> reached (\<lambda>p. \<exists>th. p = init_pool th) (pool_step E W)"

section \<open>What the operations do\<close>

definition worker_result :: "'v wenv \<Rightarrow> nat \<Rightarrow> 'v wresolver option" where
  "worker_result W n = (case work W n of
     Return v \<Rightarrow> Some (Settled (RValue v))
   | ReturnFuture g \<Rightarrow> Some (Forward g)
   | Throw (FutureExn e) \<Rightarrow> Some (Settled (RError e))
   | Throw _ \<Rightarrow> None)"

lemma worker_callFn_eq:
  "worker_result W (w_fn (p_workers p ! w)) = Some r \<Longrightarrow>
     worker_callFn W w p = (Inr (), upd_worker w (\<lambda>x. x\<lparr>w_resolver := Some r\<rparr>) p)"
  "worker_result W (w_fn (p_workers p ! w)) = None \<Longrightarrow>
     \<exists>e. (\<forall>m. e \<noteq> FutureExn m) \<and> work W (w_fn (p_workers p ! w)) = Throw e \<and>
       worker_callFn W w p = (Inl e, p)"
  unfolding worker_result_def worker_callFn_def catchFuture_def set_wresolver_def
  by (auto simp: monad_defs split: outcome.splits exn.splits)

lemma worker_eq:
  "worker W n p =
    (let w = length (p_workers p);
         x = \<lparr>w_fn = n, w_future = length (futs (p_st p)), w_resolver = None, w_data = False, w_instance = False\<rparr>;
         q = p\<lparr>p_st := add_future False (p_st p)\<rparr>
     in if uv_queue_work W w = 0
        then (Inr (length (futs (p_st p))),
              q\<lparr>p_workers := p_workers p @ [x\<lparr>w_data := True, w_instance := True\<rparr>], p_queue := p_queue p @ [w]\<rparr>)
        else (Inl (NativeExn ''uv_queue_work''), q\<lparr>p_workers := p_workers p @ [x]\<rparr>))"
  by (simp add: worker_def WorkerCallback_Create_def worker_enqueue_def on_st_def new_future_eq monad_defs
      upd_worker_def Let_def)

lemma Worker_eq:
  assumes "w_data (p_workers p ! w)" and "worker_result W (w_fn (p_workers p ! w)) = Some r"
  shows "Worker W w p = (Inr (), upd_worker w (\<lambda>x. x\<lparr>w_resolver := Some r\<rparr>)
     (p\<lparr>p_queue := remove1 w (p_queue p), p_done := p_done p @ [w]\<rparr>))"
  using assms by (simp add: Worker_def monad_defs worker_callFn_eq(1) [OF assms(2)] upd_worker_def)

lemma Worker_throws:
  assumes "w_data (p_workers p ! w)" and "worker_result W (w_fn (p_workers p ! w)) = None"
  shows "\<exists>e. (\<forall>m. e \<noteq> FutureExn m) \<and> work W (w_fn (p_workers p ! w)) = Throw e \<and> Worker W w p = (Inl e, p)"
  using worker_callFn_eq(2) [OF assms(2)] assms(1) by (auto simp: Worker_def monad_defs)

lemma WorkerAfter_eq:
  assumes w: "w < length (p_workers p)" and "w_data (p_workers p ! w)" "w_instance (p_workers p ! w)"
    and r: "w_resolver (p_workers p ! w) = Some r"
    and run: "wresolver_resolve E r (w_future (p_workers p ! w)) (p_st p) = (q, t)"
  shows "WorkerAfter E w st p = (q, upd_worker w (\<lambda>x. x\<lparr>w_data := False, w_instance := False\<rparr>)
     (p\<lparr>p_done := remove1 w (p_done p), p_st := t\<rparr>))"
  using assms by (simp add: WorkerAfter_def executeWorkerAfter_def on_st_def monad_defs upd_worker_def)

section \<open>Invariant\<close>

text \<open>A worker waits for a thread, waits for the loop, or is finished.\<close>

definition worker_ok :: "'v wenv \<Rightarrow> nat set \<Rightarrow> nat set \<Rightarrow> 'v st \<Rightarrow> nat \<Rightarrow> 'v workerObj \<Rightarrow> bool" where
  "worker_ok W Q D s w x \<longleftrightarrow> w_future x < length (futs s) \<and>
     w_data x = (w \<in> Q \<union> D) \<and> w_instance x = (w \<in> Q \<union> D) \<and>
     w_resolver x = (if w \<in> Q then None else worker_result W (w_fn x)) \<and>
     (w \<notin> Q \<longrightarrow> worker_result W (w_fn x) \<noteq> None) \<and>
     (if w \<in> Q \<union> D then fresh_at (w_future x) s
      else \<forall>r. worker_result W (w_fn x) = Some (Settled r) \<longrightarrow> f_resolver (futs s ! w_future x) = Some r)"

definition pool_ok :: "'v wenv \<Rightarrow> 'v pool \<Rightarrow> bool" where
  "pool_ok W p \<longleftrightarrow> inv [] (p_st p) \<and> distinct (p_queue p @ p_done p) \<and>
     set (p_queue p @ p_done p) \<subseteq> {..< length (p_workers p)} \<and> distinct (map w_future (p_workers p)) \<and>
     (\<forall>w < length (p_workers p).
        worker_ok W (set (p_queue p)) (set (p_done p)) (p_st p) w (p_workers p ! w))"

lemma worker_ok_grow:
  assumes "worker_ok W Q D s w x" and "grows s t"
    and "w \<in> Q \<union> D \<Longrightarrow> fresh_at (w_future x) s \<Longrightarrow> fresh_at (w_future x) t"
  shows "worker_ok W Q D t w x"
  using assms unfolding worker_ok_def grows_def grows_fut_def by (auto split: if_splits)

lemma wresolve_props:
  assumes i: "inv [] s" and f: "fresh_at f s" and run: "wresolver_resolve E r f s = (Inr x, t)"
  shows "inv [] t" "grows s t" "g \<noteq> f \<Longrightarrow> fresh_at g s \<Longrightarrow> fresh_at g t"
    "r = Settled y \<Longrightarrow> f_resolver (futs t ! f) = Some y"
proof -
  note fD = fresh_atD(1,3) [OF f]
  have "inv [] t \<and> grows s t \<and> (g \<noteq> f \<longrightarrow> fresh_at g s \<longrightarrow> fresh_at g t) \<and>
    (r = Settled y \<longrightarrow> f_resolver (futs t ! f) = Some y)"
  proof (cases r)
    case (Settled r')
    with run have "resolver_resolve_future E r' f s = (Inr x, t)" by simp
    note s = fresh_settled [OF i f this]
    from s(2-4) s(5) [of g] Settled show ?thesis by blast
  next
    case (Forward h)
    with run have "h < length (futs s)" and fw: "forward E h f s = (Inr x, t)"
      by (auto simp: on_future_def monad_defs split: if_splits)
    then have "stable [] s t"
      using keeps_stable_D [OF keeps_forward i fw] fD(1) by simp
    moreover have "fresh_at g t" if "g \<noteq> f" "fresh_at g s"
      using keepsD [OF keeps_fresh_forward that(2) fw] that(1) by auto
    ultimately show ?thesis using Forward by (simp add: stable_def ext_def)
  qed
  then show "inv [] t" "grows s t" "g \<noteq> f \<Longrightarrow> fresh_at g s \<Longrightarrow> fresh_at g t"
    "r = Settled y \<Longrightarrow> f_resolver (futs t ! f) = Some y"
    by simp_all
qed

lemma pool_okD:
  assumes "pool_ok W p" and "w < length (p_workers p)"
  shows "worker_ok W (set (p_queue p)) (set (p_done p)) (p_st p) w (p_workers p ! w)"
  using assms by (simp add: pool_ok_def)

lemma pool_ok_range:
  assumes "pool_ok W p"
  shows "w \<in> set (p_queue p) \<Longrightarrow> w < length (p_workers p)" "w \<in> set (p_done p) \<Longrightarrow> w < length (p_workers p)"
  using assms by (auto simp: pool_ok_def)

lemma pool_ok_lib:
  assumes ok: "pool_ok W p" and st: "step E (p_st p) t"
  shows "pool_ok W (p\<lparr>p_st := t\<rparr>)"
proof -
  have i: "inv [] (p_st p)" using ok by (simp add: pool_ok_def)
  have "worker_ok W (set (p_queue p)) (set (p_done p)) t w (p_workers p ! w)"
    if "w < length (p_workers p)" for w
    using worker_ok_grow [OF pool_okD [OF ok that]] store.other_ok [OF i st] store.other_keeps [OF i st] by blast
  then show ?thesis using ok store.other_ok [OF i st] by (simp add: pool_ok_def)
qed

lemma pool_ok_call:
  assumes ok: "pool_ok W p" and run: "worker W n p = (Inr f, q)"
  shows "pool_ok W q"
proof -
  let ?s = "p_st p" and ?n = "length (p_workers p)"
  let ?x = "\<lparr>w_fn = n, w_future = length (futs ?s), w_resolver = None, w_data = True, w_instance = True\<rparr>"
  have q: "q = p\<lparr>p_st := add_future False ?s, p_workers := p_workers p @ [?x], p_queue := p_queue p @ [?n]\<rparr>"
    using run by (auto simp: worker_eq Let_def split: if_splits)
  have i: "inv [] ?s" using ok by (simp add: pool_ok_def)
  have g: "grows ?s (add_future False ?s)" and fr: "fresh_at (length (futs ?s)) (add_future False ?s)"
    and i': "inv [] (add_future False ?s)" using store.new_ok [OF i new_future_eq] by blast+
  have "worker_ok W (set (p_queue q)) (set (p_done q)) (p_st q) w (p_workers q ! w)"
    if "w < Suc ?n" for w
  proof (cases "w = ?n")
    case True
    then show ?thesis using fr by (simp add: q worker_ok_def)
  next
    case False
    with that have w: "w < ?n" by simp
    from worker_ok_grow [OF pool_okD [OF ok w] g] fresh_add_fut
    have "worker_ok W (set (p_queue p)) (set (p_done p)) (add_future False ?s) w (p_workers p ! w)" by blast
    with w show ?thesis by (simp add: q worker_ok_def nth_append)
  qed
  moreover have "length (futs ?s) \<notin> w_future ` set (p_workers p)"
    using pool_okD [OF ok] by (force simp: worker_ok_def in_set_conv_nth)
  moreover have "?n \<notin> set (p_queue p) \<union> set (p_done p)" using pool_ok_range [OF ok] by blast
  moreover have "inv [] (p_st q)" using i' by (simp add: q)
  ultimately show ?thesis using ok by (auto simp: pool_ok_def q less_Suc_eq)
qed

lemma pool_ok_run:
  assumes ok: "pool_ok W p" and w: "w \<in> set (p_queue p)" and run: "Worker W w p = (Inr x, q)"
  shows "pool_ok W q"
proof -
  note len = pool_ok_range(1) [OF ok w]
  have wok: "worker_ok W (set (p_queue p)) (set (p_done p)) (p_st p) w (p_workers p ! w)"
    by (rule pool_okD [OF ok len])
  then have d: "w_data (p_workers p ! w)" using w by (simp add: worker_ok_def)
  with run Worker_throws [OF d, of W] obtain r where r: "worker_result W (w_fn (p_workers p ! w)) = Some r"
    by (cases "worker_result W (w_fn (p_workers p ! w))") auto
  have q: "q = upd_worker w (\<lambda>x. x\<lparr>w_resolver := Some r\<rparr>)
     (p\<lparr>p_queue := remove1 w (p_queue p), p_done := p_done p @ [w]\<rparr>)"
    using run by (simp add: Worker_eq [OF d r])
  have dist: "distinct (p_queue p @ p_done p)" using ok by (simp add: pool_ok_def)
  have "worker_ok W (set (p_queue q)) (set (p_done q)) (p_st q) v (p_workers q ! v)"
    if "v < length (p_workers p)" for v
    using pool_okD [OF ok that] wok w r dist that
    by (cases "v = w") (auto simp: q upd_worker_def worker_ok_def)
  moreover have "map w_future (p_workers q) = map w_future (p_workers p)"
    using len by (simp add: q upd_worker_def map_update list_update_same_conv)
  ultimately show ?thesis
    using ok len dist w by (auto simp: pool_ok_def q upd_worker_def)
qed

lemma pool_ok_done:
  assumes ok: "pool_ok W p" and w: "w \<in> set (p_done p)"
  obtains r where "w < length (p_workers p)" "w_data (p_workers p ! w)" "w_instance (p_workers p ! w)"
    "w_resolver (p_workers p ! w) = Some r" "worker_result W (w_fn (p_workers p ! w)) = Some r"
    "fresh_at (w_future (p_workers p ! w)) (p_st p)" "w \<notin> set (p_queue p)"
proof -
  note len = pool_ok_range(2) [OF ok w]
  have "w \<notin> set (p_queue p)" using ok w by (auto simp: pool_ok_def)
  with pool_okD [OF ok len] w len that show thesis by (auto simp: worker_ok_def)
qed

lemma pool_ok_after:
  assumes ok: "pool_ok W p" and w: "w \<in> set (p_done p)" and run: "WorkerAfter E w st p = (Inr x, q)"
  shows "pool_ok W q"
proof -
  obtain r where len: "w < length (p_workers p)" and d: "w_data (p_workers p ! w)" "w_instance (p_workers p ! w)"
    and r: "w_resolver (p_workers p ! w) = Some r" "worker_result W (w_fn (p_workers p ! w)) = Some r"
    and f: "fresh_at (w_future (p_workers p ! w)) (p_st p)" and nq: "w \<notin> set (p_queue p)"
    using pool_ok_done [OF ok w] .
  let ?f = "w_future (p_workers p ! w)"
  obtain y t where t: "wresolver_resolve E r ?f (p_st p) = (y, t)"
    by (cases "wresolver_resolve E r ?f (p_st p)")
  have y: "y = Inr x" and q: "q = upd_worker w (\<lambda>x. x\<lparr>w_data := False, w_instance := False\<rparr>)
     (p\<lparr>p_done := remove1 w (p_done p), p_st := t\<rparr>)"
    using run WorkerAfter_eq [OF len d r(1) t, of st] by simp_all
  have i: "inv [] (p_st p)" and dist: "distinct (p_queue p @ p_done p)"
    and df: "distinct (map w_future (p_workers p))"
    using ok by (simp_all add: pool_ok_def)
  note P = wresolve_props [OF i f t [unfolded y]]
  have other: "worker_ok W (set (p_queue q)) (set (p_done q)) t v (p_workers p ! v)"
    if v: "v < length (p_workers p)" "v \<noteq> w" for v
  proof -
    have "w_future (p_workers p ! v) \<noteq> ?f"
      using df v len nth_eq_iff_index_eq [of "map w_future (p_workers p)" v w] by simp
    then have "worker_ok W (set (p_queue p)) (set (p_done p)) t v (p_workers p ! v)"
      using worker_ok_grow [OF pool_okD [OF ok v(1)] P(2)] P(3) by blast
    with v(2) dist show ?thesis by (simp add: q upd_worker_def worker_ok_def)
  qed
  have own: "worker_ok W (set (p_queue q)) (set (p_done q)) t w (p_workers q ! w)"
    using len dist w nq r P(2) P(4) fresh_atD(1) [OF f]
    by (auto simp: q upd_worker_def worker_ok_def grows_def)
  have "worker_ok W (set (p_queue q)) (set (p_done q)) (p_st q) v (p_workers q ! v)"
    if "v < length (p_workers p)" for v
    using other [OF that] own len by (cases "v = w") (simp_all add: q upd_worker_def)
  moreover have "map w_future (p_workers q) = map w_future (p_workers p)"
    using len by (simp add: q upd_worker_def map_update list_update_same_conv)
  ultimately show ?thesis
    using ok P(1) dist by (auto simp: pool_ok_def q upd_worker_def)
qed

lemma pool_ok_step: "pool_step E W p q \<Longrightarrow> pool_ok W p \<Longrightarrow> pool_ok W q"
  by (induction rule: pool_step.induct)
    (auto intro: pool_ok_lib pool_ok_call pool_ok_run pool_ok_after)

lemma pool_ok_init: "pool_ok W (init_pool th)"
  by (simp add: pool_ok_def init_pool_def inv_init)

interpretation pool: invariant "\<lambda>p. \<exists>th. p = init_pool th" "pool_step E W" "pool_ok W"
  for E :: "'v env" and W
  by unfold_locales (auto intro: pool_ok_init pool_ok_step)

section \<open>Properties\<close>

definition demo_work :: "nat wenv" where
  "demo_work = \<lparr>work = (\<lambda>n. if n = 9 then Throw (FutureExn ''nine'') else Return (Val (n * n))),
     uv_queue_work = (\<lambda>w. 0)\<rparr>"

definition pool1 :: "nat pool" where
  "pool1 = snd (worker demo_work 9 (snd (worker demo_work 3 (init_pool 1))))"

definition pool2 :: "nat pool" where
  "pool2 = pool1\<lparr>p_st := run_enter 1 (p_st pool1)\<rparr>"

lemma pool2_eq:
  "p_workers pool2 = [\<lparr>w_fn = 3, w_future = 0, w_resolver = None, w_data = True, w_instance = True\<rparr>,
     \<lparr>w_fn = 9, w_future = 1, w_resolver = None, w_data = True, w_instance = True\<rparr>]"
  "p_queue pool2 = [0, 1]" "p_done pool2 = []" "loop_started (p_st pool2)"
  "cur_thread (p_st pool2) = loop_thread (p_st pool2)"
  "futs (p_st pool2) = [\<lparr>f_resolver = None, f_actions = [], f_promise = False\<rparr>,
     \<lparr>f_resolver = None, f_actions = [], f_promise = False\<rparr>]"
  by (simp_all add: pool2_def pool1_def worker_eq demo_work_def init_pool_def init_st_def Let_def
      add_future_def run_enter_def)

lemma pool2_reach: "pool_reach demo demo_work pool2"
proof -
  have call: "pool_step demo demo_work p (snd (worker demo_work n p))" for n and p :: "nat pool"
    by (rule pool_call [where n = n and f = "length (futs (p_st p))"])
      (simp add: worker_eq demo_work_def Let_def)
  have "pool_reach demo demo_work (init_pool 1)"
    by (blast intro: pool.first)
  then have r: "pool_reach demo demo_work pool1"
    unfolding pool1_def by (blast intro: pool.more call)
  have "\<not> loop_started (p_st pool1)"
    by (simp add: pool1_def worker_eq demo_work_def init_pool_def init_st_def Let_def add_future_def)
  from pool.more [OF r pool_lib [OF step_enter [OF this]]] show ?thesis
    by (simp add: pool2_def)
qed



text \<open>Every function finishes: a thread takes a queued one, the loop calls \<open>WorkerAfter\<close>.\<close>

definition plain_work :: "'v wenv \<Rightarrow> bool" where
  "plain_work W \<longleftrightarrow> (\<forall>n. \<exists>r. worker_result W n = Some (Settled r))"

lemma upd_worker_same:
  assumes "\<And>x. w_fn (g x) = w_fn x \<and> w_future (g x) = w_future x"
  shows "map (\<lambda>x. (w_fn x, w_future x)) (p_workers (upd_worker w g p)) =
    map (\<lambda>x. (w_fn x, w_future x)) (p_workers p)"
proof (cases "w < length (p_workers p)")
  case True
  with assms show ?thesis by (simp add: upd_worker_def map_update list_update_same_conv)
qed (simp add: upd_worker_def not_less list_update_beyond)

lemma run_one:
  assumes ok: "pool_ok W p" and pl: "plain_work W" and w: "w \<in> set (p_queue p)"
  obtains q where "pool_step E W p q" "p_queue q = remove1 w (p_queue p)" "p_done q = p_done p @ [w]"
    "p_st q = p_st p" "map (\<lambda>x. (w_fn x, w_future x)) (p_workers q) = map (\<lambda>x. (w_fn x, w_future x)) (p_workers p)"
proof -
  obtain r where r: "worker_result W (w_fn (p_workers p ! w)) = Some r"
    using pl by (auto simp: plain_work_def)
  have "w_data (p_workers p ! w)"
    using pool_okD [OF ok pool_ok_range(1) [OF ok w]] w by (simp add: worker_ok_def)
  note eq = Worker_eq [OF this r]
  show thesis by (rule that [OF pool_run [OF w eq]]) (simp_all add: upd_worker_same, simp_all add: upd_worker_def)
qed

lemma after_one:
  assumes ok: "pool_ok W p" and pl: "plain_work W" and uv: "uv_ok E" and w: "w \<in> set (p_done p)"
    and run: "loop_started (p_st p)" "cur_thread (p_st p) = loop_thread (p_st p)"
  obtains q where "pool_step E W p q" "p_queue q = p_queue p" "p_done q = remove1 w (p_done p)"
    "loop_started (p_st q)" "cur_thread (p_st q) = loop_thread (p_st q)"
    "map (\<lambda>x. (w_fn x, w_future x)) (p_workers q) = map (\<lambda>x. (w_fn x, w_future x)) (p_workers p)"
proof -
  obtain r where len: "w < length (p_workers p)" and d: "w_data (p_workers p ! w)" "w_instance (p_workers p ! w)"
    and r: "w_resolver (p_workers p ! w) = Some r" "worker_result W (w_fn (p_workers p ! w)) = Some r"
    and f: "fresh_at (w_future (p_workers p ! w)) (p_st p)"
    using pool_ok_done [OF ok w] .
  obtain r' where r': "r = Settled r'" using pl r(2) unfolding plain_work_def by (metis option.inject)
  have i: "inv [] (p_st p)" using ok by (simp add: pool_ok_def)
  let ?t = "settle (w_future (p_workers p ! w)) r' (p_st p)"
  have "resolver_resolve_future E r' (w_future (p_workers p ! w)) (p_st p) = (Inr (), ?t)"
    by (rule resolve_future_fresh [OF i f uv on_loop_thread [OF run(2)]])
  then have "wresolver_resolve E r (w_future (p_workers p ! w)) (p_st p) = (Inr (), ?t)" by (simp add: r')
  note eq = WorkerAfter_eq [OF len d r(1) this]
  show thesis
    using ext_loop [OF ext_settle [OF i fresh_atD(1,3) [OF f]], of r'] run
    by (intro that [OF pool_after [OF run w eq]]) (simp_all add: upd_worker_same, simp_all add: upd_worker_def)
qed



end
