(* ===== verification/Fs.thy ===== *)
theory Fs
  imports Loops Workers "HOL-Library.Word"
begin

text \<open>
  The file system functions (\<open>src/fs.cpp\<close>, \<open>include/native/fs.hpp\<close>). The calls of libuv are
  parameters: functions of the state \<open>'w\<close> of the file system that return the code and, where the
  call has any, the data. Every function asks for the loop of its thread first. Buffers are
  strings; \<open>uv_buf_init\<close> takes a length of 32 bits.
\<close>

section \<open>Parameters\<close>

type_synonym file_handle = int

text \<open>The bits of a \<open>double\<close>, which are handed on to libuv.\<close>

type_synonym double = "64 word"

type_synonym uv_timespec = "64 word \<times> 64 word"

record stats =
  st_dev :: "64 word"
  st_mode :: "64 word"
  st_nlink :: "64 word"
  st_uid :: "64 word"
  st_gid :: "64 word"
  st_rdev :: "64 word"
  st_ino :: "64 word"
  st_size :: "64 word"
  st_blksize :: "64 word"
  st_blocks :: "64 word"
  st_flags :: "64 word"
  st_gen :: "64 word"
  st_atim :: uv_timespec
  st_mtim :: uv_timespec
  st_ctim :: uv_timespec
  st_birthtim :: uv_timespec

text \<open>The constants of the system.\<close>

record sysconst =
  S_IFMT :: "64 word"
  S_IFDIR :: "64 word"
  S_IFREG :: "64 word"
  S_IFBLK :: "64 word"
  S_IFCHR :: "64 word"
  S_IFLNK :: "64 word"
  S_IFIFO :: "64 word"
  S_IFSOCK :: "64 word"
  O_RDONLY :: "32 word"
  O_WRONLY :: "32 word"
  O_RDWR :: "32 word"
  O_SYNC :: "32 word"
  O_TRUNC :: "32 word"
  O_CREAT :: "32 word"
  O_EXCL :: "32 word"
  O_APPEND :: "32 word"
  UV_EOF :: int
  UV_FS_SYMLINK_DIR :: int
  UV_FS_SYMLINK_JUNCTION :: int

text \<open>The calls without a result other than the code.\<close>

datatype fsreq =
    Access string int | Close file_handle | Unlink string | Mkdir string int | Rmdir string
  | Rename string string | Chmod string int | Fchmod file_handle int | Chown string int int
  | Fchown file_handle int int | Fdatasync file_handle | Fsync file_handle
  | Ftruncate file_handle nat | Futime file_handle double double | Utime string double double
  | Link string string | Symlink string string int

text \<open>The calls that give a string, and those that give the state of a file.\<close>

datatype pathreq = Mkdtemp string | Readlink string | Realpath string

datatype statreq = Stat string | Fstat file_handle | Lstat string

record 'w fsenv =
  fe_loops :: loops
  fe_thread :: nat
  uv_fs_open :: "string \<Rightarrow> 32 word \<Rightarrow> int \<Rightarrow> 'w \<Rightarrow> int \<times> 'w"
  uv_fs_read :: "file_handle \<Rightarrow> nat \<Rightarrow> nat \<Rightarrow> 'w \<Rightarrow> int \<times> string \<times> 'w"
  uv_fs_write :: "file_handle \<Rightarrow> string \<Rightarrow> nat \<Rightarrow> 'w \<Rightarrow> int \<times> 'w"
  uv_fs_req :: "fsreq \<Rightarrow> 'w \<Rightarrow> int \<times> 'w"
  uv_fs_path :: "pathreq \<Rightarrow> 'w \<Rightarrow> int \<times> string \<times> 'w"
  uv_fs_stat :: "statreq \<Rightarrow> 'w \<Rightarrow> int \<times> stats \<times> 'w"
  uv_fs_scandir :: "string \<Rightarrow> int \<Rightarrow> 'w \<Rightarrow> int \<times> nat \<times> (int \<times> string) list \<times> 'w"
  uv_strerror :: "int \<Rightarrow> string"
  fe_sys :: sysconst

section \<open>Flags and kinds of files\<close>

text \<open>\<open>static_cast<const unsigned int>\<close>: the flag has 32 bits.\<close>

definition checkModeproperty :: "sysconst \<Rightarrow> stats \<Rightarrow> 64 word \<Rightarrow> bool" where
  "checkModeproperty C st flag \<longleftrightarrow> and (st_mode st) (S_IFMT C) = take_bit 32 flag"

definition isDirectory :: "sysconst \<Rightarrow> stats \<Rightarrow> bool" where
  "isDirectory C st = checkModeproperty C st (S_IFDIR C)"

definition isFile :: "sysconst \<Rightarrow> stats \<Rightarrow> bool" where
  "isFile C st = checkModeproperty C st (S_IFREG C)"

definition isBlockDevice :: "sysconst \<Rightarrow> stats \<Rightarrow> bool" where
  "isBlockDevice C st = checkModeproperty C st (S_IFBLK C)"

definition isCharacterDevice :: "sysconst \<Rightarrow> stats \<Rightarrow> bool" where
  "isCharacterDevice C st = checkModeproperty C st (S_IFCHR C)"

definition isSymbolicLink :: "sysconst \<Rightarrow> stats \<Rightarrow> bool" where
  "isSymbolicLink C st = checkModeproperty C st (S_IFLNK C)"

definition isFIFO :: "sysconst \<Rightarrow> stats \<Rightarrow> bool" where
  "isFIFO C st = checkModeproperty C st (S_IFIFO C)"

definition isSocket :: "sysconst \<Rightarrow> stats \<Rightarrow> bool" where
  "isSocket C st = checkModeproperty C st (S_IFSOCK C)"

definition flagsMap :: "sysconst \<Rightarrow> (string \<times> 32 word) list" where
  "flagsMap C =
     (let w = or (or (O_TRUNC C) (O_CREAT C)) (O_WRONLY C); wp = or (or (O_TRUNC C) (O_CREAT C)) (O_RDWR C);
          a = or (or (O_APPEND C) (O_CREAT C)) (O_WRONLY C); ap = or (or (O_APPEND C) (O_CREAT C)) (O_RDWR C)
      in [(''r'', O_RDONLY C), (''rs'', or (O_RDONLY C) (O_SYNC C)), (''sr'', or (O_RDONLY C) (O_SYNC C)),
          (''rw'', O_RDWR C), (''r+'', O_RDWR C), (''rs+'', or (O_RDWR C) (O_SYNC C)),
          (''sr+'', or (O_RDWR C) (O_SYNC C)), (''w'', w), (''wx'', or w (O_EXCL C)), (''xw'', or w (O_EXCL C)),
          (''w+'', wp), (''wx+'', or wp (O_EXCL C)), (''xw+'', or wp (O_EXCL C)), (''a'', a),
          (''ax'', or a (O_EXCL C)), (''xa'', or a (O_EXCL C)), (''a+'', ap), (''ax+'', or ap (O_EXCL C)),
          (''xa+'', or ap (O_EXCL C))])"

definition stringToFlags :: "sysconst \<Rightarrow> string \<Rightarrow> 32 word" where
  "stringToFlags C str = (case map_of (flagsMap C) str of None \<Rightarrow> 0 | Some f \<Rightarrow> f)"

section \<open>Errors\<close>

text \<open>\<open>Error\<close>: a code of libuv with an empty text, or a text with the code -1. Only negative codes
are errors.\<close>

definition Error_isError :: "int \<Rightarrow> bool" where
  "Error_isError code \<longleftrightarrow> code < 0"

definition Error_str :: "'w fsenv \<Rightarrow> int \<Rightarrow> string \<Rightarrow> string" where
  "Error_str U c m = (if m \<noteq> [] then m else if c < 0 then uv_strerror U c else [])"

definition this_loop :: "'w fsenv \<Rightarrow> ('w, nat) M" where
  "this_loop U w = (fst (Loop_GetInstanceSafe (fe_thread U) (fe_loops U)), w)"

text \<open>\<open>UV_FS_METHOD_SYNCCALL\<close>: a call on the loop of this thread whose code is an error is thrown.\<close>

definition synccall :: "('w \<Rightarrow> int \<times> 'a \<times> 'w) \<Rightarrow> ('w, 'a) M" where
  "synccall f w = (case f w of (code, x, w') \<Rightarrow>
     if Error_isError code then (Inl (ErrorExn code []), w') else (Inr x, w'))"

definition synccall_decl :: "'w fsenv \<Rightarrow> ('w \<Rightarrow> int \<times> 'a \<times> 'w) \<Rightarrow> ('w, 'a) M" where
  "synccall_decl U f = thenM (bindM (this_loop U) (\<lambda>_. retM ())) (synccall f)"

definition call_void :: "'w fsenv \<Rightarrow> fsreq \<Rightarrow> ('w, unit) M" where
  "call_void U q = synccall_decl U (\<lambda>w. case uv_fs_req U q w of (c, w') \<Rightarrow> (c, (), w'))"

section \<open>The synchronous functions\<close>

definition openSync :: "'w fsenv \<Rightarrow> string \<Rightarrow> 32 word \<Rightarrow> int \<Rightarrow> ('w, file_handle) M" where
  "openSync U path flags mode =
     synccall_decl U (\<lambda>w. case uv_fs_open U path flags mode w of (fd, w') \<Rightarrow> (fd, fd, w'))"

definition openSync_str :: "'w fsenv \<Rightarrow> string \<Rightarrow> string \<Rightarrow> int \<Rightarrow> ('w, file_handle) M" where
  "openSync_str U path flags mode = openSync U path (stringToFlags (fe_sys U) flags) mode"

text \<open>Writing the bytes \<open>bs\<close> into a buffer at a position.\<close>

definition put_at :: "nat \<Rightarrow> string \<Rightarrow> string \<Rightarrow> string" where
  "put_at pos bs buf = take pos buf @ bs @ drop (pos + length bs) buf"

definition buf_len :: "nat \<Rightarrow> nat" where
  "buf_len n = n mod 2 ^ 32"

definition zeros :: "nat \<Rightarrow> string" where
  "zeros n = replicate n (CHR 0x00)"

text \<open>\<open>readSync\<close> returns the buffer at its full length, however many bytes were read.\<close>

definition readSync :: "'w fsenv \<Rightarrow> file_handle \<Rightarrow> nat \<Rightarrow> nat \<Rightarrow> ('w, string) M" where
  "readSync U fd len off = synccall_decl U (\<lambda>w. case uv_fs_read U fd (buf_len len) off w of
     (r, bs, w') \<Rightarrow> (r, put_at 0 bs (zeros len), w'))"

definition writeSync :: "'w fsenv \<Rightarrow> file_handle \<Rightarrow> string \<Rightarrow> nat \<Rightarrow> ('w, int) M" where
  "writeSync U fd buf off = synccall_decl U (\<lambda>w.
     case uv_fs_write U fd (take (buf_len (length buf)) buf) off w of (r, w') \<Rightarrow> (r, r, w'))"

definition mkdtempSync :: "'w fsenv \<Rightarrow> string \<Rightarrow> ('w, string) M" where
  "mkdtempSync U prefix = synccall_decl U (uv_fs_path U (Mkdtemp prefix))"

definition readlinkSync :: "'w fsenv \<Rightarrow> string \<Rightarrow> ('w, string) M" where
  "readlinkSync U prefix = synccall_decl U (uv_fs_path U (Readlink prefix))"

definition realpathSync :: "'w fsenv \<Rightarrow> string \<Rightarrow> ('w, string) M" where
  "realpathSync U prefix = synccall_decl U (uv_fs_path U (Realpath prefix))"

definition statSync :: "'w fsenv \<Rightarrow> statreq \<Rightarrow> ('w, stats) M" where
  "statSync U q = synccall_decl U (uv_fs_stat U q)"

definition accessSync :: "'w fsenv \<Rightarrow> string \<Rightarrow> int \<Rightarrow> ('w, unit) M" where
  "accessSync U path mode = call_void U (Access path mode)"

definition closeSync :: "'w fsenv \<Rightarrow> file_handle \<Rightarrow> ('w, unit) M" where
  "closeSync U fd = call_void U (Close fd)"

definition unlinkSync :: "'w fsenv \<Rightarrow> string \<Rightarrow> ('w, unit) M" where
  "unlinkSync U path = call_void U (Unlink path)"

definition mkdirSync :: "'w fsenv \<Rightarrow> string \<Rightarrow> int \<Rightarrow> ('w, unit) M" where
  "mkdirSync U path mode = call_void U (Mkdir path mode)"

definition rmdirSync :: "'w fsenv \<Rightarrow> string \<Rightarrow> ('w, unit) M" where
  "rmdirSync U path = call_void U (Rmdir path)"

definition renameSync :: "'w fsenv \<Rightarrow> string \<Rightarrow> string \<Rightarrow> ('w, unit) M" where
  "renameSync U iOldPath iNewPath = call_void U (Rename iOldPath iNewPath)"

definition chmodSync :: "'w fsenv \<Rightarrow> string \<Rightarrow> int \<Rightarrow> ('w, unit) M" where
  "chmodSync U path mode = call_void U (Chmod path mode)"

definition fchmodSync :: "'w fsenv \<Rightarrow> file_handle \<Rightarrow> int \<Rightarrow> ('w, unit) M" where
  "fchmodSync U fd mode = call_void U (Fchmod fd mode)"

definition chownSync :: "'w fsenv \<Rightarrow> string \<Rightarrow> int \<Rightarrow> int \<Rightarrow> ('w, unit) M" where
  "chownSync U path uid gid = call_void U (Chown path uid gid)"

definition fchownSync :: "'w fsenv \<Rightarrow> file_handle \<Rightarrow> int \<Rightarrow> int \<Rightarrow> ('w, unit) M" where
  "fchownSync U fd uid gid = call_void U (Fchown fd uid gid)"

definition fdatasyncSync :: "'w fsenv \<Rightarrow> file_handle \<Rightarrow> ('w, unit) M" where
  "fdatasyncSync U fd = call_void U (Fdatasync fd)"

definition fsyncSync :: "'w fsenv \<Rightarrow> file_handle \<Rightarrow> ('w, unit) M" where
  "fsyncSync U fd = call_void U (Fsync fd)"

definition ftruncateSync :: "'w fsenv \<Rightarrow> file_handle \<Rightarrow> nat \<Rightarrow> ('w, unit) M" where
  "ftruncateSync U fd len = call_void U (Ftruncate fd len)"

definition futimeSync :: "'w fsenv \<Rightarrow> file_handle \<Rightarrow> double \<Rightarrow> double \<Rightarrow> ('w, unit) M" where
  "futimeSync U fd atime mtime = call_void U (Futime fd atime mtime)"

definition utimeSync :: "'w fsenv \<Rightarrow> string \<Rightarrow> double \<Rightarrow> double \<Rightarrow> ('w, unit) M" where
  "utimeSync U path atime mtime = call_void U (Utime path atime mtime)"

definition linkSync :: "'w fsenv \<Rightarrow> string \<Rightarrow> string \<Rightarrow> ('w, unit) M" where
  "linkSync U srcpath dstpath = call_void U (Link srcpath dstpath)"

definition symlink_flag :: "'w fsenv \<Rightarrow> string \<Rightarrow> int option" where
  "symlink_flag U type =
     (if type = ''dir'' then Some (UV_FS_SYMLINK_DIR (fe_sys U))
      else if type = ''junction'' then Some (UV_FS_SYMLINK_JUNCTION (fe_sys U))
      else if type \<noteq> ''file'' then None else Some 0)"

definition symlinkSync :: "'w fsenv \<Rightarrow> string \<Rightarrow> string \<Rightarrow> string \<Rightarrow> ('w, unit) M" where
  "symlinkSync U src dst type = (case symlink_flag U type of
     None \<Rightarrow> throwM (ErrorExn (- 1) (''wring type '' @ type @ ''. Expected file, dir or junction''))
   | Some t \<Rightarrow> call_void U (Symlink src dst t))"

definition existsSync :: "'w fsenv \<Rightarrow> string \<Rightarrow> ('w, bool) M" where
  "existsSync U path w = (case statSync U (Stat path) w of
     (Inl e, w') \<Rightarrow> (Inr False, w') | (Inr _, w') \<Rightarrow> (Inr True, w'))"

section \<open>Reading a whole file\<close>

text \<open>The two loops of \<open>readFileSync\<close>; \<open>n\<close> bounds the number of reads, \<open>None\<close>: the loop goes on.\<close>

fun read_known :: "nat \<Rightarrow> 'w fsenv \<Rightarrow> file_handle \<Rightarrow> nat \<Rightarrow> nat \<Rightarrow> string \<Rightarrow> 'w \<Rightarrow>
    ((exn + string) \<times> 'w) option" where
  "read_known 0 U fd len pos buf w = None"
| "read_known (Suc n) U fd len pos buf w =
     (case uv_fs_read U fd (buf_len (len - pos)) pos w of (r, bs, w') \<Rightarrow>
        if r < 0 then Some (Inl (ErrorExn r []), w')
        else if pos + nat r < len then read_known n U fd len (pos + nat r) (put_at pos bs buf) w'
        else Some (Inr (put_at pos bs buf), w'))"

definition kBlockSize :: nat where "kBlockSize = 32768"

definition resize :: "nat \<Rightarrow> string \<Rightarrow> string" where
  "resize n buf = take n buf @ zeros (n - length buf)"

fun read_unknown :: "nat \<Rightarrow> 'w fsenv \<Rightarrow> file_handle \<Rightarrow> nat \<Rightarrow> nat \<Rightarrow> string \<Rightarrow> 'w \<Rightarrow>
    ((exn + string) \<times> 'w) option" where
  "read_unknown 0 U fd len pos buf w = None"
| "read_unknown (Suc n) U fd len pos buf w =
     (let len1 = len + kBlockSize; buf1 = resize len1 buf in
      case uv_fs_read U fd (buf_len (len1 - pos)) pos w of (r, bs, w') \<Rightarrow>
        if r < 0 then Some (Inl (ErrorExn r []), w')
        else if nat r < kBlockSize then
          (let len2 = len1 - (kBlockSize - nat r); buf2 = resize len2 (put_at pos bs buf1) in
           if r = 0 then Some (Inr buf2, w')
           else read_unknown n U fd len2 (pos + nat r) buf2 w')
        else read_unknown n U fd len1 (pos + nat r) (put_at pos bs buf1) w')"

definition readFd :: "nat \<Rightarrow> 'w fsenv \<Rightarrow> file_handle \<Rightarrow> 'w \<Rightarrow> ((exn + string) \<times> 'w) option" where
  "readFd n U fd w = (case thenM (bindM (this_loop U) (\<lambda>_. retM ())) (statSync U (Fstat fd)) w of
     (Inl e, w') \<Rightarrow> Some (Inl e, w')
   | (Inr st, w') \<Rightarrow>
       let len = (if isFile (fe_sys U) st then unat (st_size st) else 0) in
       if len \<noteq> 0 then read_known n U fd len 0 (zeros len) w' else read_unknown n U fd 0 0 [] w')"

text \<open>\<open>readFileSync(path, flags)\<close>: the flags are not used, and an error leaves the file open.\<close>

definition readFileSync :: "nat \<Rightarrow> 'w fsenv \<Rightarrow> string \<Rightarrow> int \<Rightarrow> 'w \<Rightarrow> ((exn + string) \<times> 'w) option" where
  "readFileSync n U path flags w = (case openSync U path (O_RDONLY (fe_sys U)) 438 w of
     (Inl e, w') \<Rightarrow> Some (Inl e, w')
   | (Inr fd, w') \<Rightarrow> (case readFd n U fd w' of
       None \<Rightarrow> None
     | Some (Inl e, w2) \<Rightarrow> Some (Inl e, w2)
     | Some (Inr text, w2) \<Rightarrow> Some (thenM (closeSync U fd) (retM text) w2)))"

section \<open>Directories\<close>

fun readdir_loop :: "'w fsenv \<Rightarrow> nat \<Rightarrow> (int \<times> string) list \<Rightarrow> string list \<Rightarrow> exn + string list" where
  "readdir_loop U 0 rs acc = Inr acc"
| "readdir_loop U (Suc n) [] acc = Inr acc"
| "readdir_loop U (Suc n) ((r, ent) # rs) acc =
     (if r = UV_EOF (fe_sys U) then Inr acc
      else if r < 0 then Inl (ErrorExn r [])
      else readdir_loop U n rs (acc @ [ent]))"

definition readdirSync :: "'w fsenv \<Rightarrow> string \<Rightarrow> int \<Rightarrow> ('w, string list) M" where
  "readdirSync U path flags = bindM
     (synccall_decl U (\<lambda>w. case uv_fs_scandir U path flags w of (c, nbufs, rs, w') \<Rightarrow> (c, (nbufs, rs), w')))
     (\<lambda>p w. (readdir_loop U (fst p) (snd p) [], w))"

section \<open>The asynchronous functions\<close>

text \<open>\<open>CALL_SYNC_METHOD_IN_WORKER\<close>: the function given to \<open>worker\<close>.\<close>

definition in_worker :: "'w fsenv \<Rightarrow> ('w, 'a) M \<Rightarrow> ('w, 'a) M" where
  "in_worker U m w = (case m w of
     (Inl (ErrorExn c s), w') \<Rightarrow> (Inl (FutureExn (Error_str U c s)), w') | r \<Rightarrow> r)"

text \<open>The functions that run in a worker, and what they give; \<open>n\<close> bounds the reads of \<open>readFile\<close>.\<close>

datatype fscall =
    Open string "32 word" int | Read file_handle nat nat | Write file_handle string nat
  | AccessA string int | CloseA file_handle | UnlinkA string | MkdirA string int | RmdirA string
  | RenameA string string | ChmodA string int | FchmodA file_handle int | ChownA string int int
  | FchownA file_handle int int | FdatasyncA file_handle | FsyncA file_handle
  | FtruncateA file_handle nat | FutimeA file_handle double double | UtimeA string double double
  | LinkA string string | SymlinkA string string string | MkdtempA string | ReadlinkA string
  | RealpathA string | ReadFileA string int | ReadFdA file_handle int

datatype fsval = Done | Fd file_handle | Num int | Text string

definition fmapM :: "('a \<Rightarrow> 'b) \<Rightarrow> ('w, 'a) M \<Rightarrow> ('w, 'b) M" where
  "fmapM f m = bindM m (\<lambda>x. retM (f x))"

definition fuel_map :: "('a \<Rightarrow> 'b) \<Rightarrow> ((exn + 'a) \<times> 'w) option \<Rightarrow> ((exn + 'b) \<times> 'w) option" where
  "fuel_map f = map_option (\<lambda>(r, w). (map_sum id f r, w))"

fun run_sync :: "nat \<Rightarrow> 'w fsenv \<Rightarrow> fscall \<Rightarrow> 'w \<Rightarrow> ((exn + fsval) \<times> 'w) option" where
  "run_sync n U (Open p f m) w = Some (fmapM Fd (openSync U p f m) w)"
| "run_sync n U (Read fd l off) w = Some (fmapM Text (readSync U fd l off) w)"
| "run_sync n U (Write fd b off) w = Some (fmapM Num (writeSync U fd b off) w)"
| "run_sync n U (AccessA p m) w = Some (fmapM (\<lambda>_. Done) (accessSync U p m) w)"
| "run_sync n U (CloseA fd) w = Some (fmapM (\<lambda>_. Done) (closeSync U fd) w)"
| "run_sync n U (UnlinkA p) w = Some (fmapM (\<lambda>_. Done) (unlinkSync U p) w)"
| "run_sync n U (MkdirA p m) w = Some (fmapM (\<lambda>_. Done) (mkdirSync U p m) w)"
| "run_sync n U (RmdirA p) w = Some (fmapM (\<lambda>_. Done) (rmdirSync U p) w)"
| "run_sync n U (RenameA p q) w = Some (fmapM (\<lambda>_. Done) (renameSync U p q) w)"
| "run_sync n U (ChmodA p m) w = Some (fmapM (\<lambda>_. Done) (chmodSync U p m) w)"
| "run_sync n U (FchmodA fd m) w = Some (fmapM (\<lambda>_. Done) (fchmodSync U fd m) w)"
| "run_sync n U (ChownA p i g) w = Some (fmapM (\<lambda>_. Done) (chownSync U p i g) w)"
| "run_sync n U (FchownA fd i g) w = Some (fmapM (\<lambda>_. Done) (fchownSync U fd i g) w)"
| "run_sync n U (FdatasyncA fd) w = Some (fmapM (\<lambda>_. Done) (fdatasyncSync U fd) w)"
| "run_sync n U (FsyncA fd) w = Some (fmapM (\<lambda>_. Done) (fsyncSync U fd) w)"
| "run_sync n U (FtruncateA fd l) w = Some (fmapM (\<lambda>_. Done) (ftruncateSync U fd l) w)"
| "run_sync n U (FutimeA fd a m) w = Some (fmapM (\<lambda>_. Done) (futimeSync U fd a m) w)"
| "run_sync n U (UtimeA p a m) w = Some (fmapM (\<lambda>_. Done) (utimeSync U p a m) w)"
| "run_sync n U (LinkA p q) w = Some (fmapM (\<lambda>_. Done) (linkSync U p q) w)"
| "run_sync n U (SymlinkA p q t) w = Some (fmapM (\<lambda>_. Done) (symlinkSync U p q t) w)"
| "run_sync n U (MkdtempA p) w = Some (fmapM Text (mkdtempSync U p) w)"
| "run_sync n U (ReadlinkA p) w = Some (fmapM Text (readlinkSync U p) w)"
| "run_sync n U (RealpathA p) w = Some (fmapM Text (realpathSync U p) w)"
| "run_sync n U (ReadFileA p f) w = fuel_map Text (readFileSync n U p f w)"
| "run_sync n U (ReadFdA fd f) w = fuel_map Text (readFd n U fd w)"

definition fs_async :: "nat \<Rightarrow> 'w fsenv \<Rightarrow> fscall \<Rightarrow> 'w \<Rightarrow> ((exn + fsval) \<times> 'w) option" where
  "fs_async n U c w = map_option (\<lambda>r. in_worker U (\<lambda>_. r) w) (run_sync n U c w)"

end
