(* ===== verification/FsProps.thy ===== *)
theory FsProps
  imports Fs
begin

text \<open>
  Properties of the file system functions: what \<open>readFileSync\<close> returns, and when it does not
  return; what becomes of the asynchronous functions on the threads of the pool; the difference
  between \<open>exists\<close> and \<open>existsSync\<close>.
\<close>

section \<open>Kinds of files\<close>

definition distinct_kinds :: "sysconst \<Rightarrow> bool" where
  "distinct_kinds C \<longleftrightarrow> distinct (map (take_bit 32) [S_IFDIR C, S_IFREG C, S_IFBLK C, S_IFCHR C,
     S_IFLNK C, S_IFIFO C, S_IFSOCK C])"

definition kinds :: "sysconst \<Rightarrow> stats \<Rightarrow> bool list" where
  "kinds C st = [isDirectory C st, isFile C st, isBlockDevice C st, isCharacterDevice C st,
     isSymbolicLink C st, isFIFO C st, isSocket C st]"

lemmas kind_defs = isDirectory_def isFile_def isBlockDevice_def isCharacterDevice_def
  isSymbolicLink_def isFIFO_def isSocket_def checkModeproperty_def

text \<open>A file is of one kind at most, when the system's constants for the kinds differ.\<close>

lemma one_kind:
  assumes "distinct_kinds C"
  shows "length (filter id (kinds C st)) \<le> 1"
  using assms by (auto simp: distinct_kinds_def kinds_def kind_defs)

definition linux :: sysconst where
  "linux = \<lparr>S_IFMT = 61440, S_IFDIR = 16384, S_IFREG = 32768, S_IFBLK = 24576, S_IFCHR = 8192,
     S_IFLNK = 40960, S_IFIFO = 4096, S_IFSOCK = 49152, O_RDONLY = 0, O_WRONLY = 1, O_RDWR = 2,
     O_SYNC = 1052672, O_TRUNC = 512, O_CREAT = 64, O_EXCL = 128, O_APPEND = 1024, UV_EOF = - 4095,
     UV_FS_SYMLINK_DIR = 1, UV_FS_SYMLINK_JUNCTION = 2\<rparr>"

lemma one_kind_witness: "length (filter id (kinds linux st)) \<le> 1"
  by (rule one_kind) (simp add: distinct_kinds_def linux_def)

section \<open>Reading a file\<close>

text \<open>
  What POSIX says of reading a regular file with the contents \<open>text\<close> at a position: at most as
  many bytes as asked for, the bytes at this position, and at least one before the end of the
  file. The property \<open>P\<close> of the file system's state is kept.
\<close>

definition reads_file :: "'w fsenv \<Rightarrow> file_handle \<Rightarrow> string \<Rightarrow> ('w \<Rightarrow> bool) \<Rightarrow> bool" where
  "reads_file U fd text P \<longleftrightarrow> (\<forall>w n off. P w \<longrightarrow>
     (case uv_fs_read U fd n off w of (r, bs, w') \<Rightarrow>
        P w' \<and> r = int (length bs) \<and> length bs \<le> n \<and> bs = take (length bs) (drop off text) \<and>
        (0 < n \<longrightarrow> off < length text \<longrightarrow> bs \<noteq> [])))"

lemma reads_fileE:
  assumes "reads_file U fd text P" and "P w"
  obtains bs w' where "uv_fs_read U fd n off w = (int (length bs), bs, w')" "P w'" "length bs \<le> n"
    "bs = take (length bs) (drop off text)" "0 < n \<longrightarrow> off < length text \<longrightarrow> bs \<noteq> []"
  using assms unfolding reads_file_def
  by (cases "uv_fs_read U fd n off w") (metis (mono_tags, lifting) case_prod_conv)

lemma take_bytes:
  assumes "bs = take (length bs) (drop pos text)" and "pos \<le> length text"
  shows "take pos text @ bs = take (pos + length bs) text" "pos + length bs \<le> length text"
proof -
  show "take pos text @ bs = take (pos + length bs) text" by (subst assms(1)) (rule take_add [symmetric])
  have "length bs \<le> length (drop pos text)" by (subst assms(1)) simp
  with assms(2) show "pos + length bs \<le> length text" by simp
qed

lemma put_at_take:
  assumes "take pos buf = take pos text" and "length buf = length text"
    and "bs = take (length bs) (drop pos text)" and "pos \<le> length text"
  shows "take (pos + length bs) (put_at pos bs buf) = take (pos + length bs) text"
    "length (put_at pos bs buf) = length text"
  using take_bytes [OF assms(3,4)] assms(1,2,4) by (simp_all add: put_at_def)

lemma read_known_whole:
  assumes law: "reads_file U fd text P" and len: "length text < 2 ^ 32"
  shows "P w \<Longrightarrow> pos < length text \<Longrightarrow> length buf = length text \<Longrightarrow> take pos buf = take pos text \<Longrightarrow>
    length text - pos < n \<Longrightarrow> \<exists>w'. read_known n U fd (length text) pos buf w = Some (Inr text, w') \<and> P w'"
proof (induction n arbitrary: pos buf w)
  case (Suc n)
  have b: "buf_len (length text - pos) = length text - pos"
    using len by (simp add: buf_len_def)
  obtain bs w' where bs: "uv_fs_read U fd (length text - pos) pos w = (int (length bs), bs, w')" "P w'"
    "length bs \<le> length text - pos" "bs = take (length bs) (drop pos text)"
    "0 < length text - pos \<longrightarrow> pos < length text \<longrightarrow> bs \<noteq> []"
    by (rule reads_fileE [OF law Suc.prems(1), where n = "length text - pos" and off = pos])
  note put = put_at_take [OF Suc.prems(4,3) bs(4) less_imp_le [OF Suc.prems(2)]]
  show ?case
  proof (cases "pos + length bs < length text")
    case True
    have "length text - (pos + length bs) < n" using bs(5) Suc.prems(2,5) True by (cases bs) auto
    from Suc.IH [OF bs(2) True put(2,1) this] True show ?thesis by (simp add: b bs(1))
  next
    case False
    then have "put_at pos bs buf = text" using put by simp
    with False bs(2) show ?thesis by (simp add: b bs(1))
  qed
qed simp

lemma read_unknown_whole:
  assumes law: "reads_file U fd text P"
  shows "P w \<Longrightarrow> pos \<le> length text \<Longrightarrow> length text - pos < n \<Longrightarrow>
    \<exists>w'. read_unknown n U fd pos pos (take pos text) w = Some (Inr text, w') \<and> P w'"
proof (induction n arbitrary: pos w)
  case (Suc n)
  have b: "buf_len kBlockSize = kBlockSize" "0 < kBlockSize" by (simp_all add: buf_len_def kBlockSize_def)
  obtain bs w' where bs: "uv_fs_read U fd kBlockSize pos w = (int (length bs), bs, w')" "P w'"
    "length bs \<le> kBlockSize" "bs = take (length bs) (drop pos text)"
    "0 < kBlockSize \<longrightarrow> pos < length text \<longrightarrow> bs \<noteq> []"
    by (rule reads_fileE [OF law Suc.prems(1), where n = kBlockSize and off = pos])
  note t = take_bytes [OF bs(4) Suc.prems(2)]
  let ?buf = "resize (pos + kBlockSize) (take pos text)"
  have r: "resize (pos + length bs) (put_at pos bs ?buf) = take (pos + length bs) text"
    using t Suc.prems(2) by (simp add: resize_def put_at_def min_def zeros_def)
  have full: "put_at pos bs ?buf = take (pos + length bs) text" if "length bs = kBlockSize"
    using t Suc.prems(2) that by (simp add: resize_def put_at_def min_def zeros_def)
  have len2: "pos + kBlockSize - (kBlockSize - length bs) = pos + length bs" using bs(3) by simp
  show ?case
  proof (cases "bs = []")
    case True
    then have "pos = length text" using bs(5) b(2) Suc.prems(2) by (cases "pos < length text") auto
    with True bs(1,2) b r show ?thesis by (simp add: Let_def)
  next
    case False
    then have "length text - (pos + length bs) < n" using Suc.prems(2,3) t(2) by (cases bs) auto
    from Suc.IH [OF bs(2) t(2) this] False show ?thesis
      using bs(3) full r by (cases "length bs = kBlockSize") (simp_all add: b bs(1) Let_def len2 not_less)
  qed
qed simp

text \<open>The state of the file that \<open>fstat\<close> gives.\<close>

definition stats_file :: "'w fsenv \<Rightarrow> file_handle \<Rightarrow> stats \<Rightarrow> ('w \<Rightarrow> bool) \<Rightarrow> bool" where
  "stats_file U fd st P \<longleftrightarrow> (\<forall>w. P w \<longrightarrow> (case uv_fs_stat U (Fstat fd) w of (r, st', w') \<Rightarrow>
     r = 0 \<and> st' = st \<and> P w'))"

lemma readFd_eq:
  assumes "Loop_GetInstance (fe_thread U) (fe_loops U) = Some l" and "stats_file U fd st P" and "P w"
  obtains w' where "P w'" "\<And>n. readFd n U fd w =
    (let len = (if isFile (fe_sys U) st then unat (st_size st) else 0)
     in if len \<noteq> 0 then read_known n U fd len 0 (zeros len) w' else read_unknown n U fd 0 0 [] w')"
proof -
  obtain r st' w' where s: "uv_fs_stat U (Fstat fd) w = (r, st', w')" by (cases "uv_fs_stat U (Fstat fd) w")
  with assms(2,3) have "r = 0" "st' = st" "P w'" by (force simp: stats_file_def)+
  with s assms(1) that [of w'] show thesis
    by (simp add: readFd_def this_loop_def Loop_GetInstanceSafe_def monad_defs statSync_def
        synccall_decl_def synccall_def Error_isError_def)
qed

text \<open>C22. A file below 4 GiB whose size \<open>fstat\<close> knows, or does not know at all, is read whole, however
short the single reads are; as many reads as the file has bytes, and one, are enough.\<close>

theorem readFile_whole:
  assumes "Loop_GetInstance (fe_thread U) (fe_loops U) = Some l"
    and "stats_file U fd st P" and "reads_file U fd text P" and "P w"
    and "\<not> isFile (fe_sys U) st \<or> st_size st = 0 \<or> unat (st_size st) = length text \<and> length text < 2 ^ 32"
    and "length text < n"
  shows "\<exists>w'. readFd n U fd w = Some (Inr text, w') \<and> P w'"
proof -
  obtain w' where w': "P w'" and eq: "readFd n U fd w =
    (let len = (if isFile (fe_sys U) st then unat (st_size st) else 0)
     in if len \<noteq> 0 then read_known n U fd len 0 (zeros len) w' else read_unknown n U fd 0 0 [] w')"
    using readFd_eq [OF assms(1,2,4)] by blast
  have known: "\<exists>w2. read_known n U fd (length text) 0 (zeros (length text)) w' = Some (Inr text, w2) \<and> P w2"
    if "text \<noteq> []" "length text < 2 ^ 32"
    using that assms(6) w' by (intro read_known_whole [OF assms(3)]) (simp_all add: zeros_def)
  have unknown: "\<exists>w2. read_unknown n U fd 0 0 [] w' = Some (Inr text, w2) \<and> P w2"
    using read_unknown_whole [OF assms(3) w', of 0 n] assms(6) by simp
  show ?thesis
  proof (cases "isFile (fe_sys U) st \<and> st_size st \<noteq> 0")
    case True
    then have "unat (st_size st) = length text" "length text < 2 ^ 32" "text \<noteq> []"
      using assms(5) unat_eq_zero by fastforce+
    with True known eq show ?thesis by (simp add: Let_def)
  next
    case False
    then have "(if isFile (fe_sys U) st then unat (st_size st) else 0) = 0" by auto
    with unknown show ?thesis by (simp add: eq Let_def)
  qed
qed

text \<open>A file system with one file \<open>text\<close>, for which \<open>fstat\<close> gives the size \<open>k\<close>, and a loop on
thread 1.\<close>

definition one_file :: "string \<Rightarrow> nat \<Rightarrow> unit fsenv" where
  "one_file text k = \<lparr>fe_loops = snd (Loop_Create True 1 no_loops), fe_thread = 1,
     uv_fs_open = (\<lambda>p f m w. (3, w)), uv_fs_read = (\<lambda>fd n off w.
       (let bs = take (min n 2) (drop off text) in (int (length bs), bs, w))),
     uv_fs_write = (\<lambda>fd b off w. (- 9, w)), uv_fs_req = (\<lambda>q w. (0, w)),
     uv_fs_path = (\<lambda>q w. (- 2, [], w)),
     uv_fs_stat = (\<lambda>q w. (0, stats.make 0 32768 0 0 0 0 0 (of_nat k) 0 0 0 0 (0, 0) (0, 0) (0, 0) (0, 0), w)),
     uv_fs_scandir = (\<lambda>p f w. (- 2, 0, [], w)), uv_strerror = (\<lambda>c. ''error''), fe_sys = linux\<rparr>"

lemma one_file_laws:
  "Loop_GetInstance (fe_thread (one_file text k)) (fe_loops (one_file text k)) = Some 0"
  "stats_file (one_file text k) 3 (stats.make 0 32768 0 0 0 0 0 (of_nat k) 0 0 0 0 (0, 0) (0, 0) (0, 0) (0, 0)) (\<lambda>w. True)"
  "reads_file (one_file text k) 3 text (\<lambda>w. True)"
  by (simp_all add: one_file_def Loop_GetInstance_def Loop_Create_def no_loops_def registerLoop_def
      deregisterLoop_def Let_def stats_file_def reads_file_def min_def)

theorem readFile_whole_witness:
  "readFd 6 (one_file ''hello'' 5) 3 () = Some (Inr ''hello'', ())"
  using readFile_whole [OF one_file_laws [of "''hello''" 5], where w = "()" and n = 6] by (simp add: stats.make_def)

text \<open>C35. When the file is shorter than the size \<open>fstat\<close> gave, as after it was truncated in between,
\<open>readFileSync\<close> reads zero bytes at its end for ever.\<close>

theorem truncated_file_hangs:
  assumes "Loop_GetInstance (fe_thread U) (fe_loops U) = Some l"
    and "stats_file U fd st P" and "reads_file U fd text P" and "P w"
    and "isFile (fe_sys U) st" and "length text < unat (st_size st)"
  shows "readFd n U fd w = None"
proof -
  have loop: "P w \<Longrightarrow> pos \<le> length text \<Longrightarrow> read_known n U fd (unat (st_size st)) pos buf w = None" for n pos buf w
  proof (induction n arbitrary: pos buf w)
    case (Suc n)
    let ?k = "buf_len (unat (st_size st) - pos)"
    obtain bs w' where bs: "uv_fs_read U fd ?k pos w = (int (length bs), bs, w')" "P w'"
      "bs = take (length bs) (drop pos text)" by (rule reads_fileE [OF assms(3) Suc.prems(1)])
    note t = take_bytes(2) [OF bs(3) Suc.prems(2)]
    with Suc.IH [OF bs(2) t] assms(6) show ?case by (simp add: bs(1))
  qed simp
  obtain w' where "P w'" and "readFd n U fd w =
    (let len = (if isFile (fe_sys U) st then unat (st_size st) else 0)
     in if len \<noteq> 0 then read_known n U fd len 0 (zeros len) w' else read_unknown n U fd 0 0 [] w')"
    using readFd_eq [OF assms(1,2,4)] by blast
  with assms(5,6) loop show ?thesis by (simp add: Let_def)
qed

theorem truncated_file_hangs_witness: "\<forall>n. readFd n (one_file ''abc'' 5) 3 () = None"
proof
  fix n
  show "readFd n (one_file ''abc'' 5) 3 () = None"
    using one_file_laws [of "''abc''" 5]
    by (rule truncated_file_hangs)
      (simp_all add: stats.make_def one_file_def isFile_def checkModeproperty_def linux_def)
qed

section \<open>The asynchronous functions\<close>

text \<open>The threads of the pool: no loop is created or run on them.\<close>

inductive idle_thread :: "nat \<Rightarrow> loops \<Rightarrow> bool" for t where
  idle_none: "idle_thread t no_loops"
| idle_new: "idle_thread t s \<Longrightarrow> u \<noteq> t \<Longrightarrow> idle_thread t (snd (Loop_Create b u s))"
| idle_begin: "idle_thread t s \<Longrightarrow> u \<noteq> t \<Longrightarrow> idle_thread t (run_begin u l s)"
| idle_end: "idle_thread t s \<Longrightarrow> idle_thread t (run_end l s)"
| idle_destroy: "idle_thread t s \<Longrightarrow> idle_thread t (Loop_destroy l s)"

lemma registerLoop_other:
  assumes "u \<noteq> t" and "t \<notin> fst ` set (l_map s)"
  shows "t \<notin> fst ` set (l_map (registerLoop u l s))"
proof
  let ?m = "snd (erase_loop (l_alive s) l (l_map s))"
  assume "t \<in> fst ` set (l_map (registerLoop u l s))"
  then have "t \<in> fst ` set (omap_set (<) u l ?m)"
    by (simp add: registerLoop_def deregisterLoop_def Let_def split: prod.splits)
  with assms(1) have "t \<in> fst ` set ?m" using nat_keys.keys_set [of t u l ?m] by simp
  with assms(2) show False using erase_loop_keys [of "l_alive s" l "l_map s"] by (meson subsetD)
qed

lemma idle_thread_no_loop: "idle_thread t s \<Longrightarrow> Loop_GetInstance t s = None"
proof -
  have "idle_thread t s \<Longrightarrow> t \<notin> fst ` set (l_map s)"
  proof (induction rule: idle_thread.induct)
    case (idle_new s u b)
    then show ?case unfolding Loop_Create_def Let_def snd_conv by (intro registerLoop_other) auto
  next
    case (idle_begin s u l)
    then show ?case unfolding run_begin_def by (intro registerLoop_other) auto
  next
    case (idle_destroy s l)
    let ?A = "removeAll l (l_alive s)"
    have "l_map (Loop_destroy l s) = snd (erase_loop ?A l (l_map s))"
      by (simp add: Loop_destroy_def deregisterLoop_def split: prod.splits)
    with idle_destroy show ?case using erase_loop_keys [of ?A l "l_map s"] by auto
  qed (simp_all add: no_loops_def run_end_def)
  moreover have "t \<notin> fst ` set m \<Longrightarrow> omap_find (<) t m = None" for m :: "(nat, nat) omap"
    by (induction m) auto
  ultimately show "idle_thread t s \<Longrightarrow> ?thesis" by (simp add: Loop_GetInstance_def)
qed

lemmas sync_defs = openSync_def readSync_def writeSync_def mkdtempSync_def readlinkSync_def
  realpathSync_def accessSync_def closeSync_def unlinkSync_def mkdirSync_def rmdirSync_def
  renameSync_def chmodSync_def fchmodSync_def chownSync_def fchownSync_def fdatasyncSync_def
  fsyncSync_def ftruncateSync_def futimeSync_def utimeSync_def linkSync_def symlinkSync_def
  call_void_def readFileSync_def readFd_def

lemma no_loop_call:
  assumes "Loop_GetInstance (fe_thread U) (fe_loops U) = None"
  shows "synccall_decl U f w = (Inl (AssertExn ''instance''), w)"
    "thenM (bindM (this_loop U) (\<lambda>_. retM ())) m w = (Inl (AssertExn ''instance''), w)"
  using assms by (simp_all add: synccall_decl_def this_loop_def Loop_GetInstanceSafe_def monad_defs)

lemma no_loop_fs_async:
  assumes "Loop_GetInstance (fe_thread U) (fe_loops U) = None"
    and "\<And>p q type. c = SymlinkA p q type \<Longrightarrow> symlink_flag U type \<noteq> None"
  shows "fs_async n U c w = Some (Inl (AssertExn ''instance''), w)"
  using assms(2)
  by (cases c) (auto simp: fs_async_def in_worker_def fmapM_def fuel_map_def sync_defs bindM_def
      no_loop_call [OF assms(1)] split: option.splits)

text \<open>What the function given to \<open>worker\<close> ends with.\<close>

definition outcome_of :: "('a \<Rightarrow> 'v) \<Rightarrow> exn + 'a \<Rightarrow> 'v outcome" where
  "outcome_of g r = (case r of Inl e \<Rightarrow> Throw e | Inr x \<Rightarrow> Return (Val (g x)))"

text \<open>C20. On a thread of the pool, where no loop was ever created or run, every asynchronous function
fails its assertion that the thread has a loop, before it does anything. The exception is no
\<open>FutureError\<close>: it leaves the function that libuv called, and the future has no result. Only
\<open>symlink\<close> with a bad type reports its error.\<close>

theorem async_fs_fails_in_pool:
  assumes "idle_thread (fe_thread U) (fe_loops U)"
    and "\<And>p q type. c = SymlinkA p q type \<Longrightarrow> symlink_flag U type \<noteq> None"
    and "pool_reach E W p" and "k \<in> set (p_queue p)"
    and "fs_async n U c w = Some (r, w')" and "work W (w_fn (p_workers p ! k)) = outcome_of g r"
  shows "Worker W k p = (Inl (AssertExn ''instance''), p) \<and> w' = w \<and>
    f_resolver (futs (p_st p) ! w_future (p_workers p ! k)) = None"
proof -
  have r: "r = Inl (AssertExn ''instance'')" "w' = w"
    using no_loop_fs_async [OF idle_thread_no_loop [OF assms(1)] assms(2), where n = n and w = w] assms(5) by simp_all
  have ok: "pool_ok W p" by (rule pool.always [OF assms(3)])
  have wok: "worker_ok W (set (p_queue p)) (set (p_done p)) (p_st p) k (p_workers p ! k)"
    by (rule pool_okD [OF ok pool_ok_range(1) [OF ok assms(4)]])
  have out: "work W (w_fn (p_workers p ! k)) = Throw (AssertExn ''instance'')"
    using assms(6) by (simp add: r outcome_of_def)
  then have "worker_result W (w_fn (p_workers p ! k)) = None" by (simp add: worker_result_def)
  with Worker_throws [of p k W] out wok assms(4) r(2) show ?thesis
    by (auto simp: worker_ok_def dest: fresh_atD(3))
qed

definition pool_thread :: "unit fsenv" where
  "pool_thread = (one_file ''hello'' 5)\<lparr>fe_thread := 2\<rparr>"

definition read_work :: "fsval wenv" where
  "read_work = \<lparr>work = (\<lambda>n. outcome_of id (fst (the (fs_async 9 pool_thread (ReadFileA ''f'' 0) ())))),
     uv_queue_work = (\<lambda>w. 0)\<rparr>"

definition plain_demo :: "fsval env" where
  "plain_demo = \<lparr>user = (\<lambda>n x s. ([], Return Void)), user_error = (\<lambda>n e s. ([], Inr Void)),
     uv_async_init = (\<lambda>a. 0), uv_async_send = (\<lambda>a. 0)\<rparr>"

theorem async_fs_fails_in_pool_witness:
  "Worker read_work 0 (snd (worker read_work 5 (init_pool 1))) =
    (Inl (AssertExn ''instance''), snd (worker read_work 5 (init_pool 1)))"
proof -
  let ?p = "snd (worker read_work 5 (init_pool 1))"
  have idle: "idle_thread (fe_thread pool_thread) (fe_loops pool_thread)"
    unfolding pool_thread_def one_file_def by (simp add: idle_new idle_none)
  have q: "p_queue ?p = [0]" "p_workers ?p ! 0 = \<lparr>w_fn = 5, w_future = 0, w_resolver = None, w_data = True, w_instance = True\<rparr>"
    by (simp_all add: worker_eq read_work_def init_pool_def init_st_def Let_def)
  have "pool_step plain_demo read_work (init_pool 1) ?p"
    by (rule pool_call [where n = 5 and f = 0]) (simp add: worker_eq read_work_def Let_def init_pool_def init_st_def)
  then have r: "pool_reach plain_demo read_work ?p"
    by (blast intro: pool.first pool.more)
  have f: "fs_async 9 pool_thread (ReadFileA ''f'' 0) () = Some (Inl (AssertExn ''instance''), ())"
    by (rule no_loop_fs_async [OF idle_thread_no_loop [OF idle]]) simp
  show ?thesis
    using async_fs_fails_in_pool [OF idle _ r _ f, of 0 id] q f by (simp add: read_work_def)
qed

section \<open>Whether a file exists\<close>

text \<open>\<open>exists\<close>: \<open>k1\<close> is the function that calls \<open>statSync\<close>, \<open>k2\<close> the one that returns \<open>true\<close>, \<open>k3\<close> the
one that returns \<open>false\<close>.\<close>

definition fs_stat :: "'v env \<Rightarrow> nat \<Rightarrow> ('v st, fid) M" where
  "fs_stat E k1 = async E (UserFn k1)"

definition fs_exists :: "'v env \<Rightarrow> nat \<Rightarrow> nat \<Rightarrow> nat \<Rightarrow> ('v st, fid) M" where
  "fs_exists E k1 k2 k3 =
     bindM (fs_stat E k1) (\<lambda>f. bindM (future_then E f (UserFn k2)) (\<lambda>g. future_error E g (UserFn k3)))"

lemma attach_st_old:
  assumes on: "isOnEventLoopThread s"
  shows "a < length (acts s) \<Longrightarrow> acts (attach_st k f fn s) ! a = acts s ! a"
    "set (pending s) \<subseteq> set (pending (attach_st k f fn s))"
    "f \<noteq> length (futs s) \<Longrightarrow> f_resolver (futs (attach_st k f fn s) ! length (futs s)) = None"
  unfolding attach_st_on [OF on] pushed_def attach_to_def
  by (auto simp: enq_all_acts add_action_nth upd_fut_def add_future_nth split: option.splits)

lemma throwing_turn:
  assumes i: "inv [] t" and a: "a \<in> set (pending t)" and k: "a_kind (acts t ! a) = KThen"
    and fn: "a_fn (acts t ! a) = UserFn n" and r: "a_resolver (acts t ! a) = Some (RValue v)"
    and u: "user E n (ArgValue v) (log_exec a t) = ([], Throw e)" and e: "\<And>m. e \<noteq> FutureExn m"
  shows "Async E a t = (Inl e, log_exec a t)"
proof -
  have "callFn E a (ArgValue v) (log_exec a t) = (Inl e, log_exec a t)"
    using e by (simp add: callFn_eq Let_def fn u lift_outcome_def monad_defs catchFuture_def split: exn.splits)
  then show ?thesis
    using inv_pending(2) [OF i a] r k
    by (simp add: Async_def monad_defs executeAsync_def resolveCb_def active_def)
qed


definition no_file :: "unit fsenv" where
  "no_file = (one_file [] 0)\<lparr>uv_fs_stat := (\<lambda>q w. (- 2, stats.make 0 0 0 0 0 0 0 0 0 0 0 0 (0, 0) (0, 0) (0, 0) (0, 0), w))\<rparr>"

definition exists_env :: "bool env" where
  "exists_env = \<lparr>user = (\<lambda>k x s. if k = 1 then ([], outcome_of (\<lambda>_. True) (fst (statSync no_file (Stat ''x'') ())))
       else ([], Return (Val True))),
     user_error = (\<lambda>n e s. ([], Inr (Val False))), uv_async_init = (\<lambda>a. 0), uv_async_send = (\<lambda>a. 0)\<rparr>"


section \<open>The functions that run on the loop\<close>

definition fs_fstat :: "'v env \<Rightarrow> nat \<Rightarrow> ('v st, fid) M" where
  "fs_fstat E k = async E (UserFn k)"

definition fs_lstat :: "'v env \<Rightarrow> nat \<Rightarrow> ('v st, fid) M" where
  "fs_lstat E k = async E (UserFn k)"

definition fs_readdir :: "'v env \<Rightarrow> nat \<Rightarrow> ('v st, fid) M" where
  "fs_readdir E k = async E (UserFn k)"

text \<open>The function that \<open>readdir\<close> gives to \<open>async\<close>, which catches \<open>Error\<close>; those of the \<open>stat\<close> functions do not.\<close>

definition readdir_fn :: "'w fsenv \<Rightarrow> string \<Rightarrow> int \<Rightarrow> ('w, string list) M" where
  "readdir_fn U path flags w = (case readdirSync U path flags w of
     (Inl (ErrorExn c m), w') \<Rightarrow> (Inl (FutureExn (Error_str U c m)), w') | r \<Rightarrow> r)"

text \<open>\<open>open\<close> with its flags as a text.\<close>

definition fs_open_str :: "nat \<Rightarrow> 'w fsenv \<Rightarrow> string \<Rightarrow> string \<Rightarrow> int \<Rightarrow> 'w \<Rightarrow> ((exn + fsval) \<times> 'w) option" where
  "fs_open_str n U path flags mode = fs_async n U (Open path (stringToFlags (fe_sys U) flags) mode)"

text \<open>Both versions of \<open>open\<close> do the same on a thread that has a loop.\<close>

lemma open_str_sync: "fs_open_str n U p flags m w = Some (in_worker U (fmapM Fd (openSync_str U p flags m)) w)"
  by (simp add: fs_open_str_def fs_async_def openSync_str_def in_worker_def)

lemma async_turn:
  assumes r: "reachable E s" and uv: "uv_ok E" and on: "cur_thread s = loop_thread s"
  obtains t where "async E (UserFn k) s = (Inr (length (futs s)), t)" "reachable E t"
    "length (acts s) \<in> set (pending t)" "running (length (acts s)) (log_exec (length (acts s)) t)"
    "acts t ! length (acts s) = \<lparr>a_kind = KThen, a_fn = UserFn k, a_future = length (futs s),
       a_resolver = Some (RValue Void), uv_data = True, a_instance = True, instanceNum = 1\<rparr>"
    "length (futs s) < length (futs t)"
proof -
  let ?t = "async_st (UserFn k) s" and ?a = "length (acts s)"
  have i: "inv [] s" by (rule core.always [OF r])
  have p: "inv [] ?t" "ext s ?t" "length (futs ?t) = Suc (length (futs s))"
    using async_st_props [OF i, of "UserFn k"] by simp_all
  have run: "async E (UserFn k) s = (Inr (length (futs s)), ?t)"
    using async_run(2) [OF i, of "UserFn k"] uv by simp
  then have "reachable E (snd (run_api E (AsyncCall k) s))"
    by (intro reachable_api [OF r]) (simp add: monad_defs)
  then have rt: "reachable E ?t" using run by (simp add: monad_defs)
  have pend: "?a \<in> set (pending ?t)" by (simp add: async_st_def enq_all_acts)
  have "isOnEventLoopThread ?t"
    using isOn_ext [OF p(2)] on_loop_thread [OF on] by simp
  then have "running ?a (log_exec ?a ?t)"
    by (rule running_log_exec [OF p(1) reachable_own [OF rt] pend])
  moreover have "acts ?t ! ?a = \<lparr>a_kind = KThen, a_fn = UserFn k, a_future = length (futs s),
      a_resolver = Some (RValue Void), uv_data = True, a_instance = True, instanceNum = 1\<rparr>"
    by (simp add: async_st_def enq_all_acts add_action_nth)
  ultimately show ?thesis using p(3) by (intro that [OF run rt pend]) simp_all
qed

text \<open>A directory that cannot be read: the turn of the loop that runs the function settles the future of
\<open>readdir\<close> with the text of the error.\<close>

lemma readdir_error_reported:
  assumes "reachable E s" and "uv_ok E" and "cur_thread s = loop_thread s"
    and "readdirSync U path flags w = (Inl (ErrorExn c m), w')"
    and "user E k = (\<lambda>x s. ([], outcome_of g (fst (readdir_fn U path flags w))))"
  shows "\<exists>h t a u. fs_readdir E k s = (Inr h, t) \<and> a \<in> set (pending t) \<and> Async E a t = (Inr (), u) \<and>
    f_resolver (futs u ! h) = Some (RError (Error_str U c m))"
proof -
  obtain t where t: "async E (UserFn k) s = (Inr (length (futs s)), t)" "reachable E t"
    "length (acts s) \<in> set (pending t)" "running (length (acts s)) (log_exec (length (acts s)) t)"
    "acts t ! length (acts s) = \<lparr>a_kind = KThen, a_fn = UserFn k, a_future = length (futs s),
       a_resolver = Some (RValue Void), uv_data = True, a_instance = True, instanceNum = 1\<rparr>"
    "length (futs s) < length (futs t)"
    using async_turn [OF assms(1-3)] by blast
  let ?a = "length (acts s)" and ?y = "RError (Error_str U c m)"
  have "executeAsync E ?a (log_exec ?a t) = (Inr (), settle (length (futs s)) ?y (log_exec ?a t))"
    by (rule spec_turn [OF t(4) assms(2), where n = k and x = "RValue Void"])
      (simp_all add: t(5) assms(4,5) readdir_fn_def outcome_of_def)
  note e = Async_eq [OF core.always [OF t(2)] t(3) this]
  have "f_resolver (futs (uv_close ?a (settle (length (futs s)) ?y (log_exec ?a t))) ! length (futs s)) = Some ?y"
    using t(6) by (simp add: settle_def set_resolver_def upd_fut_def uv_close_def)
  with t(1,3) e show ?thesis unfolding fs_readdir_def by blast
qed

end
