(* ===== verification/Handles.thy ===== *)
theory Handles
  imports AsyncOwner Headers
begin

text \<open>
  The handles of libuv and their requests: \<open>Handle\<close>, \<open>Stream\<close>, \<open>Tcp\<close>, \<open>Pipe\<close> and \<open>Timer\<close>
  (\<open>src/base/*\<close>, \<open>src/net/Tcp.cpp\<close>, \<open>src/Pipe.cpp\<close>, \<open>src/Timer.cpp\<close>), and the promises of their
  operations. A handle is named by its index. The codes that libuv returns are arguments of the
  operations. Only the library has these promises: in the store of futures they belong to no
  promise of the program.
\<close>

section \<open>State\<close>

text \<open>\<open>h_ptr\<close>: \<open>_uvHandlePtr\<close> is set; \<open>h_data\<close>: its \<open>data\<close> points to the handle; \<open>h_instance\<close> and
\<open>h_count\<close>: \<open>_instanceHandle\<close> and its counter; \<open>h_closing\<close>: what \<open>uv_is_closing\<close> gives;
\<open>h_reading\<close>: \<open>_readCb\<close> is set. \<open>h_connecting\<close> and \<open>h_connected\<close> are the fields of \<open>Tcp\<close> and \<open>Pipe\<close>.\<close>

record handle =
  h_ptr :: bool
  h_data :: bool
  h_instance :: bool
  h_count :: nat
  h_promise :: fid
  h_closing :: bool
  h_connecting :: bool
  h_connected :: bool
  h_reading :: bool

text \<open>\<open>RequestPromiseInstance\<close>: a request that libuv has, with its handle and its promise.\<close>

datatype reqkind = ReqWrite | ReqShutdown | ReqConnect

record request =
  q_kind :: reqkind
  q_handle :: nat
  q_promise :: fid

text \<open>\<open>y_closes\<close>: the handles given to \<open>uv_close\<close> whose callback has not run.\<close>

record 'v hsys =
  y_st :: "'v st"
  y_objs :: "handle list"
  y_reqs :: "request list"
  y_closes :: "nat list"

definition on_fut :: "('v st, 'a) M \<Rightarrow> ('v hsys, 'a) M" where
  "on_fut m y = (case m (y_st y) of (r, t) \<Rightarrow> (r, y\<lparr>y_st := t\<rparr>))"

definition upd_handle :: "nat \<Rightarrow> (handle \<Rightarrow> handle) \<Rightarrow> 'v hsys \<Rightarrow> 'v hsys" where
  "upd_handle h g y = y\<lparr>y_objs := (y_objs y)[h := g (y_objs y ! h)]\<rparr>"

section \<open>Handle\<close>

definition check_loop_thread :: "('v hsys, unit) M" where
  "check_loop_thread = on_fut (assertM isOnEventLoopThread ''Not on the event Loop thread'')"

text \<open>The constructors, down to \<open>Handle\<close>.\<close>

definition Handle_new :: "('v hsys, nat) M" where
  "Handle_new = thenM check_loop_thread
     (bindM (on_fut (new_future False)) (\<lambda>f y. (Inr (length (y_objs y)),
        y\<lparr>y_objs := y_objs y @ [\<lparr>h_ptr = False, h_data = False, h_instance = False, h_count = 0,
          h_promise = f, h_closing = False, h_connecting = False, h_connected = False,
          h_reading = False\<rparr>]\<rparr>)))"

definition keepInstanceHandle :: "nat \<Rightarrow> ('v hsys, unit) M" where
  "keepInstanceHandle h = modM (upd_handle h (\<lambda>x. x\<lparr>h_count := h_count x + 1, h_instance := True\<rparr>))"

definition releaseInstanceHandle :: "nat \<Rightarrow> ('v hsys, unit) M" where
  "releaseInstanceHandle h =
     thenM (assertM (\<lambda>y. h_count (y_objs y ! h) > 0) ''_instanceHandleCount > 0'')
    (thenM (assertM (\<lambda>y. h_instance (y_objs y ! h)) ''_instanceHandle'')
    (modM (upd_handle h (\<lambda>x. x\<lparr>h_count := h_count x - 1,
       h_instance := (if h_count x - 1 = 0 then False else h_instance x)\<rparr>))))"

definition Handle_init :: "nat \<Rightarrow> ('v hsys, unit) M" where
  "Handle_init h = thenM (modM (upd_handle h (\<lambda>x. x\<lparr>h_ptr := True, h_data := True\<rparr>))) (keepInstanceHandle h)"

definition get_handle :: "nat \<Rightarrow> ('v hsys, handle) M" where
  "get_handle h = thenM (assertM (\<lambda>y. h_ptr (y_objs y ! h)) ''_uvHandlePtr != nullptr'')
     (\<lambda>y. retM (y_objs y ! h) y)"

definition isClosing :: "nat \<Rightarrow> ('v hsys, bool) M" where
  "isClosing h = bindM (get_handle h) (\<lambda>x. retM (h_closing x))"

definition Handle_close :: "nat \<Rightarrow> ('v hsys, fid) M" where
  "Handle_close h = thenM check_loop_thread
     (bindM (isClosing h) (\<lambda>c.
      thenM (if c then retM ()
             else bindM (on_fut (new_future False)) (\<lambda>f.
               modM (\<lambda>y. upd_handle h (\<lambda>x. x\<lparr>h_promise := f, h_closing := True\<rparr>) (y\<lparr>y_closes := y_closes y @ [h]\<rparr>))))
        (\<lambda>y. retM (h_promise (y_objs y ! h)) y)))"

text \<open>The callback of \<open>uv_close\<close>; \<open>iv\<close> gives the value that stands for the handle.\<close>

definition on_close :: "'v env \<Rightarrow> (nat \<Rightarrow> 'v payload) \<Rightarrow> nat \<Rightarrow> ('v hsys, unit) M" where
  "on_close E iv h =
     thenM (modM (\<lambda>y. y\<lparr>y_closes := remove1 h (y_closes y)\<rparr>))
    (thenM (assertM (\<lambda>y. h_data (y_objs y ! h)) ''h->data'')
    (thenM (modM (upd_handle h (\<lambda>x. x\<lparr>h_data := False\<rparr>)))
    (thenM (releaseInstanceHandle h)
    (thenM (\<lambda>y. on_fut (future_resolve E (h_promise (y_objs y ! h)) (iv h)) y)
    (bindM (on_fut (new_future False)) (\<lambda>f. modM (upd_handle h (\<lambda>x. x\<lparr>h_promise := f\<rparr>))))))))"

section \<open>Requests\<close>

definition Request_Create :: "('v hsys, fid) M" where
  "Request_Create = on_fut (new_future False)"

definition send_request :: "reqkind \<Rightarrow> nat \<Rightarrow> fid \<Rightarrow> ('v hsys, unit) M" where
  "send_request k h f = modM (\<lambda>y. y\<lparr>y_reqs := y_reqs y @ [\<lparr>q_kind = k, q_handle = h, q_promise = f\<rparr>]\<rparr>)"

text \<open>\<open>Stream::write\<close> and \<open>Stream::shutdown\<close>; \<open>res\<close>: the code of \<open>uv_write\<close> or \<open>uv_shutdown\<close>.\<close>

definition Stream_write :: "'v env \<Rightarrow> nat \<Rightarrow> int \<Rightarrow> ('v hsys, fid) M" where
  "Stream_write E h res =
     bindM Request_Create (\<lambda>f. thenM (bindM (get_handle h) (\<lambda>_. retM ()))
    (if res \<noteq> 0 then thenM (on_fut (future_reject E f (''Error in uv_write, status: '' @ dec_int res))) (retM f)
     else thenM (send_request ReqWrite h f) (retM f)))"

definition Stream_shutdown :: "'v env \<Rightarrow> nat \<Rightarrow> int \<Rightarrow> ('v hsys, fid) M" where
  "Stream_shutdown E h res =
     bindM Request_Create (\<lambda>f. thenM (bindM (get_handle h) (\<lambda>_. retM ()))
    (if res \<noteq> 0 then thenM (on_fut (future_reject E f (''Error in uv_shutdown, status: '' @ dec_int res))) (retM f)
     else thenM (send_request ReqShutdown h f) (retM f)))"

text \<open>\<open>Tcp::connect\<close>: \<open>version\<close> and the codes of the conversion of the address and of
\<open>uv_tcp_connect\<close>. Errors are negative.\<close>

definition Tcp_connect :: "'v env \<Rightarrow> nat \<Rightarrow> int \<Rightarrow> int \<Rightarrow> int \<Rightarrow> ('v hsys, fid) M" where
  "Tcp_connect E h version addr res = (\<lambda>y.
     let x = y_objs y ! h in
     if h_connected x \<or> h_connecting x then on_fut (promise_Reject E ''Already connected'') y
     else if version \<noteq> 4 \<and> version \<noteq> 6 then on_fut (promise_Reject E ''wrong socket address'') y
     else if addr < 0 then on_fut (promise_Reject E ''Error in to_ip4_addr/to_ip6_addr'') y
     else bindM Request_Create (\<lambda>f. thenM (bindM (get_handle h) (\<lambda>_. retM ()))
       (if res < 0 then on_fut (promise_Reject E ''Error in uv_tcp_connect'')
        else thenM (send_request ReqConnect h f)
            (thenM (modM (upd_handle h (\<lambda>x. x\<lparr>h_connecting := True\<rparr>))) (retM f)))) y)"

definition Pipe_connect :: "'v env \<Rightarrow> nat \<Rightarrow> ('v hsys, fid) M" where
  "Pipe_connect E h = (\<lambda>y.
     let x = y_objs y ! h in
     if h_connected x \<or> h_connecting x then on_fut (promise_Reject E ''Already connected'') y
     else bindM Request_Create (\<lambda>f. thenM (bindM (get_handle h) (\<lambda>_. retM ()))
       (thenM (send_request ReqConnect h f)
         (thenM (modM (upd_handle h (\<lambda>x. x\<lparr>h_connecting := True\<rparr>))) (retM f)))) y)"

text \<open>The callbacks of the requests: \<open>AfterWrite\<close>, the one of \<open>shutdown\<close>, and \<open>Connect\<close>.\<close>

definition AfterWrite :: "'v env \<Rightarrow> (int \<Rightarrow> string) \<Rightarrow> fid \<Rightarrow> int \<Rightarrow> ('v hsys, unit) M" where
  "AfterWrite E strerror f status =
     on_fut (if \<not> status < 0 then future_resolve E f Void else future_reject E f (strerror status))"

definition AfterShutdown :: "'v env \<Rightarrow> fid \<Rightarrow> int \<Rightarrow> ('v hsys, unit) M" where
  "AfterShutdown E f status =
     on_fut (if status = 0 then future_resolve E f Void else future_reject E f (''Returned non zero status '' @ dec_int status))"

definition Connect :: "'v env \<Rightarrow> nat \<Rightarrow> fid \<Rightarrow> int \<Rightarrow> ('v hsys, unit) M" where
  "Connect E h f status =
     thenM (assertM (\<lambda>y. h_data (y_objs y ! h)) ''req->handle->data'')
    (thenM (modM (upd_handle h (\<lambda>x. x\<lparr>h_connected := True, h_connecting := False\<rparr>)))
    (on_fut (if status = 0 then future_resolve E f Void
             else future_reject E f (''Error in uv_tcp_connect, non-zero status '' @ dec_int status))))"

definition complete :: "'v env \<Rightarrow> (int \<Rightarrow> string) \<Rightarrow> request \<Rightarrow> int \<Rightarrow> ('v hsys, unit) M" where
  "complete E strerror q status =
     thenM (modM (\<lambda>y. y\<lparr>y_reqs := remove1 q (y_reqs y)\<rparr>))
       (case q_kind q of
          ReqWrite \<Rightarrow> AfterWrite E strerror (q_promise q) status
        | ReqShutdown \<Rightarrow> AfterShutdown E (q_promise q) status
        | ReqConnect \<Rightarrow> Connect E (q_handle q) (q_promise q) status)"

section \<open>Reading\<close>

definition readStart :: "nat \<Rightarrow> int \<Rightarrow> ('v hsys, bool) M" where
  "readStart h res =
     thenM (assertM (\<lambda>y. \<not> h_reading (y_objs y ! h)) ''!_readCb'')
    (thenM (bindM (get_handle h) (\<lambda>_. retM ()))
    (thenM (if res = 0 then modM (upd_handle h (\<lambda>x. x\<lparr>h_reading := True\<rparr>)) else retM ())
      (retM (res = 0))))"

definition readStop :: "nat \<Rightarrow> int \<Rightarrow> ('v hsys, bool) M" where
  "readStop h res =
     thenM (bindM (get_handle h) (\<lambda>_. retM ()))
    (thenM (if res = 0 then modM (upd_handle h (\<lambda>x. x\<lparr>h_reading := False\<rparr>)) else retM ())
      (retM (res = 0)))"

section \<open>Creation, and Timer\<close>

definition Tcp_Create :: "('v hsys, nat) M" where
  "Tcp_Create = bindM Handle_new (\<lambda>h. thenM (Handle_init h) (retM h))"

definition Pipe_Create :: "('v hsys, nat) M" where
  "Pipe_Create = bindM Handle_new (\<lambda>h. thenM (Handle_init h) (retM h))"

definition Timer_Create :: "int \<Rightarrow> ('v hsys, nat) M" where
  "Timer_Create r = bindM Handle_new (\<lambda>h. thenM (Handle_init h) (thenM (assertM (\<lambda>_. r = 0) ''r == 0'') (retM h)))"

text \<open>\<open>Timer::close\<close>; \<open>n\<close> is the function that calls \<open>_onClose\<close>.\<close>

definition Timer_close :: "'v env \<Rightarrow> nat \<Rightarrow> nat \<Rightarrow> ('v hsys, fid) M" where
  "Timer_close E n h = bindM (Handle_close h) (\<lambda>f. on_fut (future_then E f (UserFn n)))"

text \<open>\<open>Timer::OnTimeout\<close> before it calls the callback: \<open>repeat\<close> is what \<open>uv_timer_get_repeat\<close> gives,
\<open>cb\<close>: a callback is set.\<close>

definition Timer_OnTimeout :: "'v env \<Rightarrow> nat \<Rightarrow> nat \<Rightarrow> nat \<Rightarrow> bool \<Rightarrow> ('v hsys, unit) M" where
  "Timer_OnTimeout E n h repeat cb =
     (if repeat = 0 \<or> \<not> cb then bindM (Timer_close E n h) (\<lambda>_. retM ()) else retM ())"

section \<open>Steps\<close>

text \<open>
  What the program and libuv do. libuv completes the requests of a handle, if need be with
  \<open>UV_ECANCELED\<close>, before it calls the handle's close callback, and calls no timer that is closing.
\<close>

inductive hstep :: "'v env \<Rightarrow> (int \<Rightarrow> string) \<Rightarrow> (nat \<Rightarrow> 'v payload) \<Rightarrow> 'v hsys \<Rightarrow> 'v hsys \<Rightarrow> bool"
  for E S iv where
  h_lib: "step E (y_st y) t \<Longrightarrow> hstep E S iv y (y\<lparr>y_st := t\<rparr>)"
| h_tcp: "Tcp_Create y = (Inr h, z) \<Longrightarrow> hstep E S iv y z"
| h_timer: "Timer_Create r y = (Inr h, z) \<Longrightarrow> hstep E S iv y z"
| h_close: "h < length (y_objs y) \<Longrightarrow> Handle_close h y = (Inr f, z) \<Longrightarrow> hstep E S iv y z"
| h_on_close: "h \<in> set (y_closes y) \<Longrightarrow> \<forall>q \<in> set (y_reqs y). q_handle q \<noteq> h \<Longrightarrow>
    on_close E iv h y = (Inr x, z) \<Longrightarrow> hstep E S iv y z"
| h_write: "h < length (y_objs y) \<Longrightarrow> h_data (y_objs y ! h) \<or> res \<noteq> 0 \<Longrightarrow>
    Stream_write E h res y = (Inr f, z) \<Longrightarrow> hstep E S iv y z"
| h_shutdown: "h < length (y_objs y) \<Longrightarrow> h_data (y_objs y ! h) \<or> res \<noteq> 0 \<Longrightarrow>
    Stream_shutdown E h res y = (Inr f, z) \<Longrightarrow> hstep E S iv y z"
| h_connect: "h < length (y_objs y) \<Longrightarrow> h_data (y_objs y ! h) \<or> res < 0 \<Longrightarrow>
    Tcp_connect E h version addr res y = (Inr f, z) \<Longrightarrow> hstep E S iv y z"
| h_pipe: "h < length (y_objs y) \<Longrightarrow> h_data (y_objs y ! h) \<Longrightarrow>
    Pipe_connect E h y = (Inr f, z) \<Longrightarrow> hstep E S iv y z"
| h_complete: "q \<in> set (y_reqs y) \<Longrightarrow> complete E S q status y = (Inr x, z) \<Longrightarrow> hstep E S iv y z"
| h_read: "h < length (y_objs y) \<Longrightarrow> readStart h res y = (Inr b, z) \<Longrightarrow> hstep E S iv y z"
| h_stop: "h < length (y_objs y) \<Longrightarrow> readStop h res y = (Inr b, z) \<Longrightarrow> hstep E S iv y z"
| h_timeout: "h < length (y_objs y) \<Longrightarrow> \<not> h_closing (y_objs y ! h) \<Longrightarrow>
    Timer_OnTimeout E n h repeat cb y = (Inr x, z) \<Longrightarrow> hstep E S iv y z"

abbreviation hsteps :: "'v env \<Rightarrow> (int \<Rightarrow> string) \<Rightarrow> (nat \<Rightarrow> 'v payload) \<Rightarrow> 'v hsys \<Rightarrow> 'v hsys \<Rightarrow> bool" where
  "hsteps E S iv \<equiv> (hstep E S iv)\<^sup>*\<^sup>*"

definition init_hsys :: "nat \<Rightarrow> 'v hsys" where
  "init_hsys th = \<lparr>y_st = init_st th, y_objs = [], y_reqs = [], y_closes = []\<rparr>"

abbreviation hreach :: "'v env \<Rightarrow> (int \<Rightarrow> string) \<Rightarrow> (nat \<Rightarrow> 'v payload) \<Rightarrow> 'v hsys \<Rightarrow> bool" where
  "hreach E S iv \<equiv> reached (\<lambda>y. \<exists>th. y = init_hsys th) (hstep E S iv)"

section \<open>Invariant\<close>

text \<open>The promises of the handles and of the requests that libuv has are all different, and nobody
settles them but the library.\<close>

abbreviation owned_ok :: "'v st \<Rightarrow> fid list \<Rightarrow> bool" where
  "owned_ok \<equiv> owns (inv []) fresh_at"

definition owned :: "'v hsys \<Rightarrow> fid list" where
  "owned y = map h_promise (y_objs y) @ map q_promise (y_reqs y)"

text \<open>A handle keeps itself alive until its close callback has run.\<close>

definition handle_ok :: "nat list \<Rightarrow> nat \<Rightarrow> handle \<Rightarrow> bool" where
  "handle_ok C h x \<longleftrightarrow> h_ptr x \<and> h_data x = (h_closing x \<longrightarrow> h \<in> set C) \<and>
     h_instance x = h_data x \<and> h_count x = (if h_data x then 1 else 0)"

definition struct_ok :: "handle list \<Rightarrow> request list \<Rightarrow> nat list \<Rightarrow> bool" where
  "struct_ok hs rs C \<longleftrightarrow> distinct C \<and> (\<forall>h \<in> set C. h < length hs \<and> h_closing (hs ! h)) \<and>
     (\<forall>h < length hs. handle_ok C h (hs ! h)) \<and>
     (\<forall>q \<in> set rs. q_handle q < length hs \<and> h_data (hs ! q_handle q))"

definition hok :: "'v hsys \<Rightarrow> bool" where
  "hok y \<longleftrightarrow> owned_ok (y_st y) (owned y) \<and> struct_ok (y_objs y) (y_reqs y) (y_closes y)"

lemma owned_new: "owned_ok s os \<Longrightarrow> owned_ok (add_future False s) (length (futs s) # os)"
  by (erule store.owner_makes) (rule new_future_eq)

lemma owned_settle:
  assumes o: "owned_ok s (f # os)" and run: "resolver_resolve_future E r f s = (Inr x, t)"
  shows "owned_ok t os" "t = settle f r s" "f_resolver (futs t ! f) = Some r"
proof -
  have "inv [] s" "fresh_at f s" using ownsD [OF o] by simp_all
  note t = fresh_settled [OF this run]
  show "owned_ok t os" "t = settle f r s" "f_resolver (futs t ! f) = Some r"
    using store.owner_settles(1) [OF o run] t(1,4) .
qed

lemmas owned_settle_value = owned_settle [where r = "RValue _", simplified]
lemmas owned_settle_error = owned_settle [where r = "RError _", simplified]

text \<open>A promise that is created and then rejected; it is a promise of the program's.\<close>

lemma owned_reject:
  assumes o: "owned_ok s os" and run: "promise_Reject E e s = (Inr f, t)"
  shows "owned_ok t os" "f = length (futs s)" "f_resolver (futs t ! f) = Some (RError e)"
proof -
  have i: "inv [] s" by (rule ownsD(1) [OF o])
  let ?s = "add_future True s" and ?n = "length (futs s)"
  have n: "?n < length (futs ?s)" "f_resolver (futs ?s ! ?n) = None" by (simp_all add: add_future_nth)
  have i1: "inv [] ?s" by (rule inv_add_future [OF i])
  have r: "future_reject E ?n e ?s = (Inr (), t) \<and> f = ?n"
    using run by (auto simp: promise_Reject_def promise_new_def promise_reject_def new_future_eq monad_defs
        split: prod.splits sum.splits)
  then show "f = ?n" by simp
  have t: "t = settle ?n (RError e) ?s"
    using resolve_future_cases [OF i1 n(1), of E "RError e" "Inr ()" t] r n(2) by simp
  then show "f_resolver (futs t ! f) = Some (RError e)" using settle_fut [OF n(1)] r by simp
  have "fresh_at g t" if "g \<in> set os" for g
  proof -
    have g: "fresh_at g s" by (rule ownsD(2) [OF o that])
    then have "?n \<noteq> g" using fresh_atD(1) by blast
    then have "keeps_fresh g (future_reject E ?n e)" by (rule keeps_fresh_settle(2))
    from keepsD [OF this fresh_add_fut [OF g]] r show ?thesis by (metis ok_simps(1))
  qed
  then show "owned_ok t os" using o inv_settle [OF i1 n] by (simp add: owns_def t)
qed

text \<open>Attaching an action is a call that the program could make too.\<close>

lemma owned_then:
  assumes o: "owned_ok s os" and f: "f < length (futs s)" and run: "future_then E f (UserFn n) s = (Inr g, t)"
  shows "owned_ok t os"
proof (rule store.owner_waits [OF o])
  have "run_api E (Then f n) s = (Inr (), t)" using f run by (simp add: on_future_def monad_defs)
  then show "step E s t" by (rule step_call) simp
qed

lemma owned_update:
  assumes "owned_ok s (n # map h_promise hs @ ps)" and "h < length hs" and n: "h_promise x = n"
  shows "owned_ok s (map h_promise (hs[h := x]) @ ps)"
proof (rule owns_sub [OF assms(1)])
  show "set (map h_promise (hs[h := x]) @ ps) \<subseteq> set (n # map h_promise hs @ ps)"
    using set_update_subset_insert [of "map h_promise hs" h n] n by (auto simp: map_update)
  show "distinct (map h_promise (hs[h := x]) @ ps)"
    using assms set_update_subset_insert [of "map h_promise hs" h n]
    by (auto simp: owns_def map_update intro!: distinct_list_update)
qed

lemma map_promise_same:
  "h < length hs \<Longrightarrow> h_promise x = h_promise (hs ! h) \<Longrightarrow> map h_promise (hs[h := x]) = map h_promise hs"
  by (simp add: map_update list_update_same_conv)

lemmas handle_defs = Handle_new_def check_loop_thread_def Handle_init_def keepInstanceHandle_def
  releaseInstanceHandle_def get_handle_def isClosing_def on_fut_def upd_handle_def new_future_eq monad_defs

lemma hok_new:
  assumes ok: "hok y"
  shows "Tcp_Create y = (Inr h, z) \<Longrightarrow> hok z" "Timer_Create r y = (Inr h, z) \<Longrightarrow> hok z"
proof -
  let ?n = "length (futs (y_st y))"
  let ?z = "y\<lparr>y_st := add_future False (y_st y), y_objs := y_objs y @ [\<lparr>h_ptr = True, h_data = True,
    h_instance = True, h_count = 1, h_promise = ?n, h_closing = False, h_connecting = False,
    h_connected = False, h_reading = False\<rparr>]\<rparr>"
  have o: "owned_ok (y_st y) (owned y)" and st: "struct_ok (y_objs y) (y_reqs y) (y_closes y)"
    using ok by (simp_all add: hok_def)
  have "owned_ok (y_st ?z) (owned ?z)"
    using owned_new [OF o] by (auto simp: owns_def owned_def)
  moreover have "struct_ok (y_objs ?z) (y_reqs ?z) (y_closes ?z)"
    using st by (auto simp: struct_ok_def handle_ok_def nth_append less_Suc_eq)
  ultimately have z: "hok ?z" by (simp add: hok_def)
  show "hok z" if "Tcp_Create y = (Inr h, z)"
    using that z by (auto simp: Tcp_Create_def handle_defs split: if_splits)
  show "hok z" if "Timer_Create r y = (Inr h, z)"
    using that z by (auto simp: Timer_Create_def handle_defs split: if_splits)
qed

text \<open>\<open>close\<close> on the loop's thread.\<close>

definition close_st :: "nat \<Rightarrow> 'v hsys \<Rightarrow> 'v hsys" where
  "close_st h y = upd_handle h (\<lambda>x. x\<lparr>h_promise := length (futs (y_st y)), h_closing := True\<rparr>)
     (y\<lparr>y_st := add_future False (y_st y), y_closes := y_closes y @ [h]\<rparr>)"

lemma Handle_close_eq:
  assumes "hok y" "h < length (y_objs y)" "isOnEventLoopThread (y_st y)"
  shows "Handle_close h y =
    (if h_closing (y_objs y ! h) then (Inr (h_promise (y_objs y ! h)), y)
     else (Inr (length (futs (y_st y))), close_st h y))"
  using assms
  by (simp add: Handle_close_def handle_defs hok_def struct_ok_def handle_ok_def close_st_def)

lemma Handle_close_thread: "Handle_close h y = (Inr f, z) \<Longrightarrow> isOnEventLoopThread (y_st y)"
  by (auto simp: Handle_close_def handle_defs split: if_splits)

lemma hok_close_st:
  assumes ok: "hok y" and h: "h < length (y_objs y)" and c: "\<not> h_closing (y_objs y ! h)"
  shows "hok (close_st h y)"
proof -
  have o: "owned_ok (y_st y) (owned y)" and st: "struct_ok (y_objs y) (y_reqs y) (y_closes y)"
    using ok by (simp_all add: hok_def)
  have "owned_ok (y_st (close_st h y)) (owned (close_st h y))"
    using owned_update [OF owned_new [OF o, unfolded owned_def] h, of "(y_objs y ! h)\<lparr>h_promise := _, h_closing := True\<rparr>"]
    by (simp add: close_st_def upd_handle_def owned_def)
  moreover have "struct_ok (y_objs (close_st h y)) (y_reqs (close_st h y)) (y_closes (close_st h y))"
    using st h c by (auto simp: struct_ok_def handle_ok_def close_st_def upd_handle_def nth_list_update)
  ultimately show ?thesis by (simp add: hok_def)
qed

lemma owned_handle:
  assumes "hok y" "h < length (y_objs y)"
  shows "h_promise (y_objs y ! h) \<in> set (owned y)" "fresh_at (h_promise (y_objs y ! h)) (y_st y)"
  using assms by (auto simp: hok_def owns_def owned_def)

lemma hok_close:
  assumes ok: "hok y" and h: "h < length (y_objs y)" and run: "Handle_close h y = (Inr f, z)"
  shows "hok z" "f < length (futs (y_st z))"
proof -
  note eq = Handle_close_eq [OF ok h Handle_close_thread [OF run]]
  show "hok z" using run eq hok_close_st [OF ok h] ok by (auto split: if_splits)
  show "f < length (futs (y_st z))"
    using run eq fresh_atD(1) [OF owned_handle(2) [OF ok h]]
    by (auto split: if_splits simp: close_st_def upd_handle_def)
qed

lemma hok_timeout:
  assumes ok: "hok y" and h: "h < length (y_objs y)" and run: "Timer_OnTimeout E n h repeat cb y = (Inr x, z)"
  shows "hok z"
proof (cases "repeat = 0 \<or> \<not> cb")
  case True
  obtain q u where q: "Handle_close h y = (q, u)" by (cases "Handle_close h y")
  with run True obtain f where f: "q = Inr f" by (cases q) (auto simp: Timer_OnTimeout_def Timer_close_def monad_defs)
  note u = hok_close [OF ok h q [unfolded f]]
  from run True q f obtain g t where g: "future_then E f (UserFn n) (y_st u) = (Inr g, t)" and z: "z = u\<lparr>y_st := t\<rparr>"
    by (auto simp: Timer_OnTimeout_def Timer_close_def monad_defs on_fut_def split: prod.splits sum.splits)
  from u have "owned_ok t (owned u)" using owned_then [OF _ _ g] by (simp add: hok_def)
  with u show ?thesis by (simp add: hok_def z owned_def)
qed (use run ok in \<open>simp add: Timer_OnTimeout_def monad_defs\<close>)

text \<open>The close callback.\<close>

definition closed_hst :: "'v env \<Rightarrow> (nat \<Rightarrow> 'v payload) \<Rightarrow> nat \<Rightarrow> 'v hsys \<Rightarrow> 'v hsys" where
  "closed_hst E iv h y =
     (let t = settle (h_promise (y_objs y ! h)) (RValue (iv h)) (y_st y)
      in y\<lparr>y_st := add_future False t, y_closes := remove1 h (y_closes y),
           y_objs := (y_objs y)[h := (y_objs y ! h)\<lparr>h_data := False, h_count := 0, h_instance := False,
             h_promise := length (futs t)\<rparr>]\<rparr>)"

lemma closing_handle:
  assumes "hok y" "h \<in> set (y_closes y)"
  shows "h < length (y_objs y)" "h_data (y_objs y ! h)" "h_instance (y_objs y ! h)" "h_count (y_objs y ! h) = 1"
    "h_closing (y_objs y ! h)" "h_ptr (y_objs y ! h)"
  using assms by (auto simp: hok_def struct_ok_def handle_ok_def)

lemma on_close_eq:
  assumes ok: "hok y" and h: "h \<in> set (y_closes y)"
    and run: "resolver_resolve_future E (RValue (iv h)) (h_promise (y_objs y ! h)) (y_st y) = (Inr x, t)"
  shows "on_close E iv h y = (Inr (), closed_hst E iv h y)"
proof -
  note c = closing_handle [OF ok h]
  have "fresh_at (h_promise (y_objs y ! h)) (y_st y)" by (rule owned_handle(2) [OF ok c(1)])
  then have "owned_ok (y_st y) [h_promise (y_objs y ! h)]" using ok by (simp add: owns_def hok_def)
  from owned_settle(2) [OF this run] have t: "t = settle (h_promise (y_objs y ! h)) (RValue (iv h)) (y_st y)" .
  with run c show ?thesis
    by (simp add: on_close_def handle_defs closed_hst_def Let_def)
qed

lemma on_close_cases:
  assumes ok: "hok y" and h: "h \<in> set (y_closes y)" and run: "on_close E iv h y = (Inr x, z)"
  obtains t where "resolver_resolve_future E (RValue (iv h)) (h_promise (y_objs y ! h)) (y_st y) = (Inr (), t)"
    "z = closed_hst E iv h y"
proof -
  obtain q t where q: "resolver_resolve_future E (RValue (iv h)) (h_promise (y_objs y ! h)) (y_st y) = (q, t)"
    by (cases "resolver_resolve_future E (RValue (iv h)) (h_promise (y_objs y ! h)) (y_st y)")
  have "\<exists>v. q = Inr v"
    using run q closing_handle [OF ok h] by (cases q) (simp_all add: on_close_def handle_defs)
  then have q': "q = Inr ()" by simp
  then show thesis using that [OF q [unfolded q']] on_close_eq [OF ok h, of E iv] q run by auto
qed

lemma hok_closed:
  assumes ok: "hok y" and h: "h \<in> set (y_closes y)" and none: "\<forall>q \<in> set (y_reqs y). q_handle q \<noteq> h"
    and run: "resolver_resolve_future E (RValue (iv h)) (h_promise (y_objs y ! h)) (y_st y) = (Inr x, t)"
  shows "hok (closed_hst E iv h y)" "f_resolver (futs (y_st (closed_hst E iv h y)) ! h_promise (y_objs y ! h)) = Some (RValue (iv h))"
proof -
  let ?f = "h_promise (y_objs y ! h)" and ?z = "closed_hst E iv h y"
  note c = closing_handle [OF ok h]
  have o: "owned_ok (y_st y) (owned y)" and st: "struct_ok (y_objs y) (y_reqs y) (y_closes y)"
    using ok by (simp_all add: hok_def)
  let ?os = "remove1 ?f (owned y)"
  have "owned_ok (y_st y) (?f # ?os)"
    by (rule owns_sub [OF o]) (use o owned_handle(1) [OF ok c(1)] in \<open>auto simp: owns_def dest: notin_set_remove1\<close>)
  from owned_settle [OF this run] have s: "owned_ok t ?os" "t = settle ?f (RValue (iv h)) (y_st y)"
    "f_resolver (futs t ! ?f) = Some (RValue (iv h))" by blast+
  have fl: "?f < length (futs t)" using fresh_atD(1) [OF owned_handle(2) [OF ok c(1)]] by (simp add: s(2))
  then show "f_resolver (futs (y_st ?z) ! ?f) = Some (RValue (iv h))"
    using s(3) by (simp add: closed_hst_def Let_def s(2) [symmetric] add_future_nth)
  have new: "owned_ok (add_future False t) (length (futs t) # ?os)" by (rule owned_new [OF s(1)])
  have "owned_ok (add_future False t) (owned ?z)"
  proof (rule owns_sub [OF new])
    have d: "distinct (owned y)" using o by (simp add: owns_def)
    have upd: "owned ?z = (owned y)[h := length (futs t)]"
      using c(1) by (simp add: owned_def closed_hst_def Let_def s(2) [symmetric] map_update list_update_append1)
    have nth: "owned y ! h = ?f" "h < length (owned y)" using c(1) by (simp_all add: owned_def nth_append)
    have "set (owned ?z) = insert (length (futs t)) (set (owned y) - {?f})"
      unfolding upd using set_update_distinct [OF d nth(2)] nth(1) by simp
    moreover have "length (futs t) \<notin> set ?os" using new by (simp add: owns_def)
    ultimately show "set (owned ?z) \<subseteq> set (length (futs t) # ?os)" using d by auto
    have "length (futs t) \<notin> set (owned y) - {?f}" using \<open>length (futs t) \<notin> set ?os\<close> d by simp
    then show "distinct (owned ?z)" unfolding upd using d nth by (intro distinct_list_update) simp_all
  qed
  moreover have "struct_ok (y_objs ?z) (y_reqs ?z) (y_closes ?z)"
    using st c none by (auto simp: struct_ok_def handle_ok_def closed_hst_def Let_def nth_list_update)
  ultimately show "hok ?z" by (simp add: hok_def closed_hst_def Let_def s(2) [symmetric])
qed

text \<open>Requests.\<close>

lemma hok_flags:
  assumes "hok y" and "\<And>x. h_ptr (g x) = h_ptr x \<and> h_data (g x) = h_data x \<and> h_instance (g x) = h_instance x \<and>
    h_count (g x) = h_count x \<and> h_promise (g x) = h_promise x \<and> h_closing (g x) = h_closing x"
  shows "hok (upd_handle h g y)"
proof (cases "h < length (y_objs y)")
  case True
  have nth: "(y_objs y)[h := g (y_objs y ! h)] ! k = (if k = h then g (y_objs y ! k) else y_objs y ! k)"
    if "k < length (y_objs y)" for k using that True by (simp add: nth_list_update)
  have "owned (upd_handle h g y) = owned y"
    using True assms(2) by (simp add: owned_def upd_handle_def map_promise_same)
  moreover have "struct_ok (y_objs (upd_handle h g y)) (y_reqs y) (y_closes y)"
    using assms True by (auto simp: hok_def struct_ok_def handle_ok_def upd_handle_def nth)
  ultimately show ?thesis using assms(1) by (simp add: hok_def upd_handle_def)
next
  case False
  with assms(1) show ?thesis by (simp add: upd_handle_def list_update_beyond)
qed

lemma hok_request:
  assumes ok: "hok y" and h: "h < length (y_objs y)" "h_data (y_objs y ! h)"
  shows "hok (y\<lparr>y_st := add_future False (y_st y),
    y_reqs := y_reqs y @ [\<lparr>q_kind = k, q_handle = h, q_promise = length (futs (y_st y))\<rparr>]\<rparr>)"
proof -
  have "owned_ok (y_st y) (owned y)" using ok by (simp add: hok_def)
  from owned_new [OF this] h ok show ?thesis by (auto simp: hok_def owns_def owned_def struct_ok_def)
qed

lemma hok_rejected:
  assumes ok: "hok y" and run: "future_reject E (length (futs (y_st y))) e (add_future False (y_st y)) = (Inr (), t)"
  shows "hok (y\<lparr>y_st := t\<rparr>)"
proof -
  have "owned_ok (y_st y) (owned y)" using ok by (simp add: hok_def)
  from owned_settle_error(1) [OF owned_new [OF this] run] ok show ?thesis by (simp add: hok_def owned_def)
qed

lemma hok_fresh_only:
  assumes ok: "hok y" shows "hok (y\<lparr>y_st := add_future False (y_st y)\<rparr>)"
proof -
  have "owned_ok (y_st y) (owned y)" using ok by (simp add: hok_def)
  from owned_new [OF this] ok show ?thesis by (simp add: hok_def owned_def owns_def)
qed

lemma hok_reject_new:
  assumes ok: "hok y" and run: "on_fut (promise_Reject E e) y = (Inr f, z)"
  shows "hok z"
proof -
  obtain t where t: "promise_Reject E e (y_st y) = (Inr f, t)" and z: "z = y\<lparr>y_st := t\<rparr>"
    using run by (auto simp: on_fut_def split: prod.splits)
  have "owned_ok (y_st y) (owned y)" using ok by (simp add: hok_def)
  from owned_reject(1) [OF this t] ok show ?thesis by (simp add: hok_def z owned_def)
qed

lemmas request_defs = Request_Create_def send_request_def get_handle_def on_fut_def new_future_eq monad_defs

lemma hok_write:
  assumes ok: "hok y" and h: "h < length (y_objs y)" and d: "h_data (y_objs y ! h) \<or> res \<noteq> 0"
  shows "Stream_write E h res y = (Inr f, z) \<Longrightarrow> hok z" "Stream_shutdown E h res y = (Inr f, z) \<Longrightarrow> hok z"
  using hok_request [OF ok h] hok_rejected [OF ok, of E] d
  by (auto simp: Stream_write_def Stream_shutdown_def request_defs split: if_splits prod.splits sum.splits)

lemma hok_pipe:
  assumes ok: "hok y" and h: "h < length (y_objs y)" "h_data (y_objs y ! h)"
    and run: "Pipe_connect E h y = (Inr f, z)"
  shows "hok z"
proof (cases "h_connected (y_objs y ! h) \<or> h_connecting (y_objs y ! h)")
  case True
  with run show ?thesis by (intro hok_reject_new [OF ok]) (simp add: Pipe_connect_def Let_def)
next
  case False
  with run have "z = upd_handle h (\<lambda>x. x\<lparr>h_connecting := True\<rparr>) (y\<lparr>y_st := add_future False (y_st y),
    y_reqs := y_reqs y @ [\<lparr>q_kind = ReqConnect, q_handle = h, q_promise = length (futs (y_st y))\<rparr>]\<rparr>)"
    by (auto simp: Pipe_connect_def Let_def request_defs split: if_splits)
  then show ?thesis using hok_flags [OF hok_request [OF ok h]] by simp
qed

lemma hok_connect:
  assumes ok: "hok y" and h: "h < length (y_objs y)" and d: "h_data (y_objs y ! h) \<or> res < 0"
    and run: "Tcp_connect E h version addr res y = (Inr f, z)"
  shows "hok z"
proof -
  let ?x = "y_objs y ! h" and ?y = "y\<lparr>y_st := add_future False (y_st y)\<rparr>"
  consider e where "on_fut (promise_Reject E e) y = (Inr f, z)"
    | e where "on_fut (promise_Reject E e) ?y = (Inr f, z)"
    | "\<not> res < 0" "z = upd_handle h (\<lambda>x. x\<lparr>h_connecting := True\<rparr>) (y\<lparr>y_st := add_future False (y_st y),
        y_reqs := y_reqs y @ [\<lparr>q_kind = ReqConnect, q_handle = h, q_promise = length (futs (y_st y))\<rparr>]\<rparr>)"
    using run by (auto simp: Tcp_connect_def Let_def request_defs split: if_splits)
  then show ?thesis
  proof cases
    case 1
    then show ?thesis by (rule hok_reject_new [OF ok])
  next
    case 2
    then show ?thesis by (rule hok_reject_new [OF hok_fresh_only [OF ok]])
  next
    case 3
    with d hok_flags [OF hok_request [OF ok h]] show ?thesis by simp
  qed
qed

text \<open>What a request's promise gets.\<close>

definition request_result :: "(int \<Rightarrow> string) \<Rightarrow> reqkind \<Rightarrow> int \<Rightarrow> 'v resolver" where
  "request_result S k status = (case k of
     ReqWrite \<Rightarrow> if \<not> status < 0 then RValue Void else RError (S status)
   | ReqShutdown \<Rightarrow> if status = 0 then RValue Void else RError (''Returned non zero status '' @ dec_int status)
   | ReqConnect \<Rightarrow> if status = 0 then RValue Void
       else RError (''Error in uv_tcp_connect, non-zero status '' @ dec_int status))"

definition completed :: "request \<Rightarrow> 'v st \<Rightarrow> 'v hsys \<Rightarrow> 'v hsys" where
  "completed q t y =
     (if q_kind q = ReqConnect
      then upd_handle (q_handle q) (\<lambda>x. x\<lparr>h_connected := True, h_connecting := False\<rparr>) else id)
     (y\<lparr>y_st := t, y_reqs := remove1 q (y_reqs y)\<rparr>)"

lemma complete_eq:
  assumes "h_data (y_objs y ! q_handle q)"
  shows "complete E S q status y =
    (case resolver_resolve_future E (request_result S (q_kind q) status) (q_promise q) (y_st y) of
       (r, t) \<Rightarrow> (r, completed q t y))"
  using assms
  by (cases "q_kind q")
    (auto simp: complete_def AfterWrite_def AfterShutdown_def Connect_def request_result_def completed_def
      on_fut_def upd_handle_def monad_defs split: prod.splits)

lemma map_remove1_distinct:
  "distinct (map g xs) \<Longrightarrow> q \<in> set xs \<Longrightarrow> map g (remove1 q xs) = remove1 (g q) (map g xs)"
  by (induction xs) (auto simp: image_iff)

lemma hok_completed:
  assumes ok: "hok y" and q: "q \<in> set (y_reqs y)"
    and run: "resolver_resolve_future E r (q_promise q) (y_st y) = (Inr x, t)"
  shows "hok (completed q t y)" "f_resolver (futs (y_st (completed q t y)) ! q_promise q) = Some r"
proof -
  let ?f = "q_promise q" and ?y = "y\<lparr>y_st := t, y_reqs := remove1 q (y_reqs y)\<rparr>"
  have o: "owned_ok (y_st y) (owned y)" using ok by (simp add: hok_def)
  have d: "distinct (owned y)" using o by (simp add: owns_def)
  have "?f \<in> set (owned y)" using q by (auto simp: owned_def)
  then have "owned_ok (y_st y) (?f # remove1 ?f (owned y))"
    using o by (auto simp: owns_def dest: notin_set_remove1)
  note s = owned_settle [OF this run]
  have "owned ?y = remove1 ?f (owned y)"
    using d q by (auto simp: owned_def map_remove1_distinct remove1_append)
  with s(1) have "owned_ok t (owned ?y)" by simp
  moreover have "struct_ok (y_objs y) (y_reqs ?y) (y_closes y)"
    using ok notin_set_remove1 by (fastforce simp: hok_def struct_ok_def)
  ultimately have "hok ?y" by (simp add: hok_def)
  then show "hok (completed q t y)" unfolding completed_def by (auto intro!: hok_flags)
  show "f_resolver (futs (y_st (completed q t y)) ! ?f) = Some r"
    using s(3) by (simp add: completed_def upd_handle_def)
qed

lemma hok_complete:
  assumes ok: "hok y" and q: "q \<in> set (y_reqs y)" and run: "complete E S q status y = (Inr x, z)"
  shows "hok z"
proof -
  have "h_data (y_objs y ! q_handle q)" using ok q by (simp add: hok_def struct_ok_def)
  from run [unfolded complete_eq [OF this]] show ?thesis
    using hok_completed(1) [OF ok q] by (auto split: prod.splits)
qed

lemma hok_read:
  "hok y \<Longrightarrow> readStart h res y = (Inr b, z) \<Longrightarrow> hok z" "hok y \<Longrightarrow> readStop h res y = (Inr b, z) \<Longrightarrow> hok z"
  by (auto simp: readStart_def readStop_def get_handle_def monad_defs split: if_splits intro!: hok_flags)

lemma hok_lib: "hok y \<Longrightarrow> step E (y_st y) t \<Longrightarrow> hok (y\<lparr>y_st := t\<rparr>)"
  by (auto simp: hok_def owned_def intro: store.owner_waits)

lemma hok_step:
  assumes "hstep E S iv y z" and ok: "hok y"
  shows "hok z"
  using assms(1)
proof cases
  case (h_on_close h x)
  then show ?thesis using on_close_cases [OF ok h_on_close(1,3)] hok_closed(1) [OF ok h_on_close(1,2)] by metis
qed (use ok in \<open>blast intro: hok_lib hok_new hok_close hok_write hok_connect hok_pipe hok_complete hok_read hok_timeout\<close>)+

lemma hok_init: "hok (init_hsys th)"
  by (simp add: hok_def init_hsys_def owned_def owns_def struct_ok_def inv_init)

interpretation hsys: invariant "\<lambda>y. \<exists>th. y = init_hsys th" "hstep E S iv" hok
  for E :: "'v env" and S iv
  by unfold_locales (auto intro: hok_init hok_step)

end
