(* ===== verification/Processes.thy ===== *)
theory Processes
  imports Handles "HOL-Library.Word"
begin

unbundle bit_operations_syntax

text \<open>
  \<open>Process\<close> (\<open>src/Process.cpp\<close>, \<open>include/native/Process.hpp\<close>): a handle that collects options for
  \<open>uv_spawn\<close> and starts a process with them. The constants and codes of libuv are parameters.
\<close>

section \<open>State\<close>

text \<open>The fields of \<open>uv_process_options_t\<close> the code could set.\<close>

record options =
  o_exit_cb :: bool
  o_file :: "string option"
  o_flags :: "32 word"
  o_uid :: "32 word"
  o_gid :: "32 word"

record spawnlib =
  UV_PROCESS_SETUID :: "32 word"
  UV_PROCESS_SETGID :: "32 word"
  uv_spawn :: "options \<Rightarrow> int"
  uv_process_kill :: "int \<Rightarrow> int"
  uv_kill :: "int \<Rightarrow> int \<Rightarrow> int"

text \<open>\<open>p_data\<close>: \<open>_uvProcessInstance->data\<close> is not null; \<open>p_exitCb\<close> the callback given to \<open>onExit\<close>;
\<open>p_spawns\<close> the calls of \<open>uv_spawn\<close>, \<open>p_exits\<close> the calls of exit callbacks.\<close>

record process =
  p_handle :: nat
  p_data :: bool
  p_options :: "options option"
  p_exitCb :: "nat option"
  p_spawns :: "options list"
  p_exits :: "(nat \<times> 64 word \<times> 32 word) list"

section \<open>Operations\<close>

text \<open>The constructor; \<open>new uv_process_t\<close> leaves \<open>data\<close> as the memory was, \<open>mem\<close>.\<close>

definition Process_new :: "bool \<Rightarrow> nat \<Rightarrow> process" where
  "Process_new mem h = \<lparr>p_handle = h, p_data = mem, p_options = None, p_exitCb = None,
     p_spawns = [], p_exits = []\<rparr>"

definition Process_init :: "process \<Rightarrow> process" where
  "Process_init p = p"

definition Process_Create :: "bool \<Rightarrow> ('v hsys, process) M" where
  "Process_Create mem = bindM Handle_new (\<lambda>h. retM (Process_init (Process_new mem h)))"

definition zero_options :: options where
  "zero_options = \<lparr>o_exit_cb = False, o_file = None, o_flags = 0, o_uid = 0, o_gid = 0\<rparr>"

definition getProcessOptionsPtr :: "process \<Rightarrow> options" where
  "getProcessOptionsPtr p = (case p_options p of None \<Rightarrow> zero_options | Some ops \<Rightarrow> ops)"

definition upd_options :: "(options \<Rightarrow> options) \<Rightarrow> process \<Rightarrow> process" where
  "upd_options g p = p\<lparr>p_options := Some (g (getProcessOptionsPtr p))\<rparr>"

definition onExit :: "nat \<Rightarrow> process \<Rightarrow> process" where
  "onExit cb p = p\<lparr>p_exitCb := Some cb\<rparr>"

definition setUid :: "spawnlib \<Rightarrow> 32 word \<Rightarrow> process \<Rightarrow> process" where
  "setUid L uid = upd_options (\<lambda>x. x\<lparr>o_flags := o_flags x OR UV_PROCESS_SETUID L\<rparr>) \<circ>
     upd_options (\<lambda>x. x\<lparr>o_uid := uid\<rparr>)"

definition setGid :: "spawnlib \<Rightarrow> 32 word \<Rightarrow> process \<Rightarrow> process" where
  "setGid L gid = upd_options (\<lambda>x. x\<lparr>o_flags := o_flags x OR UV_PROCESS_SETGID L\<rparr>) \<circ>
     upd_options (\<lambda>x. x\<lparr>o_uid := gid\<rparr>)"

definition spawn :: "spawnlib \<Rightarrow> (process, int) M" where
  "spawn L =
     thenM (assertM (\<lambda>p. \<not> p_data p) ''Process already spawned with pid '')
    (thenM (modM (upd_options (\<lambda>x. x\<lparr>o_exit_cb := True\<rparr>)))
    (thenM (modM (\<lambda>p. p\<lparr>p_data := True\<rparr>))
    (bindM (\<lambda>p. let ops = getProcessOptionsPtr p
                in (Inr (uv_spawn L ops), p\<lparr>p_spawns := p_spawns p @ [ops]\<rparr>)) (\<lambda>res.
     thenM (modM (\<lambda>p. p\<lparr>p_options := None\<rparr>)) (retM res)))))"

definition kill :: "spawnlib \<Rightarrow> int \<Rightarrow> process \<Rightarrow> int" where
  "kill L sig p = uv_process_kill L sig"

definition Kill :: "spawnlib \<Rightarrow> int \<Rightarrow> int \<Rightarrow> int" where
  "Kill L pid sig = uv_kill L pid sig"

definition OnExit :: "64 word \<Rightarrow> 32 word \<Rightarrow> process \<Rightarrow> process" where
  "OnExit status sig p = (case p_exitCb p of
       None \<Rightarrow> p
     | Some cb \<Rightarrow> p\<lparr>p_exits := p_exits p @ [(cb, status, sig)]\<rparr>)"

section \<open>Options\<close>

datatype setter = SetUid "32 word" | SetGid "32 word" | SetOnExit nat

fun run_setter :: "spawnlib \<Rightarrow> setter \<Rightarrow> process \<Rightarrow> process" where
  "run_setter L (SetUid u) = setUid L u"
| "run_setter L (SetGid g) = setGid L g"
| "run_setter L (SetOnExit cb) = onExit cb"

text \<open>The id that was set last, by whichever of the two, and the flags of those that were called.\<close>

fun last_id :: "32 word \<Rightarrow> setter list \<Rightarrow> 32 word" where
  "last_id d [] = d"
| "last_id d (SetUid u # ss) = last_id u ss"
| "last_id d (SetGid g # ss) = last_id g ss"
| "last_id d (SetOnExit cb # ss) = last_id d ss"

fun set_flags :: "spawnlib \<Rightarrow> 32 word \<Rightarrow> setter list \<Rightarrow> 32 word" where
  "set_flags L w [] = w"
| "set_flags L w (SetUid u # ss) = set_flags L (w OR UV_PROCESS_SETUID L) ss"
| "set_flags L w (SetGid g # ss) = set_flags L (w OR UV_PROCESS_SETGID L) ss"
| "set_flags L w (SetOnExit cb # ss) = set_flags L w ss"

lemmas setter_defs = setUid_def setGid_def onExit_def upd_options_def getProcessOptionsPtr_def

lemma setters_options:
  "getProcessOptionsPtr (fold (run_setter L) ss p) = (getProcessOptionsPtr p)
     \<lparr>o_uid := last_id (o_uid (getProcessOptionsPtr p)) ss,
      o_flags := set_flags L (o_flags (getProcessOptionsPtr p)) ss\<rparr>"
proof (induction ss arbitrary: p)
  case (Cons x ss)
  then show ?case by (cases x) (simp_all add: setter_defs)
qed simp

lemma setters_keep:
  "p_data (fold (run_setter L) ss p) = p_data p \<and> p_spawns (fold (run_setter L) ss p) = p_spawns p"
proof (induction ss arbitrary: p)
  case (Cons x ss)
  then show ?case by (cases x) (simp_all add: setter_defs)
qed simp

lemma spawn_fresh:
  "\<not> p_data p \<Longrightarrow> spawn L p = (Inr (uv_spawn L ((getProcessOptionsPtr p)\<lparr>o_exit_cb := True\<rparr>)),
     p\<lparr>p_data := True, p_options := None,
       p_spawns := p_spawns p @ [(getProcessOptionsPtr p)\<lparr>o_exit_cb := True\<rparr>]\<rparr>)"
  by (simp add: spawn_def monad_defs upd_options_def getProcessOptionsPtr_def Let_def)

lemma spawn_again: "p_data p \<Longrightarrow> spawn L p = (Inl (AssertExn ''Process already spawned with pid ''), p)"
  by (simp add: spawn_def monad_defs)

text \<open>\<open>init\<close> gives the handle nothing of libuv: it can be neither closed nor asked for its state.\<close>

lemma process_cannot_close:
  assumes "Process_Create mem y = (Inr p, z)"
  shows "isClosing (p_handle p) z = (Inl (AssertExn ''_uvHandlePtr != nullptr''), z) \<and>
    Handle_close (p_handle p) z = (Inl (AssertExn ''_uvHandlePtr != nullptr''), z)"
proof -
  have "p_handle p < length (y_objs z)" "\<not> h_ptr (y_objs z ! p_handle p)" "isOnEventLoopThread (y_st z)"
    using assms
    by (auto simp: Process_Create_def Process_init_def Process_new_def Handle_new_def check_loop_thread_def
        on_fut_def new_future_def monad_defs isOnEventLoopThread_def add_future_def split: if_splits)
  then show ?thesis
    by (simp add: isClosing_def get_handle_def Handle_close_def check_loop_thread_def on_fut_def monad_defs)
qed

section \<open>Properties\<close>

text \<open>Whatever a program sets, the process is started with the id that was set last as its user,
  also when it was given to \<open>setGid\<close>, with group 0 and without the name of a program: there is no
  operation that sets one. \<open>spawn\<close> passes on the code of libuv; it can not be tried again, even when
  it failed.
\<close>

lemma spawned_with_last_id:
  assumes "p = fold (run_setter L) ss (Process_new False h)" and "spawn L p = (r, q)"
  shows "p_spawns q = [\<lparr>o_exit_cb = True, o_file = None, o_flags = set_flags L 0 ss,
           o_uid = last_id 0 ss, o_gid = 0\<rparr>] \<and>
    r = Inr (uv_spawn L (last (p_spawns q))) \<and>
    spawn L (fold (run_setter L) ts q) =
      (Inl (AssertExn ''Process already spawned with pid ''), fold (run_setter L) ts q)"
proof -
  have g: "getProcessOptionsPtr p = \<lparr>o_exit_cb = False, o_file = None, o_flags = set_flags L 0 ss,
      o_uid = last_id 0 ss, o_gid = 0\<rparr>"
    using setters_options [of L ss "Process_new False h"] assms(1)
    by (simp add: Process_new_def getProcessOptionsPtr_def zero_options_def)
  have p: "\<not> p_data p" "p_spawns p = []"
    using setters_keep [of L ss "Process_new False h"] assms(1) by (simp_all add: Process_new_def)
  from spawn_fresh [OF p(1), of L] assms(2) have q: "p_data q"
    "r = Inr (uv_spawn L ((getProcessOptionsPtr p)\<lparr>o_exit_cb := True\<rparr>))"
    "p_spawns q = [(getProcessOptionsPtr p)\<lparr>o_exit_cb := True\<rparr>]" using p(2) by auto
  have "p_data (fold (run_setter L) ts q)" using setters_keep [of L ts q] q(1) by simp
  from spawn_again [OF this, of L] q g show ?thesis by simp
qed

definition demo_spawnlib :: spawnlib where
  "demo_spawnlib = \<lparr>UV_PROCESS_SETUID = 1, UV_PROCESS_SETGID = 2, uv_spawn = \<lambda>_. -2,
     uv_process_kill = \<lambda>_. 0, uv_kill = \<lambda>_ _. 0\<rparr>"

lemma spawned_with_last_id_example:
  "\<exists>q. spawn demo_spawnlib (fold (run_setter demo_spawnlib) [SetUid 1000, SetGid 50] (Process_new False 0)) =
       (Inr (-2), q) \<and>
     p_spawns q = [\<lparr>o_exit_cb = True, o_file = None, o_flags = 3, o_uid = 50, o_gid = 0\<rparr>] \<and>
     spawn demo_spawnlib q = (Inl (AssertExn ''Process already spawned with pid ''), q)"
  using spawned_with_last_id [OF refl prod.collapse [symmetric],
      of demo_spawnlib "[SetUid 1000, SetGid 50]" 0 "[]"]
  by (simp add: demo_spawnlib_def prod_eq_iff)

end
