(* ===== verification/Events.thy ===== *)
theory Events
  imports Prelude
begin

text \<open>
  \<open>dev::EventEmitter\<close> (\<open>include/native/events.hpp\<close>) and the tuples of types it is made from
  (\<open>include/native/utility.hpp\<close>). A type is a value of \<open>'t\<close>, a tuple of types a list; what does
  not compile is \<open>None\<close>. A listener is known by its address and holds the name of a callback.
\<close>

section \<open>Tuples of types\<close>

fun tuple_merge :: "'t list list \<Rightarrow> 't list option" where
  "tuple_merge [] = Some []"
| "tuple_merge [a] = Some a"
| "tuple_merge [a, b] = Some (a @ b)"
| "tuple_merge ms = None"

fun tuple_even_elements :: "'t list \<Rightarrow> 't list option" where
  "tuple_even_elements [] = Some []"
| "tuple_even_elements [a] = None"
| "tuple_even_elements (a # b # ts) = map_option ((#) a) (tuple_even_elements ts)"

fun tuple_odd_elements :: "'t list \<Rightarrow> 't list option" where
  "tuple_odd_elements [] = Some []"
| "tuple_odd_elements [a] = None"
| "tuple_odd_elements (a # b # ts) = map_option ((#) b) (tuple_odd_elements ts)"

fun tuple_index_r :: "'t list \<Rightarrow> 't \<Rightarrow> nat \<Rightarrow> nat option" where
  "tuple_index_r [] c i = None"
| "tuple_index_r (h # r) c i = (if c = h then Some i else tuple_index_r r c (i + 1))"

definition tuple_index_of :: "'t list \<Rightarrow> 't \<Rightarrow> nat option" where
  "tuple_index_of ts c = tuple_index_r ts c 0"

definition em_events :: "'t list list \<Rightarrow> 't list option" where
  "em_events ms = Option.bind (tuple_merge ms) tuple_even_elements"

definition em_callbacks :: "'t list list \<Rightarrow> 't list option" where
  "em_callbacks ms = Option.bind (tuple_merge ms) tuple_odd_elements"

definition event_idx :: "'t list list \<Rightarrow> 't \<Rightarrow> nat option" where
  "event_idx ms e = Option.bind (em_events ms) (\<lambda>es. tuple_index_of es e)"

definition callback_type :: "'t list list \<Rightarrow> 't \<Rightarrow> 't option" where
  "callback_type ms e = Option.bind (event_idx ms e)
     (\<lambda>i. map_option (\<lambda>cs. cs ! i) (em_callbacks ms))"

section \<open>The emitter\<close>

text \<open>What a callback may do: call the emitter, or throw. \<open>A\<close> is the type of the arguments.\<close>

datatype ('t, 'a) emop =
    AddListener 't nat
  | RemoveListener 't nat
  | RemoveAllListeners 't
  | Emit 't 'a
  | Throw

type_synonym ('t, 'a) scripts = "nat \<Rightarrow> 'a \<Rightarrow> ('t, 'a) emop list"

text \<open>\<open>em_set\<close> is \<open>set_\<close>, one list of listeners for each event; \<open>em_next\<close> is the next address
of the heap; \<open>em_calls\<close> records the calls of listeners.\<close>

record ('t, 'a) emitter =
  em_maps :: "'t list list"
  em_set :: "(nat \<times> nat) list list"
  em_next :: nat
  em_calls :: "(nat \<times> 'a) list"

definition emitter_new :: "'t list list \<Rightarrow> ('t, 'a) emitter" where
  "emitter_new ms = \<lparr>em_maps = ms,
     em_set = map (\<lambda>_. []) (the (em_callbacks ms)), em_next = 0, em_calls = []\<rparr>"

definition entry :: "nat \<Rightarrow> ('t, 'a) emitter \<Rightarrow> (nat \<times> nat) list" where
  "entry i s = em_set s ! i"

definition idx :: "'t \<Rightarrow> ('t, 'a) emitter \<Rightarrow> nat" where
  "idx e s = the (event_idx (em_maps s) e)"

definition addListener :: "'t \<Rightarrow> nat \<Rightarrow> ('t, 'a) emitter \<Rightarrow> nat \<times> ('t, 'a) emitter" where
  "addListener e c s = (em_next s,
     s\<lparr>em_set := (em_set s)[idx e s := entry (idx e s) s @ [(em_next s, c)]], em_next := em_next s + 1\<rparr>)"

fun erase_first :: "nat \<Rightarrow> (nat \<times> nat) list \<Rightarrow> (nat \<times> nat) list option" where
  "erase_first p [] = None"
| "erase_first p (l # ls) = (if fst l = p then Some ls else map_option ((#) l) (erase_first p ls))"

definition removeListener :: "'t \<Rightarrow> nat \<Rightarrow> ('t, 'a) emitter \<Rightarrow> bool \<times> ('t, 'a) emitter" where
  "removeListener e p s = (case erase_first p (entry (idx e s) s) of
       None \<Rightarrow> (False, s)
     | Some ls \<Rightarrow> (True, s\<lparr>em_set := (em_set s)[idx e s := ls]\<rparr>))"

definition removeAllListeners :: "'t \<Rightarrow> ('t, 'a) emitter \<Rightarrow> ('t, 'a) emitter" where
  "removeAllListeners e s = s\<lparr>em_set := (em_set s)[idx e s := []]\<rparr>"

text \<open>A run returns, reads an element that was erased, or uses up the fuel.\<close>

datatype 's run = Ret 's | Undefined | Spent

fun after :: "nat \<Rightarrow> (nat \<times> nat) list \<Rightarrow> nat option" where
  "after p [] = None"
| "after p (l # ls) = (if fst l = p then (case ls of [] \<Rightarrow> None | m # _ \<Rightarrow> Some (fst m)) else after p ls)"

text \<open>
  \<open>emit\<close> walks over the list itself, so what a callback does to the list is seen by the walk;
  it catches all exceptions. \<open>run_ops\<close> runs a callback, which an exception ends.
\<close>

function (sequential) emit :: "('t, 'a) scripts \<Rightarrow> nat \<Rightarrow> 't \<Rightarrow> 'a \<Rightarrow> ('t, 'a) emitter \<Rightarrow> ('t, 'a) emitter run"
  and emit_at :: "('t, 'a) scripts \<Rightarrow> nat \<Rightarrow> nat \<Rightarrow> nat \<Rightarrow> 'a \<Rightarrow> ('t, 'a) emitter \<Rightarrow> ('t, 'a) emitter run"
  and run_ops :: "('t, 'a) scripts \<Rightarrow> nat \<Rightarrow> ('t, 'a) emop list \<Rightarrow> ('t, 'a) emitter \<Rightarrow> ('t, 'a) emitter run"
where
  "emit P 0 e a s = Spent"
| "emit P (Suc n) e a s =
     (case entry (idx e s) s of [] \<Rightarrow> Ret s | l # _ \<Rightarrow> emit_at P n (idx e s) (fst l) a s)"
| "emit_at P 0 i p a s = Spent"
| "emit_at P (Suc n) i p a s =
     (case run_ops P n (P (the (map_of (entry i s) p)) a) (s\<lparr>em_calls := em_calls s @ [(p, a)]\<rparr>) of
        Ret t \<Rightarrow> (if p \<notin> fst ` set (entry i t) then Undefined
                  else case after p (entry i t) of None \<Rightarrow> Ret t | Some q \<Rightarrow> emit_at P n i q a t)
      | Undefined \<Rightarrow> Undefined
      | Spent \<Rightarrow> Spent)"
| "run_ops P n [] s = Ret s"
| "run_ops P n (AddListener e c # ops) s = run_ops P n ops (snd (addListener e c s))"
| "run_ops P n (RemoveListener e p # ops) s = run_ops P n ops (snd (removeListener e p s))"
| "run_ops P n (RemoveAllListeners e # ops) s = run_ops P n ops (removeAllListeners e s)"
| "run_ops P n (Throw # ops) s = Ret s"
| "run_ops P 0 (Emit e a # ops) s = Spent"
| "run_ops P (Suc n) (Emit e a # ops) s =
     (case emit P n e a s of
        Ret t \<Rightarrow> run_ops P (Suc n) ops t | Undefined \<Rightarrow> Undefined | Spent \<Rightarrow> Spent)"
  by pat_completeness auto

termination
  by (relation "measures [\<lambda>x. case x of Inl (_, n, _) \<Rightarrow> n | Inr (Inl (_, n, _)) \<Rightarrow> n | Inr (Inr (_, n, _)) \<Rightarrow> n,
                          \<lambda>x. case x of Inr (Inr (_, _, ops, _)) \<Rightarrow> length ops | _ \<Rightarrow> 0]") auto

section \<open>The type of a callback\<close>

lemma even_nth:
  "tuple_even_elements ts = Some es \<Longrightarrow> i < length es \<Longrightarrow> es ! i = ts ! (2 * i) \<and> 2 * i + 1 < length ts"
proof (induction ts arbitrary: es i rule: tuple_even_elements.induct)
  case (3 a b ts)
  then show ?case by (cases i) auto
qed auto

lemma odd_nth:
  "tuple_even_elements ts = Some es \<Longrightarrow>
     \<exists>cs. tuple_odd_elements ts = Some cs \<and> length cs = length es \<and> (\<forall>i < length es. cs ! i = ts ! (2 * i + 1))"
proof (induction ts arbitrary: es rule: tuple_even_elements.induct)
  case (3 a b ts)
  then obtain es' cs where e: "es = a # es'"
    and c: "tuple_odd_elements ts = Some cs" "length cs = length es'"
      "\<forall>i < length es'. cs ! i = ts ! (2 * i + 1)" by auto
  have "(b # cs) ! i = (a # b # ts) ! (2 * i + 1)" if "i < length es" for i
    using that c(3) e by (cases i) auto
  with c e show ?case by simp
qed auto

lemma index_r_Some:
  "tuple_index_r ts c k = Some i \<Longrightarrow>
     k \<le> i \<and> i - k < length ts \<and> ts ! (i - k) = c \<and> (\<forall>j < i - k. ts ! j \<noteq> c)"
proof (induction ts arbitrary: k)
  case (Cons h ts)
  show ?case
  proof (cases "c = h")
    case False
    with Cons.prems have e: "tuple_index_r ts c (k + 1) = Some i" by simp
    from Cons.IH [OF e] have n: "k + 1 \<le> i" "i - k - 1 < length ts" "ts ! (i - k - 1) = c"
      "\<And>j. j < i - k - 1 \<Longrightarrow> ts ! j \<noteq> c" by auto
    have "(h # ts) ! j \<noteq> c" if "j < i - k" for j
      using that n(1,4) False by (cases j) auto
    with n show ?thesis by auto
  qed (use Cons.prems in auto)
qed simp

lemma event_callback_pair:
  assumes "event_idx ms e = Some i"
  shows "\<exists>ts cs. tuple_merge ms = Some ts \<and> ts ! (2 * i) = e \<and> callback_type ms e = Some (ts ! (2 * i + 1)) \<and>
     (\<forall>j < i. ts ! (2 * j) \<noteq> e) \<and> em_callbacks ms = Some cs \<and> i < length cs"
proof -
  obtain ts es where ts: "tuple_merge ms = Some ts" and es: "tuple_even_elements ts = Some es"
    and ix: "tuple_index_of es e = Some i"
    using assms by (auto simp: event_idx_def em_events_def bind_eq_Some_conv)
  from index_r_Some [OF ix [unfolded tuple_index_of_def]]
  have i: "i < length es" "es ! i = e" "\<And>j. j < i \<Longrightarrow> es ! j \<noteq> e" by auto
  obtain cs where cs: "tuple_odd_elements ts = Some cs" "length cs = length es"
    "\<forall>i < length es. cs ! i = ts ! (2 * i + 1)" using odd_nth [OF es] by blast
  have "ts ! (2 * j) \<noteq> e" if "j < i" for j using even_nth [OF es, of j] i(1,3) that by fastforce
  then show ?thesis using even_nth [OF es i(1)] i(1,2) ts cs assms by (auto simp: callback_type_def em_callbacks_def)
qed

section \<open>Listeners\<close>

text \<open>Every event has its list, and an address is used once.\<close>

definition em_ok :: "('t, 'a) emitter \<Rightarrow> bool" where
  "em_ok s \<longleftrightarrow>
     (\<forall>cs. em_callbacks (em_maps s) = Some cs \<longrightarrow> length (em_set s) = length cs) \<and>
     (\<forall>l \<in> set (concat (em_set s)). fst l < em_next s) \<and> (\<forall>ls \<in> set (em_set s). distinct (map fst ls))"

lemma erase_first_Some:
  "erase_first p ls = Some ms \<Longrightarrow> set ms \<subseteq> set ls \<and> (distinct (map fst ls) \<longrightarrow> distinct (map fst ms))"
  by (induction ls arbitrary: ms) (auto split: if_splits, force)

lemma em_ok_idx: "em_ok s \<Longrightarrow> event_idx (em_maps s) e = Some i \<Longrightarrow> idx e s = i \<and> i < length (em_set s)"
  using event_callback_pair [of "em_maps s" e i] by (auto simp: em_ok_def idx_def)

lemma em_ok_new: "em_ok (emitter_new ms)"
  by (auto simp: em_ok_def emitter_new_def)

lemma em_ok_change:
  assumes o: "em_ok s" and n: "em_next s \<le> n" and d: "distinct (map fst ls)" "\<And>l. l \<in> set ls \<Longrightarrow> fst l < n"
  shows "em_ok (s\<lparr>em_set := (em_set s)[i := ls], em_next := n\<rparr>)"
proof -
  have sub: "ks \<in> set ((em_set s)[i := ls]) \<Longrightarrow> ks \<in> set (em_set s) \<or> ks = ls" for ks
    using set_update_subset_insert [of "em_set s" i ls] by blast
  show ?thesis using o n d sub by (fastforce simp: em_ok_def)
qed

lemma entry_ok:
  assumes "em_ok s" "i < length (em_set s)"
  shows "distinct (map fst (entry i s))" "l \<in> set (entry i s) \<Longrightarrow> fst l < em_next s"
  using assms nth_mem [OF assms(2)] by (auto simp: em_ok_def entry_def)

lemma em_ok_beyond: "em_ok (s\<lparr>em_set := (em_set s)[i := ls], em_next := n\<rparr>) = em_ok (s\<lparr>em_next := n\<rparr>)"
  if "\<not> i < length (em_set s)"
  using that by (simp add: list_update_beyond)

lemma em_ok_mono: "em_ok s \<Longrightarrow> em_next s \<le> n \<Longrightarrow> em_ok (s\<lparr>em_next := n\<rparr>)"
  by (fastforce simp: em_ok_def)

lemma addListener_ok: "em_ok s \<Longrightarrow> em_ok (snd (addListener e c s))"
proof (cases "idx e s < length (em_set s)")
  case True
  moreover assume o: "em_ok s"
  ultimately have "distinct (map fst (entry (idx e s) s @ [(em_next s, c)]))"
    "\<And>l. l \<in> set (entry (idx e s) s @ [(em_next s, c)]) \<Longrightarrow> fst l < em_next s + 1"
    using entry_ok [OF o] by (force, fastforce)
  from em_ok_change [OF o _ this] show ?thesis by (simp add: addListener_def)
qed (simp add: addListener_def em_ok_beyond em_ok_mono)

lemma removeListener_ok: "em_ok s \<Longrightarrow> em_ok (snd (removeListener e p s))"
proof (cases "erase_first p (entry (idx e s) s)")
  case (Some ls)
  assume o: "em_ok s"
  show ?thesis
  proof (cases "idx e s < length (em_set s)")
    case True
    from em_ok_change [OF o order_refl, of ls] erase_first_Some [OF Some] entry_ok [OF o True]
    show ?thesis using Some by (auto simp: removeListener_def)
  qed (use Some o in \<open>simp add: removeListener_def list_update_beyond\<close>)
qed (simp add: removeListener_def)

lemma removeAllListeners_ok: "em_ok s \<Longrightarrow> em_ok (removeAllListeners e s)"
  using em_ok_change [of s "em_next s" "[]"] by (simp add: removeAllListeners_def)

lemma erase_first_last: "p \<notin> fst ` set ls \<Longrightarrow> erase_first p (ls @ [(p, c)]) = Some ls"
  by (induction ls) auto

lemma remove_undoes_addListener:
  assumes o: "em_ok s" and e: "event_idx (em_maps s) e = Some i"
  shows "removeListener e (fst (addListener e c s)) (snd (addListener e c s)) =
     (True, s\<lparr>em_next := em_next s + 1\<rparr>)"
proof -
  note i = em_ok_idx [OF o e]
  have "em_next s \<notin> fst ` set (entry i s)" using entry_ok(2) [OF o, of i] i by fastforce
  with i show ?thesis
    by (simp add: removeListener_def addListener_def idx_def entry_def erase_first_last)
qed

section \<open>Emitting\<close>

text \<open>The call neither touches the list of slot \<open>i\<close> nor emits.\<close>

definition leaves :: "'t list list \<Rightarrow> nat \<Rightarrow> ('t, 'a) emop \<Rightarrow> bool" where
  "leaves ms i op = (case op of
       AddListener e c \<Rightarrow> the (event_idx ms e) \<noteq> i
     | RemoveListener e p \<Rightarrow> the (event_idx ms e) \<noteq> i
     | RemoveAllListeners e \<Rightarrow> the (event_idx ms e) \<noteq> i
     | Emit e a \<Rightarrow> False
     | Throw \<Rightarrow> True)"

definition unchanged :: "nat \<Rightarrow> (nat \<times> 'a) list \<Rightarrow> ('t, 'a) emitter \<Rightarrow> ('t, 'a) emitter \<Rightarrow> bool" where
  "unchanged i cs s t \<longleftrightarrow> entry i t = entry i s \<and> em_maps t = em_maps s \<and>
     length (em_set t) = length (em_set s) \<and> em_calls t = em_calls s @ cs"

lemma run_ops_leaves:
  "\<forall>op \<in> set ops. leaves (em_maps s) i op \<Longrightarrow> \<exists>t. run_ops P n ops s = Ret t \<and> unchanged i [] s t"
proof (induction ops arbitrary: s)
  case Nil
  show ?case by (simp add: unchanged_def)
next
  case (Cons op ops)
  have step: "\<exists>t. run_ops P n ops u = Ret t \<and> unchanged i [] s t" if "unchanged i [] s u" for u
    using Cons.IH [of u] Cons.prems that by (auto simp: unchanged_def)
  show ?case
  proof (cases op)
    case (AddListener e c)
    with Cons.prems have "unchanged i [] s (snd (addListener e c s))"
      by (simp add: leaves_def unchanged_def addListener_def idx_def entry_def)
    with step AddListener show ?thesis by simp
  next
    case (RemoveListener e p)
    with Cons.prems have "unchanged i [] s (snd (removeListener e p s))"
      by (simp add: leaves_def unchanged_def removeListener_def idx_def entry_def split: option.split)
    with step RemoveListener show ?thesis by simp
  next
    case (RemoveAllListeners e)
    with Cons.prems have "unchanged i [] s (removeAllListeners e s)"
      by (simp add: leaves_def unchanged_def removeAllListeners_def idx_def entry_def)
    with step RemoveAllListeners show ?thesis by simp
  qed (use Cons.prems in \<open>auto simp: leaves_def unchanged_def\<close>)
qed

lemma after_next: "distinct (map fst (xs @ l # ys)) \<Longrightarrow>
    after (fst l) (xs @ l # ys) = (case ys of [] \<Rightarrow> None | m # _ \<Rightarrow> Some (fst m))"
  by (induction xs) auto

lemma map_of_at: "distinct (map fst (xs @ l # ys)) \<Longrightarrow> map_of (xs @ l # ys) (fst l) = Some (snd l)"
  by (induction xs) auto

lemma emit_at_step:
  assumes d: "distinct (map fst (entry i s))" and e: "entry i s = xs @ l # ys"
    and q: "\<forall>op \<in> set (P (snd l) a). leaves (em_maps s) i op"
  shows "\<exists>t. unchanged i [(fst l, a)] s t \<and> emit_at P (Suc n) i (fst l) a s =
     (case ys of [] \<Rightarrow> Ret t | m # _ \<Rightarrow> emit_at P n i (fst m) a t)"
proof -
  let ?u = "s\<lparr>em_calls := em_calls s @ [(fst l, a)]\<rparr>"
  have "\<forall>op \<in> set (P (snd l) a). leaves (em_maps ?u) i op" using q by simp
  from run_ops_leaves [OF this, of P n] obtain t
    where t: "run_ops P n (P (snd l) a) ?u = Ret t" "unchanged i [] ?u t" by blast
  have "unchanged i [(fst l, a)] s t" using t(2) by (simp add: unchanged_def entry_def)
  moreover have "entry i t = xs @ l # ys" using calculation e by (simp add: unchanged_def)
  ultimately show ?thesis
    using t(1) d e map_of_at [of xs l ys] after_next [of xs l ys] by (auto split: list.split)
qed

lemma unchanged_trans: "unchanged i cs s t \<Longrightarrow> unchanged i ds t u \<Longrightarrow> unchanged i (cs @ ds) s u"
  by (simp add: unchanged_def)

text \<open>The walk over listeners that leave their list alone, up to a listener \<open>r\<close> or to the end.\<close>

lemma emit_at_walk:
  assumes "distinct (map fst (entry i s))" "entry i s = xs @ l # ys @ zs"
    "\<forall>k \<in> set (l # ys). \<forall>op \<in> set (P (snd k) a). leaves (em_maps s) i op" "length ys < n"
  shows "\<exists>t m. unchanged i (map (\<lambda>k. (fst k, a)) (l # ys)) s t \<and> n = Suc (length ys) + m \<and>
     emit_at P n i (fst l) a s = (case zs of [] \<Rightarrow> Ret t | r # _ \<Rightarrow> emit_at P m i (fst r) a t)"
  using assms
proof (induction ys arbitrary: xs l s n)
  case Nil
  then obtain m where m: "n = Suc m" by (cases n) auto
  from emit_at_step [OF Nil.prems(1), of xs l zs P a m] Nil.prems(2,3) m show ?case by auto
next
  case (Cons k ys)
  then obtain n' where n: "n = Suc n'" "length ys < n'" by (cases n) auto
  have "\<exists>t. unchanged i [(fst l, a)] s t \<and> emit_at P (Suc n') i (fst l) a s = emit_at P n' i (fst k) a t"
    using emit_at_step [OF Cons.prems(1), of xs l "k # ys @ zs" P a n'] Cons.prems(2,3) by auto
  then obtain t where t: "unchanged i [(fst l, a)] s t" "emit_at P n i (fst l) a s = emit_at P n' i (fst k) a t"
    using n(1) by auto
  have "entry i t = (xs @ [l]) @ k # ys @ zs" "entry i t = entry i s" "em_maps t = em_maps s"
    using t(1) Cons.prems(2) by (auto simp: unchanged_def)
  then obtain u m where u: "unchanged i (map (\<lambda>k. (fst k, a)) (k # ys)) t u" "n' = Suc (length ys) + m"
    "emit_at P n' i (fst k) a t = (case zs of [] \<Rightarrow> Ret u | r # _ \<Rightarrow> emit_at P m i (fst r) a u)"
    using Cons.IH [of t "xs @ [l]" k n'] Cons.prems(1,3) n(2) by auto
  from unchanged_trans [OF t(1) u(1)] t(2) u(2,3) n(1) show ?case by auto
qed

lemma emit_walk:
  assumes o: "em_ok s" and i: "event_idx (em_maps s) e = Some i" and e: "entry i s = ys @ zs"
    and q: "\<forall>k \<in> set ys. \<forall>op \<in> set (P (snd k) a). leaves (em_maps s) i op" and n: "length ys + 1 < n"
  shows "\<exists>t m. unchanged i (map (\<lambda>k. (fst k, a)) ys) s t \<and> n = Suc (length ys) + m \<and>
     emit P n e a s = (case zs of [] \<Rightarrow> Ret t | r # _ \<Rightarrow> emit_at P m i (fst r) a t)"
proof -
  note ix = em_ok_idx [OF o i]
  obtain n' where n': "n = Suc n'" using n by (cases n) auto
  show ?thesis
  proof (cases ys)
    case Nil
    with e ix n' show ?thesis by (intro exI [of _ s] exI [of _ n']) (auto simp: unchanged_def split: list.split)
  next
    case (Cons l ls)
    from emit_at_walk [OF entry_ok(1) [OF o, of i], of "[]" l ls zs P a n'] ix e q n n' Cons
    show ?thesis by auto
  qed
qed

section \<open>Properties\<close>

text \<open>A listener of an event has the type that is paired with the event in the list of events and
  types the emitter was declared with, the first pair when an event was declared twice.
\<close>

lemma callback_type_is_paired:
  assumes "event_idx ms e = Some i" and "tuple_merge ms = Some ts"
  shows "ts ! (2 * i) = e \<and> callback_type ms e = Some (ts ! (2 * i + 1)) \<and> (\<forall>j < i. ts ! (2 * j) \<noteq> e)"
  using event_callback_pair [OF assms(1)] assms(2) by auto

lemma callback_type_is_paired_example:
  "callback_type [[1, 10, 2, 20], [1, 30 :: nat]] 1 = Some 10 \<and>
   callback_type [[1, 10, 2, 20], [1, 30 :: nat]] 2 = Some 20"
  by (simp add: callback_type_def event_idx_def tuple_index_of_def em_events_def em_callbacks_def)


text \<open>A listener that removes itself while it is called (as a listener meant to run once does) is
  erased under the walk of \<open>emit\<close>, which goes on from the erased element: undefined behaviour,
  after the listeners before it have been called.
\<close>

lemma self_removal_is_undefined:
  assumes "em_ok s" "event_idx (em_maps s) e = Some i" "entry i s = ys @ (p, c) # zs"
    and "\<forall>l \<in> set ys. \<forall>op \<in> set (P (snd l) a). leaves (em_maps s) i op"
    and "P c a = [RemoveListener e p]" and "length ys + 1 < n"
  shows "emit P n e a s = Undefined"
proof -
  obtain t m where t: "unchanged i (map (\<lambda>k. (fst k, a)) ys) s t" "n = Suc (length ys) + m"
    "emit P n e a s = emit_at P m i p a t"
    using emit_walk [of s e i ys "(p, c) # zs" P a n, OF assms(1-4,6)] by auto
  obtain m' where m: "m = Suc m'" using assms(6) t(2) by (cases m) auto
  note ix = em_ok_idx [OF assms(1,2)]
  have d: "distinct (map fst (ys @ (p, c) # zs))" using entry_ok(1) [OF assms(1), of i] ix assms(3) by simp
  have e: "entry i t = ys @ (p, c) # zs" "idx e t = i" "i < length (em_set t)"
    using t(1) assms(3) ix by (auto simp: unchanged_def idx_def)
  let ?u = "t\<lparr>em_calls := em_calls t @ [(p, a)]\<rparr>"
  have "p \<notin> fst ` set (ys @ zs)" using d by auto
  moreover have "erase_first p (ys @ (p, c) # zs) = Some (ys @ zs)"
    using d by (induction ys) auto
  ultimately have "p \<notin> fst ` set (entry i (snd (removeListener e p ?u)))"
    using e by (auto simp: removeListener_def entry_def idx_def)
  then show ?thesis using t(3) m map_of_at [of ys "(p, c)" zs] d e(1) assms(5) by simp
qed

text \<open>Listeners of one event: callback 3 throws, callback 2 removes the listener at address 2, its own.\<close>

definition demo_maps :: "nat list list" where
  "demo_maps = [[1, 10], [2, 20]]"

definition demo_scripts :: "(nat, nat) scripts" where
  "demo_scripts c a = (if c = 3 then [Throw] else if c = 2 then [RemoveListener 1 2] else [])"

definition demo_emitter :: "nat list \<Rightarrow> (nat, nat) emitter" where
  "demo_emitter cs = fold (\<lambda>c s. snd (addListener 1 c s)) cs (emitter_new demo_maps)"

lemma demo_idx: "event_idx demo_maps 1 = Some 0"
  by (simp add: demo_maps_def event_idx_def em_events_def tuple_index_of_def)

lemma demo_emitter_ok: "em_ok (demo_emitter cs)" "em_maps (demo_emitter cs) = demo_maps"
proof -
  have "em_ok (fold (\<lambda>c s. snd (addListener 1 c s)) cs s) \<and>
      em_maps (fold (\<lambda>c s. snd (addListener 1 c s)) cs s) = em_maps s" if "em_ok s"
    for s :: "(nat, nat) emitter"
    using that by (induction cs arbitrary: s) (simp_all add: addListener_ok, simp add: addListener_def)
  from this [OF em_ok_new] show "em_ok (demo_emitter cs)" "em_maps (demo_emitter cs) = demo_maps"
    by (simp_all add: demo_emitter_def emitter_new_def)
qed

lemma demo_entry:
  "entry 0 (demo_emitter [0, 3, 0]) = [(0, 0), (1, 3), (2, 0)]"
  "entry 0 (demo_emitter [0, 0, 2]) = [(0, 0), (1, 0)] @ (2, 2) # []"
  by (simp_all add: demo_emitter_def addListener_def idx_def emitter_new_def demo_idx entry_def
      demo_maps_def event_idx_def tuple_index_of_def em_events_def em_callbacks_def)

lemma demo_calls: "em_calls (demo_emitter cs) = []"
proof -
  have "em_calls (fold (\<lambda>c s. snd (addListener 1 c s)) cs s) = em_calls s" for s :: "(nat, nat) emitter"
    by (induction cs arbitrary: s) (simp_all add: addListener_def)
  then show ?thesis by (simp add: demo_emitter_def emitter_new_def)
qed


lemma self_removal_is_undefined_example:
  "emit demo_scripts 4 1 7 (demo_emitter [0, 0, 2]) = Undefined"
  by (rule self_removal_is_undefined [where p = 2 and c = 2, OF demo_emitter_ok(1) _ demo_entry(2)])
    (simp_all add: demo_emitter_ok demo_idx [simplified] demo_scripts_def)

end
