(* ===== verification/Router.thy ===== *)
theory Router
  imports UriTemplate "HOL-Library.Multiset"
begin

text \<open>
  Routing of requests: \<open>ServerPlugin\<close> and its callback data (\<open>src/http/ServerPlugin.cpp\<close>,
  \<open>include/native/http/ServerPlugin.hpp\<close>). Plugins refer to each other through shared
  pointers; they live in a heap indexed by addresses, as do the callback data, whose
  identity \<open>removePlugin\<close> and \<open>removeMethod\<close> compare. The regular expression a callback caches
  at its first match is a function of its template, so the cache is not part of the state.
\<close>

section \<open>Plugins and callbacks\<close>

datatype cb_target = ToPlugin nat | ToFunction nat

record callback_data =
  cb_id :: nat
  uri :: uri_template
  uriRegexMatchWholePath :: bool
  target :: cb_target

record plugin =
  plugins :: "callback_data list"
  methodCallbackMap :: "(string, callback_data list) omap"

definition new_plugin :: plugin where
  "new_plugin = \<lparr>plugins = [], methodCallbackMap = []\<rparr>"

record routers =
  next_cb :: nat
  plugin_at :: "nat \<Rightarrow> plugin"

definition upd_plugin :: "nat \<Rightarrow> (plugin \<Rightarrow> plugin) \<Rightarrow> routers \<Rightarrow> routers" where
  "upd_plugin p f R = R\<lparr>plugin_at := (plugin_at R)(p := f (plugin_at R p))\<rparr>"

definition addPlugin :: "formats \<Rightarrow> nat \<Rightarrow> string \<Rightarrow> nat \<Rightarrow> (routers, callback_data) M" where
  "addPlugin F self iUri iPlugin R =
     (case parse F iUri of
        Inl e \<Rightarrow> (Inl e, R)
      | Inr t \<Rightarrow>
          (let d = \<lparr>cb_id = next_cb R, uri = t, uriRegexMatchWholePath = False,
                    target = ToPlugin iPlugin\<rparr>
           in (Inr d, (upd_plugin self (\<lambda>p. p\<lparr>plugins := plugins p @ [d]\<rparr>) R)
                        \<lparr>next_cb := Suc (next_cb R)\<rparr>)))"

text \<open>The two overloads of \<open>removePlugin\<close>: by the data that \<open>addPlugin\<close> returned, by the plugin.\<close>

definition removePlugin_if :: "nat \<Rightarrow> (callback_data \<Rightarrow> bool) \<Rightarrow> routers \<Rightarrow> bool \<times> routers" where
  "removePlugin_if self eq R =
     (\<exists>d \<in> set (plugins (plugin_at R self)). eq d,
      upd_plugin self (\<lambda>p. p\<lparr>plugins := filter (\<lambda>d. \<not> eq d) (plugins p)\<rparr>) R)"

definition removePlugin_data :: "nat \<Rightarrow> callback_data \<Rightarrow> routers \<Rightarrow> bool \<times> routers" where
  "removePlugin_data self iPlugin = removePlugin_if self (\<lambda>d. cb_id d = cb_id iPlugin)"

definition removePlugin :: "nat \<Rightarrow> nat \<Rightarrow> routers \<Rightarrow> bool \<times> routers" where
  "removePlugin self iPlugin = removePlugin_if self (\<lambda>d. target d = ToPlugin iPlugin)"

definition addMethod ::
  "formats \<Rightarrow> nat \<Rightarrow> string \<Rightarrow> string \<Rightarrow> nat \<Rightarrow> (routers, callback_data) M" where
  "addMethod F self iMethod iUri iCallback R =
     (let path = (if iUri = [] then ''/'' else iUri) in
      case parse F path of
        Inl e \<Rightarrow> (Inl e, R)
      | Inr t \<Rightarrow>
          (let d = \<lparr>cb_id = next_cb R, uri = t, uriRegexMatchWholePath = (iMethod \<noteq> []),
                    target = ToFunction iCallback\<rparr>
           in (Inr d, (upd_plugin self (\<lambda>p. p\<lparr>methodCallbackMap :=
                  omap_set (<) iMethod
                    ((case omap_find (<) iMethod (methodCallbackMap p) of
                        None \<Rightarrow> [] | Some ds \<Rightarrow> ds) @ [d]) (methodCallbackMap p)\<rparr>) R)
                  \<lparr>next_cb := Suc (next_cb R)\<rparr>)))"

definition removeMethod :: "nat \<Rightarrow> callback_data \<Rightarrow> routers \<Rightarrow> bool \<times> routers" where
  "removeMethod self iCallback R =
     (\<exists>(m, ds) \<in> set (methodCallbackMap (plugin_at R self)). \<exists>d \<in> set ds. cb_id d = cb_id iCallback,
      upd_plugin self (\<lambda>p. p\<lparr>methodCallbackMap :=
        map (\<lambda>(m, ds). (m, filter (\<lambda>d. cb_id d \<noteq> cb_id iCallback) ds)) (methodCallbackMap p)\<rparr>) R)"

section \<open>Matching\<close>

text \<open>\<open>matchUri\<close>, with the length of the match. The pattern ends with the end anchor.\<close>

definition matchUri :: "regex_lib \<Rightarrow> callback_data \<Rightarrow> string \<Rightarrow> nat option" where
  "matchUri rx d iUri =
     (case rx (getPattern False True (uri d))
              (if uriRegexMatchWholePath d then ANCHOR_START else ANCHOR_BOTH) iUri of
        None \<Rightarrow> None
      | Some g \<Rightarrow>
          (let n = length (smatch_str g 0)
           in if 0 < n \<and> (n = length iUri \<or> (n < length iUri \<and> iUri ! n = CHR ''/''))
              then Some n else None))"

text \<open>\<open>std::map<size_t, std::list>\<close>: callbacks by the length of their match.\<close>

type_synonym callbacks_map = "(nat, callback_data list) omap"

definition push_callback :: "nat \<Rightarrow> callback_data \<Rightarrow> callbacks_map \<Rightarrow> callbacks_map" where
  "push_callback n d cm =
     omap_set (<) n ((case omap_find (<) n cm of None \<Rightarrow> [] | Some ds \<Rightarrow> ds) @ [d]) cm"

fun collect :: "regex_lib \<Rightarrow> string \<Rightarrow> callback_data list \<Rightarrow> callbacks_map \<Rightarrow> callbacks_map" where
  "collect rx path [] cm = cm"
| "collect rx path (d # ds) cm =
     collect rx path ds
       (case matchUri rx d path of None \<Rightarrow> cm | Some n \<Rightarrow> push_callback n d cm)"

definition getCallbacksByMethod ::
  "regex_lib \<Rightarrow> plugin \<Rightarrow> string \<Rightarrow> string \<Rightarrow> callbacks_map \<Rightarrow> bool \<times> callbacks_map" where
  "getCallbacksByMethod rx p iMethod iUriPath cm =
     (case omap_find (<) iMethod (methodCallbackMap p) of
        None \<Rightarrow> (False, cm)
      | Some ds \<Rightarrow> (\<exists>d \<in> set ds. matchUri rx d iUriPath \<noteq> None, collect rx iUriPath ds cm))"

text \<open>The first part of \<open>ServerPlugin::execute\<close>: plugins, callbacks for every method, callbacks
of the request's method.\<close>

definition callbacksMap :: "regex_lib \<Rightarrow> plugin \<Rightarrow> string \<Rightarrow> string \<Rightarrow> callbacks_map" where
  "callbacksMap rx p iMethod iUriPath =
     snd (getCallbacksByMethod rx p iMethod iUriPath
       (snd (getCallbacksByMethod rx p [] iUriPath (collect rx iUriPath (plugins p) []))))"

text \<open>The order of its loop: by length of the match, each with the rest of the path.\<close>

definition call_order :: "string \<Rightarrow> callbacks_map \<Rightarrow> (callback_data \<times> string) list" where
  "call_order iUriPath cm = concat (map (\<lambda>(n, ds). map (\<lambda>d. (d, drop n iUriPath)) ds) cm)"

definition route :: "regex_lib \<Rightarrow> plugin \<Rightarrow> string \<Rightarrow> string \<Rightarrow> (callback_data \<times> string) list" where
  "route rx p iMethod iUriPath = call_order iUriPath (callbacksMap rx p iMethod iUriPath)"

section \<open>What the map holds\<close>

definition registered :: "plugin \<Rightarrow> string \<Rightarrow> callback_data list" where
  "registered p iMethod = plugins p @
     (case omap_find (<) [] (methodCallbackMap p) of None \<Rightarrow> [] | Some ds \<Rightarrow> ds) @
     (case omap_find (<) iMethod (methodCallbackMap p) of None \<Rightarrow> [] | Some ds \<Rightarrow> ds)"

text \<open>The entry of length \<open>n\<close> is the list of the callbacks that match with that length.\<close>

definition entry :: "nat \<Rightarrow> callbacks_map \<Rightarrow> callback_data list" where
  "entry n cm = (case omap_find (<) n cm of None \<Rightarrow> [] | Some ds \<Rightarrow> ds)"

lemma entry_push: "entry n (push_callback k d cm) = (if n = k then entry n cm @ [d] else entry n cm)"
  by (cases "n = k")
    (simp_all add: entry_def push_callback_def nat_keys.find_set_same nat_keys.find_set_other)

lemma sorted_push: "omap_sorted (<) cm \<Longrightarrow> omap_sorted (<) (push_callback k d cm)"
  by (simp add: push_callback_def nat_keys.sorted_set)

lemma collect_entry:
  "entry n (collect rx path ds cm) = entry n cm @ filter (\<lambda>d. matchUri rx d path = Some n) ds"
  by (induction ds arbitrary: cm) (auto simp: entry_push split: option.splits)

lemma collect_sorted: "omap_sorted (<) cm \<Longrightarrow> omap_sorted (<) (collect rx path ds cm)"
  by (induction ds arbitrary: cm) (auto simp: sorted_push split: option.splits)

lemma byMethod_entry:
  "entry n (snd (getCallbacksByMethod rx p m path cm)) = entry n cm @
     filter (\<lambda>d. matchUri rx d path = Some n)
       (case omap_find (<) m (methodCallbackMap p) of None \<Rightarrow> [] | Some ds \<Rightarrow> ds)"
  by (simp add: getCallbacksByMethod_def collect_entry split: option.splits)

lemma byMethod_sorted:
  "omap_sorted (<) cm \<Longrightarrow> omap_sorted (<) (snd (getCallbacksByMethod rx p m path cm))"
  by (simp add: getCallbacksByMethod_def collect_sorted split: option.splits)

lemma callbacksMap_sorted: "omap_sorted (<) (callbacksMap rx p m path)"
  by (simp add: callbacksMap_def byMethod_sorted collect_sorted)

lemma callbacksMap_entry:
  "entry n (callbacksMap rx p m path) =
     filter (\<lambda>d. matchUri rx d path = Some n) (registered p m)"
  by (simp add: callbacksMap_def byMethod_entry collect_entry registered_def)
    (simp add: entry_def)

text \<open>A sorted map, flattened, is its entries in the order of their keys.\<close>

text \<open>Every callback of the map stands in the entry of the length of its match.\<close>

definition keyed :: "regex_lib \<Rightarrow> string \<Rightarrow> callbacks_map \<Rightarrow> bool" where
  "keyed rx path cm \<longleftrightarrow> (\<forall>(n, ds) \<in> set cm. \<forall>d \<in> set ds. matchUri rx d path = Some n)"

lemma omap_set_in:
  "(a, v) \<in> set (omap_set ((<) :: nat \<Rightarrow> nat \<Rightarrow> bool) k w m) \<Longrightarrow> (a, v) \<in> set m \<or> (a = k \<and> v = w)"
  by (induction m) (auto split: if_splits)

lemma omap_find_in: "omap_find ((<) :: nat \<Rightarrow> nat \<Rightarrow> bool) k m = Some v \<Longrightarrow> (k, v) \<in> set m"
  by (induction m) (auto split: if_splits)

lemma keyed_push:
  assumes "keyed rx path cm" and "matchUri rx d path = Some n"
  shows "keyed rx path (push_callback n d cm)"
proof -
  have "\<forall>e \<in> set (entry n cm). matchUri rx e path = Some n"
    using assms(1) omap_find_in [of n cm] by (fastforce simp: keyed_def entry_def split: option.splits)
  moreover have "push_callback n d cm = omap_set (<) n (entry n cm @ [d]) cm"
    by (simp add: push_callback_def entry_def)
  ultimately show ?thesis
    using assms unfolding keyed_def by (auto dest!: omap_set_in)
qed

lemma keyed_collect: "keyed rx path cm \<Longrightarrow> keyed rx path (collect rx path ds cm)"
  by (induction ds arbitrary: cm) (auto simp: keyed_push split: option.splits)

lemma keyed_byMethod:
  "keyed rx path cm \<Longrightarrow> keyed rx path (snd (getCallbacksByMethod rx p m path cm))"
  by (simp add: getCallbacksByMethod_def keyed_collect split: option.splits)

lemma keyed_callbacksMap: "keyed rx path (callbacksMap rx p m path)"
  unfolding callbacksMap_def by (intro keyed_byMethod keyed_collect) (simp add: keyed_def)

definition match_length :: "regex_lib \<Rightarrow> string \<Rightarrow> callback_data \<Rightarrow> nat" where
  "match_length rx path d = the (matchUri rx d path)"

lemma flat_keys:
  "keyed rx path cm \<Longrightarrow> omap_sorted (<) cm \<Longrightarrow>
     sorted (map (match_length rx path) (concat (map snd cm))) \<and>
     filter (\<lambda>d. match_length rx path d = n) (concat (map snd cm)) = entry n cm"
proof (induction cm)
  case (Cons x cm)
  obtain k ds where x: "x = (k, ds)" by (cases x)
  have k: "\<forall>d \<in> set ds. match_length rx path d = k"
    using Cons.prems(1) by (auto simp: keyed_def x match_length_def)
  have kc: "keyed rx path cm" and sc: "omap_sorted (<) cm" and kl: "\<forall>b \<in> fst ` set cm. k < b"
    using Cons.prems by (auto simp: keyed_def x)
  have rest: "\<forall>d \<in> set (concat (map snd cm)). k < match_length rx path d"
    using kc kl by (force simp: keyed_def match_length_def)
  have sorted_ds: "sorted (map (match_length rx path) ds)"
    using k by (induction ds) auto
  have nil: "filter (\<lambda>d. match_length rx path d = k) (concat (map snd cm)) = []"
    using rest by (auto simp: filter_empty_conv)
  have same: "filter (\<lambda>d. match_length rx path d = n) ds = (if n = k then ds else [])"
    using k by (induction ds) auto
  show ?case
    using Cons.IH [OF kc sc] sorted_ds k rest nil same
    by (auto simp: x sorted_append entry_def less_imp_le)
qed (simp add: entry_def)

section \<open>The order of the callbacks\<close>

text \<open>C25. A request runs exactly the callbacks that are registered for its method or for every
method and whose template matches the path, shortest match first, and those of equal length
in the order of registration: plugins, then callbacks for every method, then callbacks of the
method. Each gets the path without the part it matched.\<close>

theorem route_sorts_by_length:
  "route rx p m path =
     map (\<lambda>d. (d, drop (match_length rx path d) path))
       (sort_key (match_length rx path) (filter (\<lambda>d. matchUri rx d path \<noteq> None) (registered p m)))"
proof -
  let ?cm = "callbacksMap rx p m path" and ?f = "match_length rx path"
  let ?ys = "concat (map snd ?cm)" and ?xs = "filter (\<lambda>d. matchUri rx d path \<noteq> None) (registered p m)"
  have flat: "sorted (map ?f ?ys)" "filter (\<lambda>d. ?f d = n) ?ys = entry n ?cm" for n
    using flat_keys [OF keyed_callbacksMap callbacksMap_sorted] by auto
  have same: "filter (\<lambda>d. ?f d = n) ?ys = filter (\<lambda>d. ?f d = n) ?xs" for n
    unfolding flat(2) callbacksMap_entry filter_filter
    by (intro filter_cong refl) (auto simp: match_length_def)
  have "mset ?ys = mset ?xs"
  proof (rule multiset_eqI)
    fix d
    have c: "count (mset zs) d = count (mset (filter (\<lambda>e. ?f e = ?f d) zs)) d" for zs
      by (induction zs) auto
    show "count (mset ?ys) d = count (mset ?xs) d" by (simp only: c [of ?ys] c [of ?xs] same)
  qed
  then have "sort_key ?f ?xs = ?ys"
    using same flat(1) by (intro properties_for_sort_key) (simp_all add: eq_commute)
  moreover have "route rx p m path = map (\<lambda>d. (d, drop (?f d) path)) ?ys"
  proof -
    have "\<forall>(n, ds) \<in> set cm. \<forall>d \<in> set ds. ?f d = n \<Longrightarrow>
        call_order path cm = map (\<lambda>d. (d, drop (?f d) path)) (concat (map snd cm))" for cm
      by (induction cm) (auto simp: call_order_def)
    then show ?thesis
      using keyed_callbacksMap [of rx path p m] unfolding route_def
      by (force simp: keyed_def match_length_def)
  qed
  ultimately show ?thesis by simp
qed

section \<open>Registration\<close>

definition method_callbacks :: "string \<Rightarrow> plugin \<Rightarrow> callback_data list" where
  "method_callbacks m p =
     (case omap_find (<) m (methodCallbackMap p) of None \<Rightarrow> [] | Some ds \<Rightarrow> ds)"

lemma registered_methods:
  "registered p m = plugins p @ method_callbacks [] p @ method_callbacks m p"
  by (simp add: registered_def method_callbacks_def)

lemma find_filtered:
  "omap_find lt k (map (\<lambda>(m, ds). (m, filter P ds)) cm) = map_option (filter P) (omap_find lt k cm)"
  by (induction cm) auto

lemma method_callbacks_remove:
  "method_callbacks m (plugin_at (snd (removeMethod self d R)) self) =
     filter (\<lambda>c. cb_id c \<noteq> cb_id d) (method_callbacks m (plugin_at R self))"
  by (simp add: removeMethod_def upd_plugin_def method_callbacks_def find_filtered
      split: option.splits)

lemma method_callbacks_add:
  assumes "addMethod F self mth u h R = (Inr d, R1)"
  shows "method_callbacks m (plugin_at R1 self) =
      method_callbacks m (plugin_at R self) @ (if m = mth then [d] else [])"
    and "plugins (plugin_at R1 self) = plugins (plugin_at R self)" and "cb_id d = next_cb R"
  using assms
  by (auto simp: addMethod_def Let_def method_callbacks_def upd_plugin_def
      str_keys.find_set_same str_keys.find_set_other split: sum.splits)

text \<open>The addresses in use are below the next one.\<close>

definition ids_ok :: "routers \<Rightarrow> nat \<Rightarrow> bool" where
  "ids_ok R self \<longleftrightarrow> (\<forall>m. \<forall>c \<in> set (method_callbacks m (plugin_at R self)). cb_id c < next_cb R)"

lemma find_in: "omap_find ((<) :: string \<Rightarrow> string \<Rightarrow> bool) k m = Some v \<Longrightarrow> (k, v) \<in> set m"
  by (induction m) (auto split: if_splits)

text \<open>Registering a method callback appends it to the callbacks of its method, and removing it
with the value the registration returned takes exactly it away again: every method has the
callbacks it had before, and the removal reports success.\<close>

lemma remove_undoes_add:
  assumes ids: "ids_ok R self" and add: "addMethod F self mth u h R = (Inr d, R1)"
  shows "method_callbacks mth (plugin_at R1 self) = method_callbacks mth (plugin_at R self) @ [d] \<and>
    fst (removeMethod self d R1) \<and>
    (\<forall>m. registered (plugin_at (snd (removeMethod self d R1)) self) m =
      registered (plugin_at R self) m)"
proof -
  note a = method_callbacks_add [OF add]
  have "filter (\<lambda>c. cb_id c \<noteq> cb_id d) (method_callbacks m (plugin_at R1 self)) =
      method_callbacks m (plugin_at R self)" for m
    using ids unfolding a(1) by (fastforce simp: ids_ok_def a(3) filter_id_conv)
  moreover have "plugins (plugin_at (snd (removeMethod self d R1)) self) = plugins (plugin_at R self)"
    by (simp add: removeMethod_def upd_plugin_def a(2))
  moreover have "fst (removeMethod self d R1)"
  proof -
    have "d \<in> set (method_callbacks mth (plugin_at R1 self))" by (simp add: a(1))
    then obtain ds where "omap_find (<) mth (methodCallbackMap (plugin_at R1 self)) = Some ds"
      and "d \<in> set ds"
      by (cases "omap_find (<) mth (methodCallbackMap (plugin_at R1 self))")
        (auto simp: method_callbacks_def)
    with find_in show ?thesis unfolding removeMethod_def fst_conv by fast
  qed
  ultimately show ?thesis
    using a(1) [of mth] by (simp add: registered_methods method_callbacks_remove)
qed

definition empty_routers :: routers where
  "empty_routers = \<lparr>next_cb = 0, plugin_at = (\<lambda>_. new_plugin)\<rparr>"

lemma remove_undoes_add_example:
  "\<exists>d R1. addMethod [] 0 ''GET'' ''/a'' 7 empty_routers = (Inr d, R1) \<and> fst (removeMethod 0 d R1)"
proof -
  have "parse [] ''/a'' = Inr \<lparr>u_template = ''/a'', u_matchPattern = ''/a'',
      u_extractPattern = ''/a'', u_params = [], u_formatNames = []\<rparr>"
    by (simp add: parse_eval)
  then obtain d R1 where add: "addMethod [] 0 ''GET'' ''/a'' 7 empty_routers = (Inr d, R1)"
    by (simp add: addMethod_def Let_def)
  have "ids_ok empty_routers 0"
    by (simp add: ids_ok_def empty_routers_def new_plugin_def method_callbacks_def)
  with remove_undoes_add [OF _ add] add show ?thesis by blast
qed

section \<open>Mounted plugins\<close>

text \<open>What every regular expression library promises of a match that is anchored at both ends:
the whole subject is matched.\<close>

definition both_anchored :: "regex_lib \<Rightarrow> bool" where
  "both_anchored rx \<longleftrightarrow> (\<forall>p s g. rx p ANCHOR_BOTH s = Some g \<longrightarrow> g \<noteq> [] \<and> hd g = s)"

text \<open>A plugin, or a callback for every method, is matched only against a whole path: the
anchors of \<open>matchUri\<close> are exchanged, so a plugin mounted at a prefix is never called for a
path below it. When it is called after another callback, it is given the empty path.\<close>

lemma plugin_matches_whole_path_only:
  assumes "both_anchored rx" and "\<not> uriRegexMatchWholePath d" and "matchUri rx d path = Some n"
  shows "n = length path \<and> drop n path = []"
proof -
  obtain g where g: "rx (getPattern False True (uri d)) ANCHOR_BOTH path = Some g"
    and n: "n = length (smatch_str g 0)"
    using assms(2,3) by (auto simp: matchUri_def Let_def split: option.splits if_splits)
  from g assms(1) have "g \<noteq> []" "hd g = path" unfolding both_anchored_def by blast+
  then show ?thesis by (cases g) (simp_all add: n smatch_str_def)
qed

definition literal_lib :: regex_lib where
  "literal_lib p a s = (if p = s @ ''$'' then Some [s] else None)"

definition mounted :: callback_data where
  "mounted = \<lparr>cb_id = 0,
     uri = \<lparr>u_template = ''/api'', u_matchPattern = ''/api'', u_extractPattern = ''/api'',
            u_params = [], u_formatNames = []\<rparr>,
     uriRegexMatchWholePath = False, target = ToPlugin 1\<rparr>"

lemma plugin_matches_whole_path_only_example:
  "matchUri literal_lib mounted ''/api'' = Some 4 \<and> drop 4 ''/api'' = []"
proof -
  have m: "matchUri literal_lib mounted ''/api'' = Some 4"
    by (simp add: matchUri_def literal_lib_def mounted_def getPattern_def smatch_str_def)
  have "both_anchored literal_lib"
    by (simp add: both_anchored_def literal_lib_def)
  from plugin_matches_whole_path_only [OF this _ m] m show ?thesis by (simp add: mounted_def)
qed

end
