(* ===== verification/Connection.thy ===== *)
theory Connection
  imports Router Outgoing
begin

text \<open>
  One connection of the HTTP server: \<open>ServerConnection\<close> (\<open>src/http/ServerConnection.cpp\<close>),
  \<open>ServerRequest\<close>, the asynchronous part of \<open>ServerResponse::endData\<close>
  (\<open>src/http/ServerResponse.cpp\<close>) and \<open>ServerPlugin::execute\<close> (\<open>src/http/ServerPlugin.cpp\<close>).
  The socket and the loop are seen through the steps they allow: data is read, a pending write
  is done, a pending close is done, or the loop runs the next callback of a chain of futures.
  A chain is what \<open>execute\<close> and \<open>processRequest\<close> build with \<open>then\<close>: the rest of the handler
  that is running, what its future is settled with, and the callbacks still to be called.
\<close>

section \<open>State\<close>

record 'p server_request = incoming +
  uriTemplateValues :: uval
  req_complete :: bool
  parser :: "'p option"

definition ServerRequest :: "'p server_request" where
  "ServerRequest = \<lparr>httpMajor = 1, httpMinor = 1, headers = [], isRequest = True,
     upgrade = False, meth = 0, statusCode = 16, responseStatusString = [], url = empty_url,
     body = [], wasHeaderValue = True, lastHeaderField = [], lastHeaderValue = [],
     headerComplete = False, messageComplete = False, uriTemplateValues = empty_value,
     req_complete = False, parser = None\<rparr>"

definition onMessageComplete :: "'p server_request \<Rightarrow> 'p server_request" where
  "onMessageComplete r = r\<lparr>req_complete := True\<rparr>"

text \<open>What a handler does with the connection; \<open>AAwaitSent\<close> waits until the future of its \<open>end\<close> is
settled, \<open>AClose\<close> closes the connection. A handler has a synchronous part, may throw a \<open>FutureError\<close>, and returns a future with
the rest of its work and what the future is settled with.\<close>

datatype act =
    ASetStatus int
  | ASetHeader string string
  | AEnd string
  | AAwaitSent
  | AClose

record handler =
  h_sync :: "act list"
  h_throw :: "string option"
  h_async :: "act list"
  h_res :: "string option"

record chain =
  ch_acts :: "act list"
  ch_res :: "string option"
  ch_rest :: "(callback_data \<times> string) list"

datatype conn_event = RequestReceived | ResponseSent | ConnClosed

text \<open>What a connection asks of its socket; and the states of a socket.\<close>

datatype sock_call = CallWrite string | CallClose

datatype sock_state = SockOpen | SockClosing | SockClosed

text \<open>In the order in which a socket goes through them.\<close>

instantiation sock_state :: linorder
begin

fun rank :: "sock_state \<Rightarrow> nat" where
  "rank SockOpen = 0" | "rank SockClosing = 1" | "rank SockClosed = 2"

definition less_eq_sock_state :: "sock_state \<Rightarrow> sock_state \<Rightarrow> bool" where
  "a \<le> b \<longleftrightarrow> rank a \<le> rank b"

definition less_sock_state :: "sock_state \<Rightarrow> sock_state \<Rightarrow> bool" where
  "a < b \<longleftrightarrow> rank a < rank b"

instance
proof
  fix a b :: sock_state
  show "a \<le> b \<Longrightarrow> b \<le> a \<Longrightarrow> a = b" by (cases a; cases b) (simp_all add: less_eq_sock_state_def)
qed (auto simp: less_eq_sock_state_def less_sock_state_def)

end

lemma sock_state_simps [simp]:
  "SockOpen \<le> k" "k \<le> SockClosed" "SockClosed \<le> k \<longleftrightarrow> k = SockClosed"
  "k \<le> SockClosing \<longleftrightarrow> k \<noteq> SockClosed" "SockClosing \<le> k \<longleftrightarrow> k \<noteq> SockOpen"
  by (cases k; simp add: less_eq_sock_state_def)+

record 'p conn =
  c_request :: "'p server_request option"
  c_response :: "outgoing option"
  c_socket :: sock_state
  c_reading :: bool
  c_out :: "string list"
  c_events :: "conn_event list"
  c_chains :: "chain list"
  c_pend :: nat
  c_closes :: nat
  c_calls :: "sock_call list"

record 'p cenv =
  e_rx :: regex_lib
  e_formats :: formats
  e_routers :: routers
  e_root :: nat
  e_depth :: nat
  e_method_str :: "nat \<Rightarrow> string"
  e_http :: "'p http_lib"
  e_parser_init :: 'p
  e_url :: url_parser
  e_handler :: "nat \<Rightarrow> 'p server_request option \<Rightarrow> handler"

definition null_deref :: exn where
  "null_deref = NativeExn ''null''"

definition ServerConnection :: "'p conn" where
  "ServerConnection = \<lparr>c_request = None, c_response = None, c_socket = SockOpen,
     c_reading = False, c_out = [], c_events = [], c_chains = [], c_pend = 0,
     c_closes = 0, c_calls = []\<rparr>"

section \<open>Request and response\<close>

definition getRequest :: "('p conn, 'p server_request) M" where
  "getRequest c = (case c_request c of
     Some r \<Rightarrow> (Inr r, c)
   | None \<Rightarrow> (Inr ServerRequest, c\<lparr>c_request := Some ServerRequest\<rparr>))"

definition getResponse :: "('p conn, outgoing) M" where
  "getResponse c = (case c_response c of
     Some r \<Rightarrow> (Inr r, c)
   | None \<Rightarrow> bindM getRequest (\<lambda>q d.
       (Inr (ServerResponse q), d\<lparr>c_response := Some (ServerResponse q)\<rparr>)) c)"

definition isSent :: "('p conn, bool) M" where
  "isSent = bindM getResponse (\<lambda>r. retM (sent r))"

definition set_response :: "(outgoing \<Rightarrow> outgoing) \<Rightarrow> ('p conn, unit) M" where
  "set_response f = bindM getResponse (\<lambda>r. modM (\<lambda>c. c\<lparr>c_response := Some (f r)\<rparr>))"

text \<open>\<open>close\<close>: every call attaches a callback to the future that is settled when the socket is closed;
a later call gets a future that is never settled. Then the callbacks run, each in a turn of its own, and each
reports the close.\<close>

definition close :: "('p conn, unit) M" where
  "close = modM (\<lambda>c. if c_socket c = SockClosed then c\<lparr>c_calls := c_calls c @ [CallClose]\<rparr>
     else c\<lparr>c_calls := c_calls c @ [CallClose], c_socket := SockClosing, c_closes := Suc (c_closes c)\<rparr>)"

definition socket_closed :: "('p conn, unit) M" where
  "socket_closed = modM (\<lambda>c. c\<lparr>c_socket := SockClosed\<rparr>)"

definition close_callback :: "('p conn, unit) M" where
  "close_callback = modM (\<lambda>c. c\<lparr>c_closes := c_closes c - 1, c_events := c_events c @ [ConnClosed]\<rparr>)"

text \<open>The synchronous part of \<open>ServerResponse::endData\<close>: the write is started.\<close>

definition response_end :: "string \<Rightarrow> ('p conn, unit) M" where
  "response_end d = bindM getResponse (\<lambda>r c.
     (case endData d r of
        (Inl e, r') \<Rightarrow> (Inl e, c)
      | (Inr _, r') \<Rightarrow> (Inr (), c\<lparr>c_response := Some (r'\<lparr>wire := []\<rparr>),
           c_out := c_out c @ map wire_text (wire r'), c_pend := Suc (c_pend c),
           c_calls := c_calls c @ map CallWrite (map wire_text (wire r'))\<rparr>)))"

text \<open>Its continuation, when the write is done: the callbacks of the end, then the connection is
made ready for the next request or closed.\<close>

definition end_sent :: "('p conn, unit) M" where
  "end_sent c = (case c_response c of
     None \<Rightarrow> (Inl null_deref, c)
   | Some r \<Rightarrow>
      (let c' = c\<lparr>c_events := c_events c @ [ResponseSent]\<rparr> in
       if shouldKeepAlive r then (Inr (), c'\<lparr>c_request := None, c_response := None\<rparr>)
       else close c'))"

text \<open>The completion of the write, with the error if it failed: then the continuation is not
called.\<close>

definition write_done :: "string option \<Rightarrow> ('p conn, unit) M" where
  "write_done failed c =
     (let c' = c\<lparr>c_pend := c_pend c - 1\<rparr> in
      case failed of Some e \<Rightarrow> (Inr (), c') | None \<Rightarrow> end_sent c')"

definition act_step :: "act \<Rightarrow> ('p conn, unit) M" where
  "act_step a = (case a of
     ASetStatus n \<Rightarrow> set_response (setStatus n)
   | ASetHeader k v \<Rightarrow> set_response (setHeader k v)
   | AEnd d \<Rightarrow> response_end d
   | AAwaitSent \<Rightarrow> retM ()
   | AClose \<Rightarrow> close)"

definition respond :: "int \<Rightarrow> string \<Rightarrow> ('p conn, unit) M" where
  "respond status d = thenM (set_response (setStatus status)) (response_end d)"

text \<open>Answer with \<open>status\<close> unless an answer was sent.\<close>

definition respond_unless_sent :: "int \<Rightarrow> string \<Rightarrow> ('p conn, unit) M" where
  "respond_unless_sent status d =
     bindM isSent (\<lambda>s. if s then retM () else respond status d)"

section \<open>Executing the callbacks\<close>

definition call_function :: "handler \<Rightarrow> ('p conn, chain) M" where
  "call_function h =
     thenM (forM (h_sync h) act_step)
       (case h_throw h of
          Some e \<Rightarrow> throwM (FutureExn e)
        | None \<Rightarrow> retM \<lparr>ch_acts = h_async h, ch_res = h_res h, ch_rest = []\<rparr>)"

definition extract_into :: "'p cenv \<Rightarrow> string \<Rightarrow> callback_data \<Rightarrow> ('p conn, unit) M" where
  "extract_into E path d = bindM getRequest (\<lambda>r c.
     (case extract_uri (e_rx E) (e_formats E) (uri d) path False (uriTemplateValues r) of
        (res, v) \<Rightarrow>
          (map_sum id (\<lambda>_. ()) res, c\<lparr>c_request := Some (r\<lparr>uriTemplateValues := v\<rparr>)\<rparr>)))"

definition resolved :: chain where
  "resolved = \<lparr>ch_acts = [], ch_res = None, ch_rest = []\<rparr>"

text \<open>The loop of \<open>ServerPlugin::execute\<close>: the first callback is called at once, with the whole
path, the others are chained, with the rest of the path.\<close>

definition execute_loop ::
  "'p cenv \<Rightarrow> (callback_data \<Rightarrow> string \<Rightarrow> ('p conn, chain) M) \<Rightarrow> string
     \<Rightarrow> (callback_data \<times> string) list \<Rightarrow> ('p conn, chain) M" where
  "execute_loop E call path cbs = (case cbs of
     [] \<Rightarrow> retM resolved
   | (d, np) # rest \<Rightarrow>
       thenM (extract_into E path d)
         (bindM (call d path) (\<lambda>ch.
            thenM (forM rest (\<lambda>(d, np). extract_into E path d))
              (retM (ch\<lparr>ch_rest := ch_rest ch @ rest\<rparr>)))))"

text \<open>\<open>PluginData::execute\<close> and \<open>CallbackData::execute\<close>, \<open>n\<close> bounding the nesting of plugins.\<close>

fun execute :: "'p cenv \<Rightarrow> nat \<Rightarrow> nat \<Rightarrow> string \<Rightarrow> ('p conn, chain) M"
  and callback_execute :: "'p cenv \<Rightarrow> nat \<Rightarrow> callback_data \<Rightarrow> string \<Rightarrow> ('p conn, chain) M"
where
  "execute E 0 p path = throwM (NativeExn ''stack overflow'')"
| "execute E (Suc n) p path =
     bindM getRequest (\<lambda>r.
       execute_loop E (callback_execute E n) path
         (route (e_rx E) (plugin_at (e_routers E) p) (e_method_str E (meth r)) path))"
| "callback_execute E n d path =
     (case target d of
        ToFunction h \<Rightarrow> (\<lambda>c. call_function (e_handler E h (c_request c)) c)
      | ToPlugin q \<Rightarrow> execute E n q path)"

declare execute.simps [simp del] callback_execute.simps [simp del]

text \<open>\<open>processRequest\<close>: the chain is left to the loop.\<close>

definition processRequest :: "'p cenv \<Rightarrow> ('p conn, unit) M" where
  "processRequest E =
     thenM (modM (\<lambda>c. c\<lparr>c_events := c_events c @ [RequestReceived]\<rparr>))
       (bindM getRequest (\<lambda>r. case url_path (url r) of
          Inl e \<Rightarrow> throwM e
        | Inr path \<Rightarrow>
            bindM (execute E (e_depth E) (e_root E) path)
              (\<lambda>ch. modM (\<lambda>c. c\<lparr>c_chains := c_chains c @ [ch]\<rparr>))))"

section \<open>Reading\<close>

datatype read_event = ReadData string | ReadEOF | ReadConnReset | ReadErr string

definition request_parse :: "'p cenv \<Rightarrow> string \<Rightarrow> ('p conn, int) M" where
  "request_parse E buf = bindM getRequest (\<lambda>r c.
     (case e_http E (case parser r of None \<Rightarrow> e_parser_init E | Some q \<Rightarrow> q) buf of
        (es, n, q') \<Rightarrow>
          (case run_events (e_url E) onMessageComplete es (r\<lparr>parser := Some q'\<rparr>) of
             (res, r') \<Rightarrow> (map_sum id (\<lambda>_. n) res, c\<lparr>c_request := Some r'\<rparr>))))"

definition on_read :: "'p cenv \<Rightarrow> read_event \<Rightarrow> ('p conn, unit) M" where
  "on_read E ev = (case ev of
     ReadEOF \<Rightarrow> retM ()
   | ReadConnReset \<Rightarrow> close
   | ReadErr name \<Rightarrow> respond_unless_sent 500 (''Invalid request format.'' @ ''Name: '' @ name)
   | ReadData buf \<Rightarrow>
       bindM (request_parse E buf) (\<lambda>parsed.
         thenM (bindM getRequest (\<lambda>r.
             if \<not> upgrade r \<and> parsed \<noteq> int (length buf) then close else retM ()))
          (bindM getRequest (\<lambda>r.
             if upgrade r \<or> messageComplete r then processRequest E else retM ()))))"

text \<open>\<open>parse\<close>: reading is started.\<close>

definition parse_connection :: "('p conn, unit) M" where
  "parse_connection =
     thenM (bindM getRequest (\<lambda>_. retM ()))
       (thenM (assertM (\<lambda>c. \<not> c_reading c) ''!_readCb'') (modM (\<lambda>c. c\<lparr>c_reading := True\<rparr>)))"

section \<open>The chains\<close>

definition set_chain :: "nat \<Rightarrow> chain \<Rightarrow> ('p conn, unit) M" where
  "set_chain i ch = modM (\<lambda>c. c\<lparr>c_chains := (c_chains c)[i := ch]\<rparr>)"

definition drop_chain :: "nat \<Rightarrow> ('p conn, unit) M" where
  "drop_chain i = modM (\<lambda>c. c\<lparr>c_chains := take i (c_chains c) @ drop (Suc i) (c_chains c)\<rparr>)"

text \<open>The loop runs the next callback of the chain: the next part of the running handler; then,
if its future was rejected, the error callback of \<open>processRequest\<close>; else the next callback
unless an answer was sent; and last the callback that answers 404.\<close>

definition chain_next :: "'p cenv \<Rightarrow> nat \<Rightarrow> chain \<Rightarrow> ('p conn, unit) M" where
  "chain_next E i ch =
      (case ch_acts ch of
         a # as \<Rightarrow> thenM (act_step a) (set_chain i (ch\<lparr>ch_acts := as\<rparr>))
       | [] \<Rightarrow>
         (case ch_res ch of
            Some e \<Rightarrow> thenM (drop_chain i) (respond_unless_sent 500 e)
          | None \<Rightarrow>
            (case ch_rest ch of
               [] \<Rightarrow> thenM (drop_chain i) (respond_unless_sent 404 [])
             | (d, np) # rest \<Rightarrow>
                 bindM isSent (\<lambda>s.
                   if s then set_chain i (ch\<lparr>ch_rest := rest\<rparr>)
                   else catchFuture
                     (bindM (callback_execute E (e_depth E) d np)
                        (\<lambda>ch'. set_chain i (ch'\<lparr>ch_rest := ch_rest ch' @ rest\<rparr>)))
                     (\<lambda>e. set_chain i \<lparr>ch_acts = [], ch_res = Some e, ch_rest = []\<rparr>)))))"

definition chain_turn :: "'p cenv \<Rightarrow> nat \<Rightarrow> ('p conn, unit) M" where
  "chain_turn E i c = chain_next E i (c_chains c ! i) c"

definition waits :: "chain \<Rightarrow> bool" where
  "waits ch \<longleftrightarrow> (\<exists>as. ch_acts ch = AAwaitSent # as)"

inductive conn_step :: "'p cenv \<Rightarrow> 'p conn \<Rightarrow> 'p conn \<Rightarrow> bool" for E where
  read: "c_reading c \<Longrightarrow> c_socket c = SockOpen \<Longrightarrow> on_read E ev c = (Inr (), c') \<Longrightarrow> conn_step E c c'"
| turn: "i < length (c_chains c) \<Longrightarrow> \<not> (waits (c_chains c ! i) \<and> 0 < c_pend c) \<Longrightarrow>
    chain_turn E i c = (Inr (), c') \<Longrightarrow> conn_step E c c'"
| written: "0 < c_pend c \<Longrightarrow> write_done failed c = (Inr (), c') \<Longrightarrow> conn_step E c c'"
| closed: "c_socket c = SockClosing \<Longrightarrow> socket_closed c = (Inr (), c') \<Longrightarrow> conn_step E c c'"
| close_called: "close c = (Inr (), c') \<Longrightarrow> conn_step E c c'"
| reported: "c_socket c = SockClosed \<Longrightarrow> 0 < c_closes c \<Longrightarrow> close_callback c = (Inr (), c') \<Longrightarrow>
    conn_step E c c'"

text \<open>A connection starts when the server has accepted it and reads from it.\<close>

definition accepted :: "'p conn \<Rightarrow> bool" where
  "accepted c \<longleftrightarrow> parse_connection ServerConnection = (Inr (), c)"

abbreviation conn_reach :: "'p cenv \<Rightarrow> 'p conn \<Rightarrow> bool" where
  "conn_reach E \<equiv> reached accepted (conn_step E)"

end
