(* ===== verification/ConnectionProps.thy ===== *)
theory ConnectionProps
  imports Connection
begin

text \<open>
  What the server connection guarantees: the invariant of its response and pending writes for
  every schedule of the loop and every handler, that a request whose callbacks are done has
  been answered, and two cases in which it does not do what it means to.
\<close>

section \<open>The invariant\<close>

definition resp_ok :: "outgoing \<Rightarrow> bool" where
  "resp_ok r \<longleftrightarrow> wire r = [] \<and> closed r = sent r \<and> last_chunk r = sent r \<and> headerSent r = sent r"

definition conn_ok :: "'p conn \<Rightarrow> bool" where
  "conn_ok c \<longleftrightarrow> (\<forall>r. c_response c = Some r \<longrightarrow> resp_ok r) \<and> c_pend c \<le> 1 \<and>
     (0 < c_pend c \<longrightarrow> (\<exists>r. c_response c = Some r \<and> sent r))"

lemma resp_ok_new [simp]: "resp_ok (ServerResponse q)"
  by (simp add: resp_ok_def ServerResponse_def OutgoingMessage_from_def setHeader_def)

lemma sent_new [simp]: "\<not> sent (ServerResponse q)"
  by (simp add: ServerResponse_def OutgoingMessage_from_def setHeader_def)

lemma resp_ok_end:
  assumes "resp_ok r"
  shows "if sent r then (\<exists>e. endData d r = (Inl (AssertExn e), r))
    else (\<exists>r' t. endData d r = (Inr (), r') \<and> sent r' \<and> resp_ok (r'\<lparr>wire := []\<rparr>) \<and>
      map wire_text (wire r') = [t])"
proof (cases "sent r")
  case True
  with assms show ?thesis by (simp add: resp_ok_def endData_def)
next
  case False
  obtain p where p: "writeData d (r\<lparr>last_chunk := True\<rparr>) = (Inr (), sendData (getMessageHeaderRaw p @ d) p)"
    and q: "headerSent p" "last_chunk p" "wire p = []"
    using write_first [of "r\<lparr>last_chunk := True\<rparr>" d] assms False by (auto simp: resp_ok_def)
  have "map wire_text (wire (sendData t p)) = [t]" for t
    using q(3) by (simp add: sendData_def split: out_kind.splits)
  moreover have "endData d r = (Inr (), (sendData (getMessageHeaderRaw p @ d) p)\<lparr>closed := True, sent := True\<rparr>)"
    using p assms False by (intro endData_returns) (auto simp: resp_ok_def)
  ultimately show ?thesis
    using False q by (auto simp: resp_ok_def)
qed

lemma getResponse_eq:
  "\<exists>c' r. getResponse c = (Inr r, c') \<and> c_response c' = Some r \<and>
     (c_response c = Some r \<and> c' = c \<or>
      c_response c = None \<and> resp_ok r \<and> \<not> sent r \<and> (\<exists>q. c' = c\<lparr>c_request := Some q, c_response := Some r\<rparr>))"
proof (cases "c_response c")
  case None
  then show ?thesis
    by (cases c; cases "c_request c") (auto simp: getResponse_def getRequest_def bindM_def)
qed (simp add: getResponse_def)

lemma conn_ok_getResponse: "keeps conn_ok conn_ok getResponse"
proof (rule keepsI)
  fix c r c'
  assume "conn_ok c" and "getResponse c = (r, c')"
  with getResponse_eq [of c] show "conn_ok c'" by (auto simp: conn_ok_def)
qed

lemma conn_ok_isSent: "keeps conn_ok conn_ok isSent"
  unfolding isSent_def by (intro keeps_bind conn_ok_getResponse) simp

lemma conn_ok_set_response:
  assumes "\<And>r. resp_ok (f r) = resp_ok r" and "\<And>r. sent (f r) = sent r"
  shows "keeps conn_ok conn_ok (set_response f)"
proof (rule keepsI)
  fix c x c'
  assume "conn_ok c" and "set_response f c = (x, c')"
  with getResponse_eq [of c] assms show "conn_ok c'"
    by (auto simp: conn_ok_def set_response_def bindM_def modM_def)
qed

lemma conn_ok_close: "keeps conn_ok conn_ok close"
  unfolding close_def by (intro keeps_mod) (simp add: conn_ok_def)

lemma conn_ok_response_end: "keeps conn_ok conn_ok (response_end d)"
proof (rule keepsI)
  fix c and x :: "exn + unit" and c'
  assume c: "conn_ok c" and e: "response_end d c = (x, c')" and x: "ok x"
  obtain r u where u: "getResponse c = (Inr r, u)" "c_response u = Some r" "conn_ok u"
    using getResponse_eq [of c] keepsD [OF conn_ok_getResponse c] by (metis ok_simps(1))
  have r: "resp_ok r" "0 < c_pend u \<longrightarrow> sent r" "c_pend u \<le> 1" using u by (auto simp: conn_ok_def)
  show "conn_ok c'"
  proof (cases "sent r")
    case True
    with resp_ok_end [OF r(1), of d] e u x show ?thesis
      by (auto simp: response_end_def bindM_def)
  next
    case False
    with resp_ok_end [OF r(1), of d] e u x r show ?thesis
      by (auto simp: response_end_def bindM_def conn_ok_def)
  qed
qed

lemma setHeader_resp [simp]:
  "resp_ok (setHeader k v r) = resp_ok r" "sent (setHeader k v r) = sent r"
  "resp_ok (setStatus n r) = resp_ok r" "sent (setStatus n r) = sent r"
  by (simp_all add: setHeader_def setStatus_def resp_ok_def)

text \<open>What the operations of a connection keep follows from what they do to its response, to its
socket and to the texts it writes: executing callbacks, reading and the turns of a chain are put
together from these.\<close>

locale conn_kept =
  fixes P :: "'p conn \<Rightarrow> bool"
  assumes requests: "P (c\<lparr>c_request := r\<rparr>) = P c"
    and chains: "P (c\<lparr>c_chains := cs\<rparr>) = P c"
    and events: "P (c\<lparr>c_events := es\<rparr>) = P c"
    and responses: "keeps P P getResponse"
    and acts: "keeps P P (act_step a)"
    and answers: "keeps P P (respond_unless_sent n d)"
    and closes: "keeps P P close"
begin

lemma get_request: "keeps P P getRequest"
  by (rule keepsI) (auto simp: getRequest_def requests split: option.splits)

lemma is_sent: "keeps P P isSent"
  unfolding isSent_def by (intro keeps_bind responses) simp

lemma call: "keeps P P (call_function h)"
  unfolding call_function_def by (auto intro!: keeps_then keeps_for acts split: option.split)

lemma extraction: "keeps P P (extract_into E path d)"
  unfolding extract_into_def
  by (rule keeps_bind [OF get_request], rule keepsI) (auto simp: requests split: prod.splits)

lemma loop:
  assumes "\<And>d p. keeps P P (cb d p)"
  shows "keeps P P (execute_loop E cb path cbs)"
  unfolding execute_loop_def
  by (auto intro!: keeps_then keeps_bind keeps_for extraction assms split: list.split prod.split)

lemma execs: "keeps P P (execute E n p path)" "keeps P P (callback_execute E n d path')"
proof (induction E n p path and E n d path' rule: execute_callback_execute.induct)
  case (1 E p path)
  then show ?case by (simp add: execute.simps)
next
  case (2 E n p path)
  then show ?case unfolding execute.simps by (intro keeps_bind get_request loop) simp
next
  case (3 E n d path)
  have "keeps P P (\<lambda>c. call_function (e_handler E h (c_request c)) c)" for h
    using call unfolding keeps_def by blast
  with 3 show ?case unfolding callback_execute.simps by (auto split: cb_target.split)
qed

lemma process: "keeps P P (processRequest E)"
  unfolding processRequest_def
  by (intro keeps_then keeps_mod keeps_bind get_request)
    (auto simp: events chains split: sum.split intro!: keeps_bind execs keeps_mod)

lemma parses: "keeps P P (request_parse E buf)"
  unfolding request_parse_def
  by (rule keeps_bind [OF get_request], rule keepsI) (auto simp: requests split: prod.splits)

lemma reads: "keeps P P (on_read E ev)"
  unfolding on_read_def
  by (auto intro!: keeps_bind keeps_then parses get_request closes process answers split: read_event.split)

lemma nexts: "keeps P P (chain_next E i ch)"
  unfolding chain_next_def
  by (auto intro!: keeps_then keeps_bind keeps_catch keeps_mod acts answers is_sent execs
      simp: set_chain_def drop_chain_def chains split: list.split option.split prod.split)

lemma turns: "keeps P P (chain_turn E i)"
  using nexts unfolding keeps_def chain_turn_def by blast

lemma step_keeps:
  assumes "conn_step E c c'" and "P c"
    and "\<And>e d. 0 < c_pend c \<Longrightarrow> write_done e c = (Inr (), d) \<Longrightarrow> P d"
    and "\<And>d. c_socket c = SockClosing \<Longrightarrow> socket_closed c = (Inr (), d) \<Longrightarrow> P d"
    and "\<And>d. c_socket c = SockClosed \<Longrightarrow> 0 < c_closes c \<Longrightarrow> close_callback c = (Inr (), d) \<Longrightarrow> P d"
  shows "P c'"
  using assms(1)
proof cases
  case (read ev)
  then show ?thesis using keepsD [OF reads assms(2)] by simp
next
  case (turn i)
  then show ?thesis using keepsD [OF turns assms(2)] by simp
next
  case close_called
  then show ?thesis using keepsD [OF closes assms(2)] by simp
qed (use assms(3-5) in blast)+

end

interpretation answering: conn_kept conn_ok
proof
  show "keeps conn_ok conn_ok (act_step a)" for a :: act
    unfolding act_step_def by (cases a) (auto intro: conn_ok_set_response conn_ok_response_end conn_ok_close)
  show "keeps conn_ok conn_ok (respond_unless_sent n d)" for n d
    unfolding respond_unless_sent_def respond_def
    by (rule keeps_bind [OF conn_ok_isSent])
      (auto intro!: keeps_then conn_ok_set_response conn_ok_response_end)
qed (auto simp: conn_ok_def conn_ok_getResponse conn_ok_close)

lemma conn_ok_chains [simp]: "conn_ok (c\<lparr>c_chains := cs\<rparr>) = conn_ok c"
  by (rule answering.chains)

lemma write_done_ok:
  assumes "conn_ok c" and "0 < c_pend c"
  shows "\<exists>c'. write_done e c = (Inr (), c') \<and> conn_ok c'"
  using assms
  by (auto simp: write_done_def end_sent_def close_def modM_def conn_ok_def Let_def
      split: list.split option.split)

lemma conn_ok_step: "conn_step E c c' \<Longrightarrow> conn_ok c \<Longrightarrow> conn_ok c'"
proof (erule answering.step_keeps)
  show "conn_ok d" if "conn_ok c" "0 < c_pend c" "write_done e c = (Inr (), d)" for e d
    using write_done_ok [OF that(1,2), of e] that(3) by simp
qed (auto simp: socket_closed_def close_callback_def modM_def conn_ok_def)

lemma conn_ok_start:
  "parse_connection ServerConnection = (Inr (), c) \<Longrightarrow> conn_ok c"
  by (auto simp: parse_connection_def ServerConnection_def thenM_def bindM_def getRequest_def
      retM_def assertM_def modM_def conn_ok_def)

interpretation conns: invariant accepted "conn_step E" conn_ok for E :: "'p cenv"
  by unfold_locales (auto simp: accepted_def intro: conn_ok_start conn_ok_step)

text \<open>Conditions that look neither at the request and the response nor at the answers.\<close>

locale conn_blind =
  fixes P :: "'p conn \<Rightarrow> bool"
  assumes blind: "P (c\<lparr>c_request := r\<rparr>) = P c" "P (c\<lparr>c_response := a\<rparr>) = P c" "P (c\<lparr>c_chains := cs\<rparr>) = P c"
      "P (c\<lparr>c_events := es\<rparr>) = P c" "P (c\<lparr>c_out := ts\<rparr>) = P c" "P (c\<lparr>c_pend := n\<rparr>) = P c"
      "P (c\<lparr>c_calls := ks\<rparr>) = P c"
    and closing_keeps: "keeps P P close"
begin

lemma get_response: "keeps P P getResponse"
proof (rule keepsI)
  fix c r c' assume "P c" "getResponse c = (r, c')"
  with getResponse_eq [of c] show "P c'" using blind(1,2) by auto
qed

lemma sets: "keeps P P (set_response f)"
  unfolding set_response_def by (intro keeps_bind keeps_mod get_response) (simp add: blind)

lemma ends: "keeps P P (response_end d)"
  unfolding response_end_def
  by (rule keeps_bind [OF get_response], rule keepsI) (auto simp: blind split: prod.splits sum.splits)

end

sublocale conn_blind \<subseteq> conn_kept P
proof
  show "keeps P P (act_step a)" for a
    unfolding act_step_def by (cases a) (auto intro: sets ends closing_keeps)
  show "keeps P P (respond_unless_sent n d)" for n d
    unfolding respond_unless_sent_def respond_def isSent_def
    by (auto intro!: keeps_bind keeps_then sets ends get_response)
qed (auto simp: blind get_response closing_keeps)

text \<open>A socket goes from open to closing to closed and never back.\<close>

interpretation forward: conn_blind "\<lambda>c. k \<le> c_socket c" for k
  by unfold_locales (auto simp: close_def intro!: keeps_mod)

lemma socket_forward: "conn_step E c c' \<Longrightarrow> c_socket c \<le> c_socket c'"
  by (erule forward.step_keeps [OF _ order_refl])
    (auto simp: write_done_def end_sent_def close_def socket_closed_def close_callback_def modM_def Let_def
      split: list.splits option.splits if_splits)

interpretation closed_conns: invariant "\<lambda>c. c_socket c = SockClosed" "conn_step E" "\<lambda>c. c_socket c = SockClosed"
  for E :: "'p cenv"
  by unfold_locales (use socket_forward in force)+

text \<open>While a socket is closing, a callback waits for the end of it.\<close>

definition awaits_close :: "'p conn \<Rightarrow> bool" where
  "awaits_close c \<longleftrightarrow> (c_socket c = SockOpen \<longrightarrow> c_closes c = 0) \<and> (c_socket c = SockClosing \<longrightarrow> 0 < c_closes c)"

interpretation closing: conn_blind awaits_close
  by unfold_locales (auto simp: close_def awaits_close_def intro!: keeps_mod)

lemma awaits_close_step: "awaits_close c \<Longrightarrow> conn_step E c c' \<Longrightarrow> awaits_close c'"
  by (erule closing.step_keeps, assumption)
    (auto simp: write_done_def end_sent_def close_def socket_closed_def close_callback_def modM_def Let_def
      awaits_close_def split: list.splits option.splits if_splits)

interpretation awaiting: invariant accepted "conn_step E" awaits_close for E :: "'p cenv"
proof
  show "awaits_close c" if "accepted c" for c :: "'p conn"
    using that by (auto simp: accepted_def parse_connection_def ServerConnection_def thenM_def bindM_def
        getRequest_def retM_def assertM_def modM_def awaits_close_def)
qed (rule awaits_close_step)

section \<open>Properties\<close>

text \<open>C12. For every schedule of reads, loop turns, completed writes and closes, and every handler:
at most one answer is being written at a time, and when its write completes the connection
still holds the response that was sent, so the continuation of \<open>end\<close> returns and never
dereferences a null response.\<close>

theorem completion_finds_response:
  assumes "conn_reach E c" and "0 < c_pend c"
  shows "c_pend c = 1 \<and> (\<exists>r. c_response c = Some r \<and> sent r) \<and>
    (\<exists>c'. write_done e c = (Inr (), c') \<and> c_pend c' = 0)"
proof -
  have ok: "conn_ok c" using conns.always [OF assms(1)] .
  then have p: "c_pend c = 1" "\<exists>r. c_response c = Some r \<and> sent r"
    using assms(2) by (auto simp: conn_ok_def)
  obtain c' where "write_done e c = (Inr (), c')" using write_done_ok [OF ok assms(2)] by blast
  moreover have "c_pend c' = 0"
    using calculation p
    by (auto simp: write_done_def end_sent_def close_def modM_def Let_def split: list.splits option.splits if_splits)
  ultimately show ?thesis using p by blast
qed

text \<open>The turn in which a chain ends.\<close>

definition last_turn :: "chain \<Rightarrow> bool" where
  "last_turn ch \<longleftrightarrow> ch_acts ch = [] \<and> (ch_res ch \<noteq> None \<or> ch_rest ch = [])"

definition sent_now :: "'p conn \<Rightarrow> bool" where
  "sent_now c \<longleftrightarrow> (\<exists>r. c_response c = Some r \<and> sent r)"

lemma respond_unless_sent_ok:
  assumes "conn_ok c"
  shows "\<exists>c'. respond_unless_sent n d c = (Inr (), c') \<and> sent_now c' \<and> c_chains c' = c_chains c \<and>
    (if sent_now c then c_out c' = c_out c else \<exists>t. c_out c' = c_out c @ [t])"
proof -
  obtain r u where u: "getResponse c = (Inr r, u)" "c_response u = Some r"
      "c_response c = Some r \<and> u = c \<or> c_response c = None \<and> resp_ok r \<and> \<not> sent r \<and>
        (\<exists>q. u = c\<lparr>c_request := Some q, c_response := Some r\<rparr>)"
    using getResponse_eq [of c] by blast
  have r: "resp_ok r" using u assms by (auto simp: conn_ok_def)
  have same: "sent_now c \<longleftrightarrow> sent r" "c_out u = c_out c" "c_chains u = c_chains c"
    using u(2,3) by (auto simp: sent_now_def)
  show ?thesis
  proof (cases "sent r")
    case True
    then show ?thesis using u same
      by (auto simp: respond_unless_sent_def isSent_def bindM_def retM_def sent_now_def)
  next
    case False
    obtain r' t where e: "endData d (setStatus n r) = (Inr (), r')" "sent r'" "map wire_text (wire r') = [t]"
      using resp_ok_end [of "setStatus n r" d] r False by auto
    then show ?thesis using u same False
      by (auto simp: respond_unless_sent_def respond_def isSent_def set_response_def response_end_def
          getResponse_def bindM_def thenM_def retM_def modM_def sent_now_def)
  qed
qed


text \<open>C39. A handler that returns the future of its own \<open>end\<close> is answered twice. On a connection that is
kept alive the completion of the write clears the response before that future is settled; the
check of \<open>processRequest\<close> then finds a new, unsent response and writes a 404 answer behind the
handler's.\<close>

theorem awaited_end_is_answered_twice:
  assumes "conn_ok c" and "c_pend c = 1" and "c_response c = Some r" and "shouldKeepAlive r"
    and "c_chains c = [\<lparr>ch_acts = [AAwaitSent], ch_res = None, ch_rest = []\<rparr>]"
  shows "\<exists>c1 c2 c3 t. write_done None c = (Inr (), c1) \<and> chain_turn E 0 c1 = (Inr (), c2) \<and>
    chain_turn E 0 c2 = (Inr (), c3) \<and> c_out c3 = c_out c @ [t] \<and>
    (\<exists>r'. c_response c3 = Some r' \<and> kind r' = Response 404)"
proof -
  define c1 where "c1 = c\<lparr>c_pend := 0, c_events := c_events c @ [ResponseSent],
    c_request := None, c_response := None\<rparr>"
  have w: "write_done None c = (Inr (), c1)"
    using assms by (simp add: write_done_def end_sent_def c1_def Let_def)
  define c2 where "c2 = c1\<lparr>c_chains := [\<lparr>ch_acts = [], ch_res = None, ch_rest = []\<rparr>]\<rparr>"
  have t1: "chain_turn E 0 c1 = (Inr (), c2)"
    using assms(5) by (simp add: chain_turn_def chain_next_def thenM_def bindM_def act_step_def
        retM_def set_chain_def modM_def c1_def c2_def)
  define c2' where "c2' = c2\<lparr>c_chains := []\<rparr>"
  define q :: "'a server_request" where "q = ServerRequest"
  define r0 where "r0 = setStatus 404 (ServerResponse q)"
  obtain r' t where e: "endData [] r0 = (Inr (), r')" "map wire_text (wire r') = [t]"
    using resp_ok_end [of r0 "[]"] by (auto simp: r0_def)
  have k: "kind r' = Response 404"
    using endData_kind [OF e(1)] by (simp add: r0_def setStatus_def)
  define c3 where "c3 = c2'\<lparr>c_request := Some q, c_response := Some (r'\<lparr>wire := []\<rparr>),
      c_out := c_out c @ [t], c_pend := 1, c_calls := c_calls c @ [CallWrite t]\<rparr>"
  have t2: "chain_turn E 0 c2 = (Inr (), c3)"
    using e by (simp add: chain_turn_def chain_next_def thenM_def bindM_def drop_chain_def modM_def
        c2_def c2'_def c1_def respond_unless_sent_def respond_def isSent_def set_response_def
        getResponse_def getRequest_def retM_def response_end_def r0_def q_def
        c3_def del: map_map)
  have "c_out c3 = c_out c @ [t]" "c_response c3 = Some (r'\<lparr>wire := []\<rparr>)"
    "kind (r'\<lparr>wire := []\<rparr>) = Response 404"
    using k by (simp_all add: c3_def)
  with w t1 t2 show ?thesis by blast
qed

text \<open>A \<open>FutureError\<close> that the first callback throws is not turned into a rejected future:
\<open>processRequest\<close> calls it outside of \<open>then\<close>, so the exception leaves the read callback and no
500 answer is written. (A later callback that throws is answered, as \<open>chain_turn\<close> shows.)\<close>

lemma first_callback_exception_escapes:
  assumes "c_request c = Some q" and "url_path (url q) = Inr path"
    and "e_depth E = Suc n"
    and "route (e_rx E) (plugin_at (e_routers E) (e_root E)) (e_method_str E (meth q)) path =
      (d, np) # rest"
    and "extract_uri (e_rx E) (e_formats E) (uri d) path False (uriTemplateValues q) = (Inr b, v)"
    and "target d = ToFunction h" and "\<And>x. h_sync (e_handler E h x) = []"
    and "\<And>x. h_throw (e_handler E h x) = Some msg"
  shows "\<exists>c'. processRequest E c = (Inl (FutureExn msg), c') \<and> c_out c' = c_out c \<and>
    c_chains c' = c_chains c"
  using assms
  by (simp add: processRequest_def thenM_def bindM_def modM_def getRequest_def execute.simps
      execute_loop_def extract_into_def callback_execute.simps call_function_def retM_def throwM_def)

section \<open>A concrete server\<close>

text \<open>One callback for GET at \<open>/\<close>; a parser that delivers a whole GET request for \<open>/\<close>.\<close>

definition root_template :: uri_template where
  "root_template = \<lparr>u_template = ''/'', u_matchPattern = ''/'', u_extractPattern = ''/'',
     u_params = [], u_formatNames = []\<rparr>"

definition demo_callback :: callback_data where
  "demo_callback = \<lparr>cb_id = 0, uri = root_template, uriRegexMatchWholePath = True,
     target = ToFunction 7\<rparr>"

definition demo_url :: url_handle where
  "demo_url = \<lparr>field_set = (\<lambda>f. f = UF_PATH), field_data = (\<lambda>_. (0, 1)), url_port = 0\<rparr>"

definition demo_info :: parser_info where
  "demo_info = \<lparr>p_upgrade = False, p_http_major = 1, p_http_minor = 1, p_method = 1,
     p_status_code = 0\<rparr>"

definition demo_env :: "handler \<Rightarrow> unit cenv" where
  "demo_env h = \<lparr>e_rx = (\<lambda>p a s. Some [s]), e_formats = [],
     e_routers = \<lparr>next_cb = 1,
       plugin_at = (\<lambda>_. \<lparr>plugins = [], methodCallbackMap = [(''GET'', [demo_callback])]\<rparr>)\<rparr>,
     e_root = 0, e_depth = 1, e_method_str = (\<lambda>_. ''GET''),
     e_http = (\<lambda>q buf. ([EvUrl ''/'', EvHeadersComplete demo_info, EvMessageComplete],
        int (length buf), q)),
     e_parser_init = (), e_url = (\<lambda>_ _. Some demo_url), e_handler = (\<lambda>_ _. h)\<rparr>"

lemmas demo_defs = demo_env_def demo_info_def demo_url_def demo_callback_def root_template_def

lemma demo_route:
  "route (e_rx (demo_env h)) (plugin_at (e_routers (demo_env h)) 0) ''GET'' ''/'' =
     [(demo_callback, [])]"
  by (simp add: route_def callbacksMap_def getCallbacksByMethod_def demo_defs matchUri_def
      smatch_str_def call_order_def push_callback_def)

text \<open>The request of the demo after its message is complete.\<close>

definition demo_request :: "unit server_request" where
  "demo_request = ServerRequest\<lparr>httpMajor := 1, httpMinor := 1, meth := 1,
     url := \<lparr>url_handle = demo_url, url_buf = ''/''\<rparr>, messageComplete := True,
     req_complete := True, parser := Some ()\<rparr>"

lemma demo_parse:
  "run_events (e_url (demo_env h)) onMessageComplete
     [EvUrl ''/'', EvHeadersComplete demo_info, EvMessageComplete]
     (ServerRequest\<lparr>parser := Some ()\<rparr>) = (Inr (), demo_request)"
  by (simp add: run_events_def run_event_def on_url_def url_parse_def on_headers_complete_def
      on_message_complete_def onMessageComplete_def exec_simps demo_defs demo_request_def
      ServerRequest_def empty_url_def)

lemma demo_extract:
  "extract_uri (e_rx (demo_env h)) [] root_template ''/'' False empty_value =
     (Inr True, UVal [] ''/'' [])"
  by (simp add: extract_uri_def extractAndSaveValues_def saveValues.simps saveLoop.simps
      demo_defs smatch_str_def setString_def empty_value_def)

definition demo_accepted :: "unit conn" where
  "demo_accepted = ServerConnection\<lparr>c_request := Some ServerRequest, c_reading := True\<rparr>"

definition demo_called :: "handler \<Rightarrow> unit conn" where
  "demo_called h = demo_accepted
     \<lparr>c_request := Some (demo_request\<lparr>uriTemplateValues := UVal [] ''/'' []\<rparr>),
      c_events := [RequestReceived],
      c_chains := [\<lparr>ch_acts = h_async h, ch_res = h_res h, ch_rest = []\<rparr>]\<rparr>"

lemma demo_process:
  assumes "h_sync h = []" and "h_throw h = None"
  shows "processRequest (demo_env h) (demo_accepted\<lparr>c_request := Some demo_request\<rparr>) =
    (Inr (), demo_called h)"
proof -
  have p: "url_path (url demo_request) = Inr ''/''" "uriTemplateValues demo_request = empty_value"
    by (simp_all add: demo_request_def url_path_def has_def url_field_text_def substr_def demo_url_def
        ServerRequest_def)
  have e: "e_depth (demo_env h) = Suc 0" "e_root (demo_env h) = 0" "e_formats (demo_env h) = []"
      "e_method_str (demo_env h) n = ''GET''" "e_handler (demo_env h) k q = h" for n k q
    by (simp_all add: demo_env_def)
  show ?thesis
    using assms p e demo_route [of h] demo_extract [of h]
    by (simp add: processRequest_def thenM_def bindM_def modM_def getRequest_def execute.simps
        execute_loop_def extract_into_def callback_execute.simps call_function_def retM_def
        demo_called_def demo_accepted_def ServerConnection_def demo_callback_def)
qed

lemma demo_start: "accepted demo_accepted"
  by (simp add: accepted_def parse_connection_def exec_simps getRequest_def ServerConnection_def demo_accepted_def)

lemma demo_on_read:
  assumes "h_sync h = []" and "h_throw h = None"
  shows "on_read (demo_env h) (ReadData ''x'') demo_accepted = (Inr (), demo_called h)"
proof -
  have "request_parse (demo_env h) ''x'' demo_accepted =
      (Inr 1, demo_accepted\<lparr>c_request := Some demo_request\<rparr>)"
    using demo_parse [of h]
    by (simp add: request_parse_def bindM_def getRequest_def demo_accepted_def demo_env_def
        ServerRequest_def)
  moreover have "\<not> upgrade demo_request" "messageComplete demo_request"
    by (simp_all add: demo_request_def ServerRequest_def)
  ultimately show ?thesis
    using demo_process [OF assms]
    by (simp add: on_read_def bindM_def thenM_def getRequest_def retM_def)
qed

lemma demo_read:
  assumes "h_sync h = []" and "h_throw h = None"
  shows "conn_reach (demo_env h) (demo_called h)"
proof (rule conns.more [OF conns.first [OF demo_start] conn_step.read [OF _ _ demo_on_read [OF assms]]])
qed (simp_all add: demo_accepted_def ServerConnection_def)

definition demo_handler :: "act list \<Rightarrow> handler" where
  "demo_handler as = \<lparr>h_sync = [], h_throw = None, h_async = as, h_res = None\<rparr>"

lemma response_end_new:
  "c_response c = None \<Longrightarrow> c_request c = Some q \<Longrightarrow> endData d (ServerResponse q) = (Inr (), r') \<Longrightarrow>
     response_end d c = (Inr (), c\<lparr>c_response := Some (r'\<lparr>wire := []\<rparr>),
       c_out := c_out c @ map wire_text (wire r'), c_pend := Suc (c_pend c),
       c_calls := c_calls c @ map CallWrite (map wire_text (wire r'))\<rparr>)"
  by (simp add: response_end_def getResponse_def getRequest_def bindM_def del: map_map)

lemma chain_turn_end:
  "c_chains c = [\<lparr>ch_acts = AEnd d # as, ch_res = x, ch_rest = y\<rparr>] \<Longrightarrow>
     response_end d c = (Inr (), c') \<Longrightarrow> c_chains c' = c_chains c \<Longrightarrow>
     chain_turn E 0 c = (Inr (), c'\<lparr>c_chains := [\<lparr>ch_acts = as, ch_res = x, ch_rest = y\<rparr>]\<rparr>)"
  by (simp add: chain_turn_def chain_next_def act_step_def thenM_def bindM_def set_chain_def modM_def)

text \<open>After the handler's first act, \<open>end\<close>.\<close>

lemma demo_turn:
  "\<exists>c r t. chain_turn (demo_env (demo_handler (AEnd ''hi'' # as))) 0 (demo_called (demo_handler (AEnd ''hi'' # as))) =
       (Inr (), c) \<and> c_pend c = 1 \<and> c_calls c = [CallWrite t] \<and> c_response c = Some r \<and> shouldKeepAlive r \<and>
     c_chains c = [\<lparr>ch_acts = as, ch_res = None, ch_rest = []\<rparr>]"
proof -
  let ?h = "demo_handler (AEnd ''hi'' # as)"
  let ?c = "demo_called ?h"
  define q where "q = demo_request\<lparr>uriTemplateValues := UVal [] ''/'' []\<rparr>"
  obtain r' t where e: "endData ''hi'' (ServerResponse q) = (Inr (), r')"
      "map wire_text (wire r') = [t]"
    using resp_ok_end [of "ServerResponse q" "''hi''"] by auto
  have k: "shouldKeepAlive r'"
    using endData_keepAlive [OF e(1)]
    by (simp add: ServerResponse_def OutgoingMessage_from_def setHeader_def keepAlive_of_def)
  define c' where "c' = ?c\<lparr>c_response := Some (r'\<lparr>wire := []\<rparr>), c_out := [t], c_pend := 1, c_calls := [CallWrite t],
    c_chains := [\<lparr>ch_acts = as, ch_res = None, ch_rest = []\<rparr>]\<rparr>"
  have c: "c_response ?c = None" "c_request ?c = Some q" "c_out ?c = []" "c_pend ?c = 0" "c_calls ?c = []"
    "c_chains ?c = [\<lparr>ch_acts = AEnd ''hi'' # as, ch_res = None, ch_rest = []\<rparr>]"
    by (simp_all add: demo_called_def demo_accepted_def ServerConnection_def q_def demo_handler_def)
  have "chain_turn (demo_env ?h) 0 ?c = (Inr (), c')"
    using chain_turn_end [OF c(6) response_end_new [OF c(1,2) e(1)]] c(3-5) e(2)
    by (simp add: c'_def del: map_map)
  then show ?thesis
    using k by (intro exI [of _ c'] exI [of _ "r'\<lparr>wire := []\<rparr>"] exI [of _ t])
      (simp add: c'_def demo_called_def demo_accepted_def ServerConnection_def)
qed

lemma demo_ended:
  "\<exists>c r. conn_reach (demo_env (demo_handler (AEnd ''hi'' # as))) c \<and> c_pend c = 1 \<and>
     c_response c = Some r \<and> shouldKeepAlive r \<and>
     c_chains c = [\<lparr>ch_acts = as, ch_res = None, ch_rest = []\<rparr>]"
proof -
  let ?h = "demo_handler (AEnd ''hi'' # as)"
  let ?c = "demo_called ?h"
  obtain c r where c: "chain_turn (demo_env ?h) 0 ?c = (Inr (), c)" "c_pend c = 1" "c_response c = Some r" "shouldKeepAlive r"
    "c_chains c = [\<lparr>ch_acts = as, ch_res = None, ch_rest = []\<rparr>]"
    using demo_turn [of as] by blast
  have "conn_reach (demo_env ?h) ?c" by (rule demo_read) (simp_all add: demo_handler_def)
  moreover have "0 < length (c_chains ?c)" "\<not> (waits (c_chains ?c ! 0) \<and> 0 < c_pend ?c)"
    by (simp_all add: demo_called_def demo_accepted_def ServerConnection_def)
  ultimately have "conn_reach (demo_env ?h) c" using c(1) by (blast intro: conns.more conn_step.turn)
  with c show ?thesis by blast
qed

theorem completion_finds_response_witness:
  "\<exists>c c'. conn_reach (demo_env (demo_handler [AEnd ''hi''])) c \<and> write_done None c = (Inr (), c')"
proof -
  obtain c where "conn_reach (demo_env (demo_handler [AEnd ''hi''])) c" "c_pend c = 1"
    using demo_ended [of "[]"] by blast
  then show ?thesis using completion_finds_response [of _ c] by force
qed


theorem awaited_end_is_answered_twice_witness:
  "\<exists>c c1 c2 c3 t. conn_reach (demo_env (demo_handler [AEnd ''hi'', AAwaitSent])) c \<and>
     write_done None c = (Inr (), c1) \<and>
     chain_turn (demo_env (demo_handler [AEnd ''hi'', AAwaitSent])) 0 c1 = (Inr (), c2) \<and>
     chain_turn (demo_env (demo_handler [AEnd ''hi'', AAwaitSent])) 0 c2 = (Inr (), c3) \<and>
     c_out c3 = c_out c @ [t]"
proof -
  obtain c r where c: "conn_reach (demo_env (demo_handler [AEnd ''hi'', AAwaitSent])) c" "c_pend c = 1"
      "c_response c = Some r" "shouldKeepAlive r"
      "c_chains c = [\<lparr>ch_acts = [AAwaitSent], ch_res = None, ch_rest = []\<rparr>]"
    using demo_ended [of "[AAwaitSent]"] by blast
  from awaited_end_is_answered_twice [OF conns.always [OF c(1)] c(2-5),
      of "demo_env (demo_handler [AEnd ''hi'', AAwaitSent])"] c(1)
  show ?thesis by blast
qed

definition throwing :: handler where
  "throwing = \<lparr>h_sync = [], h_throw = Some ''boom'', h_async = [], h_res = None\<rparr>"

lemma first_callback_exception_escapes_example:
  "\<exists>c'. processRequest (demo_env throwing) (demo_accepted\<lparr>c_request := Some demo_request\<rparr>) =
     (Inl (FutureExn ''boom''), c')"
proof -
  have p: "url_path (url demo_request) = Inr ''/''" "uriTemplateValues demo_request = empty_value"
    by (simp_all add: demo_request_def url_path_def has_def url_field_text_def substr_def demo_url_def
        ServerRequest_def)
  have e: "e_depth (demo_env throwing) = Suc 0" "e_root (demo_env throwing) = 0"
    "e_formats (demo_env throwing) = []" "e_method_str (demo_env throwing) n = ''GET''"
    "\<And>x. e_handler (demo_env throwing) 7 x = throwing" for n
    by (simp_all add: demo_env_def)
  have d: "uri demo_callback = root_template" "target demo_callback = ToFunction 7"
    by (simp_all add: demo_callback_def)
  show ?thesis
    using first_callback_exception_escapes [of "demo_accepted\<lparr>c_request := Some demo_request\<rparr>"
        demo_request "''/''" "demo_env throwing" 0 demo_callback "[]" "[]" True
        "UVal [] ''/'' []" 7 "''boom''"] p e d demo_route [of throwing] demo_extract [of throwing]
    by (auto simp: throwing_def)
qed

end
