(* ===== verification/Timeouts.thy ===== *)
theory Timeouts
  imports Prelude "HOL-Library.Word" "HOL-Library.Multiset"
begin

text \<open>
  The timeouts of the HTTP server: the file-local \<open>TimeoutEntry\<close> and \<open>LoopTimeoutEntries\<close> of
  \<open>src/http/Server.cpp\<close>. Connections are
  named by numbers, a weak pointer to one is its number and \<open>alive\<close> tells which are not
  expired. Times are \<open>uint64_t\<close> milliseconds, which wrap around. The calls the code makes of a
  timer are recorded in order; the static list of the entries of all loops is part of the state.
\<close>

section \<open>Timeout entries\<close>

type_synonym msecs = "64 word"

record timeout_entry =
  te_conn :: nat
  te_endTime :: msecs

datatype timer_call =
    TimerStart msecs msecs
  | TimerStop
  | TimerSetRepeat msecs
  | TimerClose

record loop_entries =
  le_loop :: nat
  le_timer :: "timer_call list"
  le_entries :: "timeout_entry list"

text \<open>\<open>setTime\<close>.\<close>

definition deadline :: "msecs \<Rightarrow> msecs \<Rightarrow> msecs" where
  "deadline now seconds = now + seconds * 1000"

definition timer_calls :: "timer_call list \<Rightarrow> loop_entries \<Rightarrow> loop_entries" where
  "timer_calls cs L = L\<lparr>le_timer := le_timer L @ cs\<rparr>"

definition wait_until :: "msecs \<Rightarrow> timeout_entry \<Rightarrow> msecs" where
  "wait_until now e = (if now < te_endTime e then te_endTime e - now else 1000)"

definition insert_pos :: "timeout_entry \<Rightarrow> timeout_entry list \<Rightarrow> nat" where
  "insert_pos e es = length (takeWhile (\<lambda>x. te_endTime x < te_endTime e) es)"

definition insertConnection :: "msecs \<Rightarrow> timeout_entry \<Rightarrow> loop_entries \<Rightarrow> loop_entries" where
  "insertConnection now e L =
     (let es = le_entries L; it = insert_pos e es;
          L' = (if es \<noteq> [] \<and> it = 0
                then timer_calls [TimerStop, TimerStart (wait_until now e) 1000] L else L)
      in L'\<lparr>le_entries := take it es @ e # drop it es\<rparr>)"

text \<open>\<open>FindOrCreateEntry\<close>: the index of the loop's entries in the static list.\<close>

definition new_entries :: "nat \<Rightarrow> loop_entries" where
  "new_entries loop = \<lparr>le_loop = loop, le_timer = [TimerStart 0 1000], le_entries = []\<rparr>"

fun find_loop :: "nat \<Rightarrow> loop_entries list \<Rightarrow> nat option" where
  "find_loop l [] = None"
| "find_loop l (x # xs) = (if le_loop x = l then Some 0 else map_option Suc (find_loop l xs))"

definition FindOrCreateEntry :: "nat \<Rightarrow> loop_entries list \<Rightarrow> nat \<times> loop_entries list" where
  "FindOrCreateEntry l S = (case find_loop l S of
     Some i \<Rightarrow> (i, S) | None \<Rightarrow> (length S, S @ [new_entries l]))"

definition AddConnection :: "msecs \<Rightarrow> msecs \<Rightarrow> nat \<Rightarrow> nat \<Rightarrow> loop_entries list \<Rightarrow> loop_entries list" where
  "AddConnection now seconds l c S =
     (case FindOrCreateEntry l S of (i, S') \<Rightarrow>
        S'[i := insertConnection now \<lparr>te_conn = c, te_endTime = deadline now seconds\<rparr> (S' ! i)])"

text \<open>\<open>RestartTime\<close>: the entry found is changed in place, a copy of it is inserted, and then it is
erased from where it was.\<close>

fun find_conn :: "(nat \<Rightarrow> bool) \<Rightarrow> nat \<Rightarrow> timeout_entry list \<Rightarrow> nat option" where
  "find_conn alive c [] = None"
| "find_conn alive c (e # es) =
     (if alive (te_conn e) \<and> te_conn e = c then Some 0 else map_option Suc (find_conn alive c es))"

definition remove_nth :: "nat \<Rightarrow> 'a list \<Rightarrow> 'a list" where
  "remove_nth k xs = take k xs @ drop (Suc k) xs"

definition restart_entry :: "msecs \<Rightarrow> msecs \<Rightarrow> nat \<Rightarrow> loop_entries \<Rightarrow> loop_entries" where
  "restart_entry now seconds k L =
     (let e = (le_entries L ! k)\<lparr>te_endTime := deadline now seconds\<rparr>;
          L1 = L\<lparr>le_entries := (le_entries L)[k := e]\<rparr>;
          L2 = insertConnection now e L1;
          k' = (if insert_pos e (le_entries L1) \<le> k then Suc k else k)
      in L2\<lparr>le_entries := remove_nth k' (le_entries L2)\<rparr>)"

definition RestartTime ::
  "(nat \<Rightarrow> bool) \<Rightarrow> msecs \<Rightarrow> msecs \<Rightarrow> nat \<Rightarrow> nat \<Rightarrow> loop_entries list \<Rightarrow> loop_entries list" where
  "RestartTime alive now seconds l c S =
     (case FindOrCreateEntry l S of (i, S') \<Rightarrow>
        (case find_conn alive c (le_entries (S' ! i)) of
           None \<Rightarrow> S' | Some k \<Rightarrow> S'[i := restart_entry now seconds k (S' ! i)]))"

text \<open>The end of \<open>RemoveConnection\<close> and of the timer's callback: without entries the timer is
closed and the loop leaves the static list.\<close>

definition drop_if_empty :: "nat \<Rightarrow> loop_entries \<Rightarrow> loop_entries list \<Rightarrow> loop_entries list" where
  "drop_if_empty i L S = (if le_entries L = [] then remove_nth i S else S[i := L])"

definition RemoveConnection :: "(nat \<Rightarrow> bool) \<Rightarrow> nat \<Rightarrow> nat \<Rightarrow> loop_entries list \<Rightarrow> loop_entries list" where
  "RemoveConnection alive l c S =
     (case FindOrCreateEntry l S of (i, S') \<Rightarrow>
        drop_if_empty i ((S' ! i)\<lparr>le_entries :=
          filter (\<lambda>e. \<not> (\<not> alive (te_conn e) \<or> te_conn e = c)) (le_entries (S' ! i))\<rparr>) S')"

definition purge :: "(nat \<Rightarrow> bool) \<Rightarrow> msecs \<Rightarrow> timeout_entry list \<Rightarrow> timeout_entry list" where
  "purge alive now = dropWhile (\<lambda>e. \<not> alive (te_conn e) \<or> te_endTime e \<le> now)"

text \<open>The callback of the timer of the entries at \<open>i\<close>.\<close>

definition on_timeout :: "(nat \<Rightarrow> bool) \<Rightarrow> msecs \<Rightarrow> nat \<Rightarrow> loop_entries list \<Rightarrow> loop_entries list" where
  "on_timeout alive now i S =
     (let L = S ! i; es = purge alive now (le_entries L) in
      drop_if_empty i
        (case es of [] \<Rightarrow> L\<lparr>le_entries := []\<rparr>
         | e # _ \<Rightarrow> timer_calls [TimerSetRepeat (wait_until now e)] (L\<lparr>le_entries := es\<rparr>)) S)"

section \<open>The order of the entries\<close>

definition by_deadline :: "timeout_entry list \<Rightarrow> bool" where
  "by_deadline es \<longleftrightarrow> sorted (map te_endTime es)"

lemma insert_entries:
  "le_entries (insertConnection now e L) =
     takeWhile (\<lambda>x. te_endTime x < te_endTime e) (le_entries L) @ e #
     dropWhile (\<lambda>x. te_endTime x < te_endTime e) (le_entries L)"
  by (simp add: insertConnection_def Let_def insert_pos_def timer_calls_def
      takeWhile_eq_take [symmetric] dropWhile_eq_drop [symmetric])

lemma dropWhile_ge:
  "by_deadline es \<Longrightarrow> x \<in> set (dropWhile (\<lambda>x. te_endTime x < t) es) \<Longrightarrow> t \<le> te_endTime x"
  by (induction es) (auto simp: by_deadline_def not_less split: if_splits intro: order_trans)

lemma insert_sorted: "by_deadline (le_entries L) \<Longrightarrow> by_deadline (le_entries (insertConnection now e L))"
proof -
  assume s: "by_deadline (le_entries L)"
  let ?P = "\<lambda>x. te_endTime x < te_endTime e"
  have parts: "sorted (map te_endTime (takeWhile ?P (le_entries L)))"
      "sorted (map te_endTime (dropWhile ?P (le_entries L)))"
      "\<forall>x \<in> set (takeWhile ?P (le_entries L)). ?P x"
    using s sorted_append [of "map te_endTime (takeWhile ?P (le_entries L))"
        "map te_endTime (dropWhile ?P (le_entries L))"]
    by (simp_all add: by_deadline_def flip: map_append) (auto dest: set_takeWhileD)
  have ge: "\<forall>x \<in> set (dropWhile ?P (le_entries L)). te_endTime e \<le> te_endTime x"
    using dropWhile_ge [OF s] by blast
  show ?thesis
    unfolding insert_entries by_deadline_def
    using parts ge by (fastforce simp: sorted_append intro: less_imp_le order_trans)
qed

lemma mset_take_drop: "mset (takeWhile P xs) + mset (dropWhile P xs) = mset xs"
  by (metis mset_append takeWhile_dropWhile_id)

lemma insert_mset: "mset (le_entries (insertConnection now e L)) = add_mset e (mset (le_entries L))"
  unfolding insert_entries by (simp add: mset_take_drop)

text \<open>What \<open>RestartTime\<close> makes of the list: the entry moves forward to its place, or stays.\<close>

definition restarted :: "msecs \<Rightarrow> msecs \<Rightarrow> timeout_entry \<Rightarrow> timeout_entry" where
  "restarted now seconds e = e\<lparr>te_endTime := deadline now seconds\<rparr>"

lemma restart_entries:
  fixes L now seconds k
  defines "es \<equiv> le_entries L"
  defines "e \<equiv> restarted now seconds (es ! k)"
  assumes k: "k < length es"
  shows "le_entries (restart_entry now seconds k L) =
    takeWhile (\<lambda>x. te_endTime x < te_endTime e) (take k es) @ e #
    dropWhile (\<lambda>x. te_endTime x < te_endTime e) (take k es) @ drop (Suc k) es"
proof -
  let ?es1 = "es[k := e]"
  define p where "p = insert_pos e ?es1"
  have es1: "?es1 = take k es @ e # drop (Suc k) es" using k by (rule upd_conv_take_nth_drop)
  have p: "p = length (takeWhile (\<lambda>x. te_endTime x < te_endTime e) (take k es))"
    by (simp add: p_def insert_pos_def es1 takeWhile_tail)
  have pk: "p \<le> k" using length_takeWhile_le [of _ "take k es"] p k by (metis length_take min.bounded_iff)
  have parts: "take p (take k es) = takeWhile (\<lambda>x. te_endTime x < te_endTime e) (take k es)"
    "drop p (take k es) = dropWhile (\<lambda>x. te_endTime x < te_endTime e) (take k es)"
    unfolding p by (simp_all only: takeWhile_eq_take [symmetric] dropWhile_eq_drop [symmetric])
  have "le_entries (restart_entry now seconds k L) = remove_nth (Suc k) (take p ?es1 @ e # drop p ?es1)"
    using pk by (simp add: restart_entry_def Let_def insertConnection_def timer_calls_def es_def e_def
        p_def restarted_def)
  also have "\<dots> = take p ?es1 @ e # remove_nth (k - p) (drop p ?es1)"
    using pk k by (simp add: remove_nth_def Suc_diff_le)
  also have "remove_nth (k - p) (drop p ?es1) = drop p (take k es) @ drop (Suc k) es"
    using pk k by (simp add: remove_nth_def take_drop drop_drop)
  also have "take p ?es1 = take p (take k es)" using pk by (simp add: min_absorb1)
  finally show ?thesis by (simp only: parts)
qed

lemma by_deadline_parts:
  "by_deadline (xs @ ys) \<longleftrightarrow> by_deadline xs \<and> by_deadline ys \<and>
     (\<forall>x \<in> set xs. \<forall>y \<in> set ys. te_endTime x \<le> te_endTime y)"
  by (auto simp: by_deadline_def sorted_append)

lemma by_deadline_Cons:
  "by_deadline (e # es) \<longleftrightarrow> (\<forall>y \<in> set es. te_endTime e \<le> te_endTime y) \<and> by_deadline es"
  by (auto simp: by_deadline_def)

text \<open>C23. Restarting the time of a connection keeps the entries in the order of their deadlines exactly
when the new deadline is not later than that of any entry behind it: \<open>RestartTime\<close> inserts
before it erases, and the search for the place stops at the entry itself, so an entry is
never moved back.\<close>

theorem restart_order:
  assumes s: "by_deadline (le_entries L)" and k: "k < length (le_entries L)"
  shows "by_deadline (le_entries (restart_entry now seconds k L)) \<longleftrightarrow>
    (\<forall>x \<in> set (drop (Suc k) (le_entries L)). deadline now seconds \<le> te_endTime x)"
proof -
  define es where "es = le_entries L"
  define e where "e = restarted now seconds (es ! k)"
  define P where "P = (\<lambda>x :: timeout_entry. te_endTime x < te_endTime e)"
  have e: "te_endTime e = deadline now seconds" by (simp add: e_def restarted_def)
  have split: "by_deadline (take k es)" "by_deadline (drop (Suc k) es)"
    "\<forall>x \<in> set (take k es). \<forall>y \<in> set (drop (Suc k) es). te_endTime x \<le> te_endTime y"
    using s k id_take_nth_drop [of k es] by_deadline_parts [of "take k es" "es ! k # drop (Suc k) es"]
    by (auto simp: es_def by_deadline_Cons)
  have before: "by_deadline (takeWhile P (take k es))" "by_deadline (dropWhile P (take k es))"
    using split(1) by_deadline_parts [of "takeWhile P (take k es)" "dropWhile P (take k es)"] by simp_all
  have lt: "\<forall>x \<in> set (takeWhile P (take k es)). te_endTime x < te_endTime e"
    using set_takeWhileD by (fastforce simp: P_def)
  have ge: "\<forall>x \<in> set (dropWhile P (take k es)). te_endTime e \<le> te_endTime x"
    using dropWhile_ge [OF split(1)] by (simp add: P_def)
  have sub: "set (takeWhile P (take k es)) \<subseteq> set (take k es)" "set (dropWhile P (take k es)) \<subseteq> set (take k es)"
    by (auto dest: set_takeWhileD set_dropWhileD)
  have xy: "\<forall>x \<in> set (takeWhile P (take k es)). \<forall>y \<in> set (dropWhile P (take k es)).
      te_endTime x \<le> te_endTime y"
    using lt ge by (meson less_imp_le order_trans)
  have xz: "\<forall>x \<in> set (takeWhile P (take k es)). \<forall>y \<in> set (drop (Suc k) es). te_endTime x \<le> te_endTime y"
    and yz: "\<forall>x \<in> set (dropWhile P (take k es)). \<forall>y \<in> set (drop (Suc k) es). te_endTime x \<le> te_endTime y"
    using split(3) sub by blast+
  have xe: "\<forall>x \<in> set (takeWhile P (take k es)). te_endTime x \<le> te_endTime e"
    using lt by (simp add: less_imp_le)
  have "by_deadline (takeWhile P (take k es) @ e # dropWhile P (take k es) @ drop (Suc k) es) \<longleftrightarrow>
      (\<forall>x \<in> set (drop (Suc k) es). te_endTime e \<le> te_endTime x)"
    unfolding by_deadline_parts by_deadline_Cons set_append ball_Un
    using split(2) before ge xy xz yz xe by (simp add: ball_Un)
  then show ?thesis
    using restart_entries [OF k, of now seconds] by (simp add: es_def e_def P_def e [symmetric])
qed

text \<open>The timer's callback, on entries in the order of their deadlines, drops every entry that is
due and keeps every entry of a live connection that is not.\<close>

lemma purge_drops_due:
  assumes "by_deadline es"
  shows "(\<forall>x \<in> set (purge alive now es). now < te_endTime x) \<and>
    (\<forall>x \<in> set es. alive (te_conn x) \<and> now < te_endTime x \<longrightarrow> x \<in> set (purge alive now es)) \<and>
    by_deadline (purge alive now es)"
  using assms
proof (induction es)
  case (Cons e es)
  show ?case
  proof (cases "\<not> alive (te_conn e) \<or> te_endTime e \<le> now")
    case True
    then have "purge alive now (e # es) = purge alive now es" by (auto simp: purge_def)
    with True Cons show ?thesis by (auto simp: by_deadline_Cons)
  next
    case False
    then have "purge alive now (e # es) = e # es" by (simp add: purge_def)
    moreover have "\<forall>x \<in> set (e # es). now < te_endTime x"
      using False Cons.prems by (auto simp: by_deadline_Cons not_le intro: less_le_trans)
    ultimately show ?thesis using Cons.prems by simp
  qed
qed (simp add: purge_def by_deadline_def)

text \<open>Two connections, due at 10 and 20.\<close>

definition two_entries :: loop_entries where
  "two_entries = \<lparr>le_loop = 0, le_timer = [],
     le_entries = [\<lparr>te_conn = 1, te_endTime = 10000\<rparr>, \<lparr>te_conn = 2, te_endTime = 20000\<rparr>]\<rparr>"

theorem restart_order_witness:
  "\<not> by_deadline (le_entries (restart_entry 5000 25 0 two_entries))"
proof -
  have "by_deadline (le_entries two_entries)" "0 < length (le_entries two_entries)"
    by (simp_all add: two_entries_def by_deadline_def)
  from restart_order [OF this, of 5000 25] show ?thesis
    by (simp add: two_entries_def deadline_def)
qed

lemma purge_drops_due_example:
  "set (purge (\<lambda>_. True) 15000 (le_entries two_entries)) = {\<lparr>te_conn = 2, te_endTime = 20000\<rparr>}"
proof -
  have "by_deadline (le_entries two_entries)" by (simp add: two_entries_def by_deadline_def)
  from purge_drops_due [OF this, of "\<lambda>_. True" 15000] show ?thesis
    by (auto simp: two_entries_def purge_def)
qed

text \<open>A connection that is restarted with a later deadline protects every connection behind it:
those are not dropped at their own deadlines, but only once the restarted one is due.\<close>

lemma restart_delays_others:
  assumes k: "k < length (le_entries L)" and x: "x \<in> set (drop (Suc k) (le_entries L))"
    and later: "\<forall>y \<in> set (take k (le_entries L)). te_endTime y < deadline now seconds"
    and t: "t < deadline now seconds" and a: "alive (te_conn (le_entries L ! k))"
  shows "x \<in> set (purge alive t (le_entries (restart_entry now seconds k L)))"
proof -
  let ?es = "le_entries L"
  let ?e = "restarted now seconds (?es ! k)"
  have e: "te_endTime ?e = deadline now seconds" "te_conn ?e = te_conn (?es ! k)"
    by (simp_all add: restarted_def)
  have "le_entries (restart_entry now seconds k L) = take k ?es @ ?e # drop (Suc k) ?es"
    using restart_entries [OF k, of now seconds] later by (simp add: e)
  moreover have "x \<in> set (purge alive t (ys @ ?e # drop (Suc k) ?es))" for ys
    using t a e x by (induction ys) (auto simp: purge_def)
  ultimately show ?thesis by simp
qed

lemma restart_delays_others_example:
  "\<lparr>te_conn = 2, te_endTime = 20000\<rparr> \<in>
     set (purge (\<lambda>_. True) 29000 (le_entries (restart_entry 5000 25 0 two_entries)))"
  by (rule restart_delays_others) (simp_all add: two_entries_def deadline_def)

section \<open>Deadlines stay in range\<close>

text \<open>As long as the clock and the timeout do not overflow 64 bits, a deadline is the time plus
the timeout, and the timer is started with exactly the timeout.\<close>

lemma deadline_exact:
  assumes "unat now + unat seconds * 1000 < 2 ^ 64" and "seconds \<noteq> 0"
  shows "unat (deadline now seconds) = unat now + unat seconds * 1000 \<and>
    wait_until now \<lparr>te_conn = c, te_endTime = deadline now seconds\<rparr> = seconds * 1000"
proof -
  have m: "unat (seconds * 1000) = unat seconds * 1000"
    using assms(1) by (subst unat_mult_lem [THEN iffD1]) simp_all
  then have d: "unat (deadline now seconds) = unat now + unat seconds * 1000"
    unfolding deadline_def using assms(1) by (subst unat_add_lem [THEN iffD1]) simp_all
  moreover have "0 < unat seconds" using assms(2) by (simp add: unat_gt_0)
  ultimately have "now < deadline now seconds" by (simp add: word_less_nat_alt)
  with d show ?thesis by (simp add: wait_until_def) (simp add: deadline_def)
qed

lemma deadline_exact_example:
  "unat (deadline 1000 30) = 31000"
  using deadline_exact [of 1000 30] by simp

end
