(* ===== verification/TimeoutTable.thy ===== *)
theory TimeoutTable
  imports Timeouts
begin

text \<open>
  The contract between the server and the timeouts of its connections: whatever order
  connections come, restart, go and run out in, the table has entries of connections the server
  holds only, and one for each at most. \<open>Server\<close> rests on the interpretation of the contract on
  the entries of \<open>src/http/Server.cpp\<close>.
\<close>

section \<open>The contract\<close>

text \<open>\<open>cs\<close> are the connections that the server holds, \<open>t\<close> is the table.\<close>

locale timeout_table =
  fixes valid :: "nat list \<Rightarrow> 't \<Rightarrow> bool"
    and entries :: "'t \<Rightarrow> nat set"
    and timers :: "'t \<Rightarrow> nat"
    and empty :: 't
    and add :: "msecs \<Rightarrow> msecs \<Rightarrow> nat \<Rightarrow> 't \<Rightarrow> 't"
    and restart :: "(nat \<Rightarrow> bool) \<Rightarrow> msecs \<Rightarrow> msecs \<Rightarrow> nat \<Rightarrow> 't \<Rightarrow> 't"
    and remove :: "(nat \<Rightarrow> bool) \<Rightarrow> nat \<Rightarrow> 't \<Rightarrow> 't"
    and fire :: "(nat \<Rightarrow> bool) \<Rightarrow> msecs \<Rightarrow> nat \<Rightarrow> 't \<Rightarrow> 't"
  assumes none: "valid cs empty"
    and held: "valid cs t \<Longrightarrow> entries t \<subseteq> set cs"
    and adds: "valid cs t \<Longrightarrow> n \<notin> set cs \<Longrightarrow> valid (cs @ [n]) (add now d n t)"
    and restarts: "valid cs t \<Longrightarrow> valid cs (restart alive now d n t)"
    and removes: "valid cs t \<Longrightarrow> valid (filter (\<lambda>m. m \<noteq> n) cs) (remove alive n t)"
    and fires: "valid cs t \<Longrightarrow> i < timers t \<Longrightarrow> valid cs (fire alive now i t)"
begin

lemma not_held: "valid cs t \<Longrightarrow> n \<notin> set cs \<Longrightarrow> n \<notin> entries t"
  using held by blast

lemma removed: "valid cs t \<Longrightarrow> n \<notin> entries (remove alive n t)"
  by (rule not_held [OF removes]) simp_all

text \<open>A connection that is gone does not come back with the events of others.\<close>

lemma stays_removed:
  assumes "valid cs t"
  shows "n \<notin> entries (restart alive' now d m (remove alive n t))"
    "n \<notin> entries (remove alive' m (remove alive n t))"
    "i < timers (remove alive n t) \<Longrightarrow> n \<notin> entries (fire alive' now i (remove alive n t))"
  by (rule not_held [OF restarts [OF removes [OF assms]]], simp)
    (rule not_held [OF removes [OF removes [OF assms]]], simp,
     rule not_held [OF fires [OF removes [OF assms]]], simp_all)

end

section \<open>The entries of a loop\<close>

definition conns_of :: "loop_entries \<Rightarrow> nat list" where
  "conns_of L = map te_conn (le_entries L)"

text \<open>Every entry belongs to one connection the server holds, and no connection has two.\<close>

definition entries_ok :: "nat list \<Rightarrow> nat \<Rightarrow> loop_entries \<Rightarrow> bool" where
  "entries_ok cs loop L \<longleftrightarrow> distinct (conns_of L) \<and> set (conns_of L) \<subseteq> set cs \<and> le_loop L = loop"

definition timeouts_ok :: "nat list \<Rightarrow> nat \<Rightarrow> loop_entries list \<Rightarrow> bool" where
  "timeouts_ok cs loop S \<longleftrightarrow> length S \<le> 1 \<and> (\<forall>L \<in> set S. entries_ok cs loop L)"

lemma timeouts_ok_cases:
  assumes "timeouts_ok cs loop S"
  obtains "S = []" | L where "S = [L]" and "entries_ok cs loop L"
  using assms by (cases S rule: list012_cases) (auto simp: timeouts_ok_def)

lemma find_or_create:
  assumes "timeouts_ok cs loop S"
  obtains L where "FindOrCreateEntry loop S = (0, [L])" and "entries_ok cs loop L"
    and "S = [L] \<or> S = [] \<and> L = new_entries loop"
proof (rule timeouts_ok_cases [OF assms])
  assume "S = []"
  then show ?thesis
    by (intro that [of "new_entries loop"])
      (simp_all add: FindOrCreateEntry_def entries_ok_def new_entries_def conns_of_def)
next
  fix L
  assume "S = [L]" and "entries_ok cs loop L"
  then show ?thesis
    by (intro that [of L]) (simp_all add: FindOrCreateEntry_def entries_ok_def)
qed

lemma timeouts_ok_single [simp]: "timeouts_ok cs loop [L] \<longleftrightarrow> entries_ok cs loop L"
  by (simp add: timeouts_ok_def)

lemma insert_conns: "mset (conns_of (insertConnection now e L)) = add_mset (te_conn e) (mset (conns_of L))"
  unfolding conns_of_def mset_map insert_mset by simp

lemma insert_loop [simp]: "le_loop (insertConnection now e L) = le_loop L"
  by (simp add: insertConnection_def Let_def timer_calls_def)

lemma add_ok:
  assumes "timeouts_ok cs loop S" and "n \<notin> set cs"
  shows "timeouts_ok (cs @ [n]) loop (AddConnection now t loop n S)"
proof -
  obtain L where L: "FindOrCreateEntry loop S = (0, [L])" "entries_ok cs loop L"
    using find_or_create [OF assms(1)] by blast
  let ?e = "\<lparr>te_conn = n, te_endTime = deadline now t\<rparr>"
  have m: "mset (conns_of (insertConnection now ?e L)) = mset (n # conns_of L)"
    by (simp add: insert_conns)
  have "distinct (n # conns_of L)" "set (n # conns_of L) \<subseteq> set (cs @ [n])"
    using L(2) assms(2) by (auto simp: entries_ok_def)
  then have "entries_ok (cs @ [n]) loop (insertConnection now ?e L)"
    using L(2) mset_eq_imp_distinct_iff [OF m] mset_eq_setD [OF m] by (simp add: entries_ok_def)
  then show ?thesis by (simp add: AddConnection_def L(1))
qed

lemma find_conn_bound: "find_conn alive c es = Some k \<Longrightarrow> k < length es"
  by (induction es arbitrary: k) (auto split: if_splits)

lemma restart_conns:
  assumes "k < length (le_entries L)"
  shows "mset (conns_of (restart_entry now t k L)) = mset (conns_of L)"
proof -
  let ?es = "le_entries L" and ?e = "restarted now t (le_entries L ! k)"
  let ?P = "\<lambda>x. te_endTime x < te_endTime ?e"
  have "mset (le_entries (restart_entry now t k L)) = mset (take k ?es @ ?e # drop (Suc k) ?es)"
    using mset_take_drop [of ?P "take k ?es"] unfolding restart_entries [OF assms]
    by (simp add: union_assoc [symmetric])
  moreover have "map te_conn (take k ?es @ ?e # drop (Suc k) ?es) = map te_conn ?es"
    by (subst (3) id_take_nth_drop [OF assms]) (simp add: restarted_def)
  ultimately show ?thesis unfolding conns_of_def by (metis mset_map)
qed

lemma restart_loop [simp]: "le_loop (restart_entry now t k L) = le_loop L"
  by (simp add: restart_entry_def Let_def)

lemma restart_ok:
  assumes "timeouts_ok cs loop S"
  shows "timeouts_ok cs loop (RestartTime alive now t loop n S)"
proof -
  obtain L where L: "FindOrCreateEntry loop S = (0, [L])" "entries_ok cs loop L"
    using find_or_create [OF assms] by blast
  show ?thesis
  proof (cases "find_conn alive n (le_entries L)")
    case None
    then show ?thesis using L by (simp add: RestartTime_def)
  next
    case (Some k)
    note m = restart_conns [OF find_conn_bound [OF Some], of now t]
    have "entries_ok cs loop (restart_entry now t k L)"
      using L(2) mset_eq_imp_distinct_iff [OF m] mset_eq_setD [OF m] by (simp add: entries_ok_def)
    then show ?thesis using L Some by (simp add: RestartTime_def)
  qed
qed

lemma filter_conns: "conns_of (L\<lparr>le_entries := filter (\<lambda>e. P (te_conn e)) (le_entries L)\<rparr>) = filter P (conns_of L)"
  by (simp add: conns_of_def filter_map o_def)

lemma remove_ok:
  assumes "timeouts_ok cs loop S"
  shows "timeouts_ok (filter (\<lambda>m. m \<noteq> n) cs) loop (RemoveConnection alive loop n S)"
proof -
  obtain L where L: "FindOrCreateEntry loop S = (0, [L])" "entries_ok cs loop L"
    using find_or_create [OF assms] by blast
  let ?L = "L\<lparr>le_entries := filter (\<lambda>e. \<not> (\<not> alive (te_conn e) \<or> te_conn e = n)) (le_entries L)\<rparr>"
  have "conns_of ?L = filter (\<lambda>m. \<not> (\<not> alive m \<or> m = n)) (conns_of L)" by (rule filter_conns)
  then have "entries_ok (filter (\<lambda>m. m \<noteq> n) cs) loop ?L" using L(2) by (auto simp: entries_ok_def)
  then show ?thesis
    by (simp add: RemoveConnection_def L(1) drop_if_empty_def remove_nth_def timeouts_ok_def)
qed

lemma purge_conns: "\<exists>xs. map te_conn es = xs @ map te_conn (purge alive now es)"
proof (intro exI)
  let ?P = "\<lambda>e. \<not> alive (te_conn e) \<or> te_endTime e \<le> now"
  have "map te_conn (takeWhile ?P es @ dropWhile ?P es) = map te_conn es"
    by (simp only: takeWhile_dropWhile_id)
  then show "map te_conn es = map te_conn (takeWhile ?P es) @ map te_conn (purge alive now es)"
    by (simp only: purge_def map_append)
qed

lemma timeout_ok:
  assumes "timeouts_ok cs loop S" and "i < length S"
  shows "timeouts_ok cs loop (on_timeout alive now i S)"
proof -
  obtain L where L: "S = [L]" "i = 0" "entries_ok cs loop L"
    using assms(2) timeouts_ok_cases [OF assms(1)]
    by (metis One_nat_def length_Cons less_Suc0 list.size(3) not_less_zero)
  obtain xs where "conns_of L = xs @ map te_conn (purge alive now (le_entries L))"
    using purge_conns by (metis conns_of_def)
  with L(3) have "entries_ok cs loop (L\<lparr>le_entries := purge alive now (le_entries L)\<rparr>)"
    by (auto simp: entries_ok_def) (auto simp: conns_of_def)
  then show ?thesis
    by (auto simp: L on_timeout_def Let_def drop_if_empty_def remove_nth_def timeouts_ok_def
        timer_calls_def entries_ok_def conns_of_def split: list.split)
qed

definition members :: "loop_entries list \<Rightarrow> nat set" where
  "members S = (\<Union>L \<in> set S. set (conns_of L))"

interpretation table: timeout_table "\<lambda>cs. timeouts_ok cs loop" members length "[]"
  "\<lambda>now d. AddConnection now d loop" "\<lambda>alive now d. RestartTime alive now d loop"
  "\<lambda>alive. RemoveConnection alive loop" on_timeout for loop
proof
  show "timeouts_ok cs loop []" for cs by (simp add: timeouts_ok_def)
  show "members S \<subseteq> set cs" if "timeouts_ok cs loop S" for cs S
    using that by (auto simp: timeouts_ok_def entries_ok_def members_def)
qed (rule add_ok restart_ok remove_ok timeout_ok; assumption)+

end
