(* ===== verification/Server.thy ===== *)
theory Server
  imports ConnectionProps TimeoutTable
begin

text \<open>
  The HTTP server: \<open>Server\<close> (\<open>src/http/Server.cpp\<close>, \<open>include/native/http/Server.hpp\<close>), its
  connections and their timeouts. A connection reports its events (a request received, a
  response sent, closed) to the callbacks \<open>createConnection\<close> installs; here the events of a
  step of the connection are handed to the server in order. Connections are numbered; a
  connection is alive while the server holds it.
\<close>

section \<open>State and operations\<close>

record 'p server =
  s_loop :: nat
  s_connections :: "nat list"
  s_conn :: "nat \<Rightarrow> 'p conn"
  s_errorCb :: bool
  s_errors :: "int list"
  s_idle :: msecs
  s_responseTimeout :: msecs
  s_timeouts :: "loop_entries list"
  s_listening :: bool

definition Server_Create :: "nat \<Rightarrow> 'p server" where
  "Server_Create loop = \<lparr>s_loop = loop, s_connections = [], s_conn = (\<lambda>_. ServerConnection),
     s_errorCb = False, s_errors = [], s_idle = 30, s_responseTimeout = 60, s_timeouts = [],
     s_listening = False\<rparr>"

definition setIdleConnectionTimeout :: "msecs \<Rightarrow> ('p server, unit) M" where
  "setIdleConnectionTimeout seconds =
     thenM (assertM (\<lambda>_. 0 < seconds) ''seconds > 0'') (modM (\<lambda>s. s\<lparr>s_idle := seconds\<rparr>))"

definition setResponseTimeout :: "msecs \<Rightarrow> ('p server, unit) M" where
  "setResponseTimeout seconds =
     thenM (assertM (\<lambda>_. 0 < seconds) ''seconds > 0'') (modM (\<lambda>s. s\<lparr>s_responseTimeout := seconds\<rparr>))"

definition server_onError :: "('p server, unit) M" where
  "server_onError = modM (\<lambda>s. s\<lparr>s_errorCb := True\<rparr>)"

definition server_error :: "int \<Rightarrow> ('p server, unit) M" where
  "server_error e s =
     (if s_errorCb s then (Inr (), s\<lparr>s_errors := s_errors s @ [e]\<rparr>)
      else (Inl (ErrorExn e []), s))"

definition alive_in :: "nat list \<Rightarrow> nat \<Rightarrow> bool" where
  "alive_in cs n \<longleftrightarrow> n \<in> set cs"

text \<open>The callbacks of \<open>createConnection\<close>. The closed connection is still held by the callback
when its entry is removed.\<close>

definition server_event :: "msecs \<Rightarrow> nat \<Rightarrow> conn_event \<Rightarrow> 'p server \<Rightarrow> 'p server" where
  "server_event now n ev s =
     (case ev of
        ConnClosed \<Rightarrow> s\<lparr>s_connections := filter (\<lambda>m. m \<noteq> n) (s_connections s),
          s_timeouts := RemoveConnection (alive_in (s_connections s)) (s_loop s) n (s_timeouts s)\<rparr>
      | RequestReceived \<Rightarrow> s\<lparr>s_timeouts :=
          RestartTime (alive_in (s_connections s)) now (s_responseTimeout s) (s_loop s) n (s_timeouts s)\<rparr>
      | ResponseSent \<Rightarrow> s\<lparr>s_timeouts :=
          RestartTime (alive_in (s_connections s)) now (s_idle s) (s_loop s) n (s_timeouts s)\<rparr>)"

text \<open>\<open>createConnection\<close>, then \<open>parse\<close>: the connection \<open>n\<close> is new.\<close>

definition createConnection :: "msecs \<Rightarrow> nat \<Rightarrow> ('p server, unit) M" where
  "createConnection now n s =
     (case parse_connection ServerConnection of
        (r, c) \<Rightarrow> (r, s\<lparr>s_connections := s_connections s @ [n], s_conn := (s_conn s)(n := c),
          s_timeouts := AddConnection now (s_idle s) (s_loop s) n (s_timeouts s)\<rparr>))"

text \<open>\<open>listen\<close>, given what \<open>bind\<close> and \<open>listen\<close> of the socket return; and the callback of the
socket for a new connection.\<close>

definition server_listen :: "bool \<Rightarrow> bool \<Rightarrow> ('p server, bool) M" where
  "server_listen bound listening s =
     (if \<not> bound then (Inr False, s)
      else if \<not> listening then (Inr False, s)
      else (Inr True, s\<lparr>s_listening := True\<rparr>))"

definition on_connection :: "int \<Rightarrow> msecs \<Rightarrow> nat \<Rightarrow> ('p server, unit) M" where
  "on_connection e now n = (if e < 0 then server_error e else createConnection now n)"

text \<open>\<open>close\<close>: every connection is closed, then the listening socket.\<close>

definition server_close :: "'p server \<Rightarrow> 'p server" where
  "server_close s =
     s\<lparr>s_conn := (\<lambda>n. if n \<in> set (s_connections s) then snd (close (s_conn s n)) else s_conn s n),
       s_listening := False\<rparr>"

text \<open>The callback of \<open>ServerConnection::close\<close>. It has a weak pointer to the connection: when the server
has let go of it and no callback that a chain still waits for has it, the pointer is null.\<close>

definition on_connection_closed :: "msecs \<Rightarrow> nat \<Rightarrow> ('p server, unit) M" where
  "on_connection_closed now n s =
     (if n \<in> set (s_connections s) \<or> c_chains (s_conn s n) \<noteq> []
      then (case close_callback (s_conn s n) of
          (r, c) \<Rightarrow> (r, server_event now n ConnClosed (s\<lparr>s_conn := (s_conn s)(n := c)\<rparr>)))
      else (Inl null_deref, s))"

text \<open>The events a step of a connection adds.\<close>

definition new_events :: "'p conn \<Rightarrow> 'p conn \<Rightarrow> conn_event list" where
  "new_events c c' = drop (length (c_events c)) (c_events c')"

inductive server_step :: "'p cenv \<Rightarrow> 'p server \<Rightarrow> 'p server \<Rightarrow> bool" for E where
  accept: "s_listening s \<Longrightarrow> n \<notin> set (s_connections s) \<Longrightarrow>
    on_connection e now n s = (Inr (), s') \<Longrightarrow> server_step E s s'"
| connection: "n \<in> set (s_connections s) \<Longrightarrow> conn_step E (s_conn s n) c' \<Longrightarrow>
    s' = fold (server_event now n) (new_events (s_conn s n) c') (s\<lparr>s_conn := (s_conn s)(n := c')\<rparr>) \<Longrightarrow>
    server_step E s s'"
| timeout: "i < length (s_timeouts s) \<Longrightarrow>
    s' = s\<lparr>s_timeouts := on_timeout (alive_in (s_connections s)) now i (s_timeouts s)\<rparr> \<Longrightarrow>
    server_step E s s'"
| listen: "server_listen b l s = (Inr r, s') \<Longrightarrow> server_step E s s'"
| on_error: "server_onError s = (Inr (), s') \<Longrightarrow> server_step E s s'"
| idle: "setIdleConnectionTimeout t s = (Inr (), s') \<Longrightarrow> server_step E s s'"
| response: "setResponseTimeout t s = (Inr (), s') \<Longrightarrow> server_step E s s'"
| close_all: "server_step E s (server_close s)"

abbreviation server_reach :: "'p cenv \<Rightarrow> nat \<Rightarrow> 'p server \<Rightarrow> bool" where
  "server_reach E loop \<equiv> reached (\<lambda>s. s = Server_Create loop) (server_step E)"

section \<open>Connections and their timeout entries\<close>

definition server_ok :: "nat \<Rightarrow> 'p server \<Rightarrow> bool" where
  "server_ok loop s \<longleftrightarrow> s_loop s = loop \<and> distinct (s_connections s) \<and>
     timeouts_ok (s_connections s) loop (s_timeouts s)"

section \<open>Events\<close>

lemma server_event_ok:
  "server_ok loop s \<Longrightarrow> server_ok loop (server_event now n ev s)"
  by (cases ev) (auto simp: server_ok_def server_event_def table.restarts table.removes)

lemma server_events_ok:
  "server_ok loop s \<Longrightarrow> server_ok loop (fold (server_event now n) evs s)"
  by (induction evs arbitrary: s) (simp_all add: server_event_ok)

lemma create_ok:
  assumes "server_ok loop s" and "n \<notin> set (s_connections s)"
    and "createConnection now n s = (r, s')"
  shows "server_ok loop s'"
proof -
  have "s_loop s = loop" "timeouts_ok (s_connections s) loop (s_timeouts s)"
    using assms(1) by (simp_all add: server_ok_def)
  then show ?thesis
    using assms table.adds [of "s_connections s" loop "s_timeouts s" n now "s_idle s"]
    by (auto simp: server_ok_def createConnection_def split: prod.splits)
qed

lemma server_ok_step:
  assumes "server_step E s s'" and "server_ok loop s"
  shows "server_ok loop s'"
  using assms
proof cases
  case (accept n e now)
  then show ?thesis
    using assms(2) create_ok [OF assms(2), of n now]
    by (auto simp: on_connection_def server_error_def server_ok_def split: if_splits)
next
  case (connection n c' now)
  have "server_ok loop (s\<lparr>s_conn := (s_conn s)(n := c')\<rparr>)" using assms(2) by (simp add: server_ok_def)
  with connection show ?thesis by (simp add: server_events_ok)
next
  case (timeout i now)
  then show ?thesis using assms(2) by (simp add: server_ok_def table.fires)
qed (use assms(2) in \<open>auto simp: server_ok_def server_listen_def server_onError_def modM_def
      setIdleConnectionTimeout_def setResponseTimeout_def server_close_def thenM_Inr split: if_splits\<close>)

interpretation servers: invariant "\<lambda>s. s = Server_Create loop" "server_step E" "server_ok loop"
  for E :: "'p cenv" and loop
proof
  show "server_ok loop s" if "s = Server_Create loop" for s :: "'p server"
    using that by (simp add: server_ok_def Server_Create_def table.none)
qed (rule server_ok_step)

text \<open>The event that a connection was closed removes it for good.\<close>

lemma event_keeps_out:
  "n \<notin> set (s_connections s) \<Longrightarrow> n \<notin> set (s_connections (fold (server_event now n) evs s))"
proof (induction evs arbitrary: s)
  case (Cons ev evs)
  have "n \<notin> set (s_connections (server_event now n ev s))"
    using Cons.prems by (cases ev) (simp_all add: server_event_def)
  with Cons.IH show ?case by simp
qed simp

lemma closed_goes:
  "ConnClosed \<in> set evs \<Longrightarrow> n \<notin> set (s_connections (fold (server_event now n) evs s))"
proof (induction evs arbitrary: s)
  case (Cons ev evs)
  show ?case
  proof (cases "ev = ConnClosed")
    case True
    then have "n \<notin> set (s_connections (server_event now n ev s))" by (simp add: server_event_def)
    with event_keeps_out show ?thesis by simp
  next
    case False
    with Cons show ?thesis by simp
  qed
qed simp

text \<open>Whatever the server does, its connections do only what connections do by themselves.\<close>

lemma events_conn:
  "s_conn (fold (server_event now n) evs s) = s_conn s \<and>
   set (s_connections (fold (server_event now n) evs s)) \<subseteq> set (s_connections s)"
proof (induction evs arbitrary: s)
  case (Cons ev evs)
  have "s_conn (server_event now n ev s) = s_conn s \<and> set (s_connections (server_event now n ev s)) \<subseteq> set (s_connections s)"
    by (cases ev) (auto simp: server_event_def)
  with Cons.IH [of "server_event now n ev s"] show ?case by auto
qed simp

definition hosted :: "'p cenv \<Rightarrow> 'p server \<Rightarrow> bool" where
  "hosted E s \<longleftrightarrow> (\<forall>n \<in> set (s_connections s). conn_reach E (s_conn s n))"

lemma hosted_step:
  assumes h: "hosted E s" and st: "server_step E s s'"
  shows "hosted E s'"
  using st
proof cases
  case (accept n e now)
  have "conn_reach E c" if "parse_connection ServerConnection = (Inr (), c)" for c
    using that by (intro conns.first) (simp add: accepted_def)
  with accept h show ?thesis
    by (auto simp: hosted_def on_connection_def server_error_def createConnection_def split: if_splits prod.splits)
next
  case (connection n c' now)
  then have "conn_reach E c'" using h conns.more unfolding hosted_def by blast
  with h have "hosted E (s\<lparr>s_conn := (s_conn s)(n := c')\<rparr>)" by (simp add: hosted_def)
  then show ?thesis unfolding connection(3) hosted_def using events_conn by fastforce
next
  case close_all
  have "conn_reach E (snd (close c))" if "conn_reach E c" for c
    by (rule conns.more [OF that conn_step.close_called]) (simp add: close_def modM_def)
  with h show ?thesis by (simp add: close_all hosted_def server_close_def)
qed (use h in \<open>auto simp: hosted_def server_listen_def server_onError_def modM_def
      setIdleConnectionTimeout_def setResponseTimeout_def thenM_Inr split: if_splits\<close>)

interpretation hosting: invariant "\<lambda>s. s = Server_Create loop" "server_step E" "hosted E"
  for E :: "'p cenv" and loop
proof
  show "hosted E s" if "s = Server_Create loop" for s :: "'p server"
    using that by (simp add: hosted_def Server_Create_def)
qed (rule hosted_step)

section \<open>Properties\<close>


text \<open>A server that accepted a connection which the peer has reset.\<close>

definition served :: "unit conn \<Rightarrow> unit server" where
  "served c = (Server_Create 0)\<lparr>s_listening := True, s_connections := [5],
     s_conn := (s_conn (Server_Create 0))(5 := c),
     s_timeouts := AddConnection 0 30 0 5 []\<rparr>"

definition reset_conn :: "unit conn" where
  "reset_conn = demo_accepted\<lparr>c_socket := SockClosing, c_closes := 1, c_calls := [CallClose]\<rparr>"

lemma served_quiet_step:
  assumes "server_reach (demo_env h) 0 (served c)" and "conn_step (demo_env h) c c'" and "c_events c' = c_events c"
  shows "server_reach (demo_env h) 0 (served c')"
proof (rule servers.more [OF assms(1)])
  show "server_step (demo_env h) (served c) (served c')"
    using assms(2,3) by (intro server_step.connection [of 5 _ _ c' _ 0]) (simp_all add: served_def new_events_def)
qed

lemma served_reset: "server_reach (demo_env (demo_handler [])) 0 (served reset_conn)"
proof -
  let ?E = "demo_env (demo_handler [])"
  let ?s0 = "Server_Create 0 :: unit server"
  let ?s1 = "?s0\<lparr>s_listening := True\<rparr>"
  have "server_step ?E ?s0 ?s1"
    by (rule server_step.listen [of True True _ True]) (simp add: server_listen_def)
  then have r1: "server_reach ?E 0 ?s1" by (blast intro: servers.first servers.more)
  have "parse_connection ServerConnection = (Inr (), demo_accepted)"
    by (simp add: parse_connection_def exec_simps getRequest_def ServerConnection_def
        demo_accepted_def)
  then have "on_connection 0 0 5 ?s1 = (Inr (), served demo_accepted)"
    by (simp add: on_connection_def createConnection_def served_def Server_Create_def)
  then have "server_step ?E ?s1 (served demo_accepted)"
    by (intro server_step.accept) (auto simp: Server_Create_def)
  with r1 have r2: "server_reach ?E 0 (served demo_accepted)" by (rule servers.more)
  have "on_read ?E ReadConnReset demo_accepted = (Inr (), reset_conn)"
    by (simp add: on_read_def close_def modM_def reset_conn_def demo_accepted_def ServerConnection_def)
  then have "conn_step ?E demo_accepted reset_conn"
    by (intro conn_step.read) (simp_all add: demo_accepted_def ServerConnection_def)
  from served_quiet_step [OF r2 this] show ?thesis by (simp add: reset_conn_def)
qed


text \<open>C36. A second close of a connection is fatal. When a server is closed while one of its connections
is already closing, two callbacks wait for the end of the socket. The first lets the server
forget the connection, which nobody else holds when no callback of a request is left; the second
finds its weak pointer expired and dereferences the null pointer that \<open>lock\<close> returns.\<close>

theorem second_close_is_fatal:
  assumes r: "server_reach E loop s" and n: "n \<in> set (s_connections s)"
    and c: "c_socket (s_conn s n) = SockClosing" "c_chains (s_conn s n) = []"
  shows "\<exists>t. (server_step E)\<^sup>*\<^sup>* (server_close s) t \<and> c_socket (s_conn t n) = SockClosed \<and>
    0 < c_closes (s_conn t n) \<and> on_connection_closed now n t = (Inl null_deref, t)"
proof -
  have "conn_reach E (s_conn s n)" using hosting.always [OF r] n by (simp add: hosted_def)
  then have w: "0 < c_closes (s_conn s n)" using awaiting.always c(1) by (auto simp: awaits_close_def)
  let ?c1 = "(s_conn s n)\<lparr>c_calls := c_calls (s_conn s n) @ [CallClose], c_closes := Suc (c_closes (s_conn s n))\<rparr>"
  let ?c2 = "?c1\<lparr>c_socket := SockClosed\<rparr>"
  let ?c3 = "?c2\<lparr>c_closes := c_closes (s_conn s n), c_events := c_events ?c2 @ [ConnClosed]\<rparr>"
  let ?s1 = "server_close s" let ?s2 = "?s1\<lparr>s_conn := (s_conn ?s1)(n := ?c2)\<rparr>"
  have s1: "s_conn ?s1 n = ?c1" "n \<in> set (s_connections ?s1)"
    using n c(1) by (simp_all add: server_close_def close_def modM_def)
  have "conn_step E ?c1 ?c2" using c(1) by (intro conn_step.closed) (simp_all add: socket_closed_def modM_def)
  then have a: "server_step E ?s1 ?s2"
    using s1 by (intro server_step.connection [of n _ _ ?c2 _ 0]) (simp_all add: new_events_def)
  let ?t = "server_event 0 n ConnClosed (?s2\<lparr>s_conn := (s_conn ?s2)(n := ?c3)\<rparr>)"
  have "conn_step E ?c2 ?c3" using c(1) by (intro conn_step.reported) (simp_all add: close_callback_def modM_def)
  then have b: "server_step E ?s2 ?t"
    using s1 by (intro server_step.connection [of n _ _ ?c3 _ 0]) (simp_all add: new_events_def)
  have t: "s_conn ?t n = ?c3" "n \<notin> set (s_connections ?t)" by (simp_all add: server_event_def)
  have "on_connection_closed now n ?t = (Inl null_deref, ?t)"
    unfolding on_connection_closed_def t using c(2) t(2) by simp
  with w t show ?thesis by (intro exI [of _ ?t] conjI servers.one_more [OF a servers.one [OF b]]) simp_all
qed

theorem second_close_is_fatal_witness:
  "\<exists>t. (server_step (demo_env (demo_handler [])))\<^sup>*\<^sup>* (server_close (served reset_conn)) t \<and>
     on_connection_closed 0 5 t = (Inl null_deref, t)"
proof -
  have "5 \<in> set (s_connections (served reset_conn))" by (simp add: served_def)
  from second_close_is_fatal [OF served_reset this] show ?thesis
    by (auto simp: served_def reset_conn_def demo_accepted_def ServerConnection_def)
qed

end
