(* ===== verification/Serving.thy ===== *)
theory Serving
  imports Server
begin

text \<open>
  A request on a kept-alive connection from the bytes that are read to the bytes that are written:
  the theories of messages, routing and connections put together.
\<close>

section \<open>The answer\<close>

definition response_head :: "('a message_scheme) \<Rightarrow> int \<Rightarrow> nat \<Rightarrow> string" where
  "response_head q status n =
     getHttpVersionString q @ '' '' @ dec_int status @ '' '' @ GetStatusText status @ CRLF @
     ''Connection: keep-alive'' @ CRLF @ ''Content-Length: '' @ dec n @ CRLF @
     ''Content-Type: text/html'' @ CRLF @ CRLF"

text \<open>What is written when a new response is ended with the status set before.\<close>

lemma ci_less_names:
  "ci_less ''Content-Length'' ''Content-Type''" "\<not> ci_less ''Content-Type'' ''Content-Length''"
  "ci_less ''Connection'' ''Content-Length''" "\<not> ci_less ''Content-Length'' ''Connection''"
  "ci_less ''Connection'' ''Content-Type''" "\<not> ci_less ''Content-Type'' ''Connection''"
  by code_simp+

lemma ci_less_self: "\<not> ci_less k k"
  by (rule ci.irrefl)

lemma new_response_ended:
  assumes s: "status \<noteq> 204" "status \<noteq> 304"
  shows "\<exists>r'. endData d (setStatus status (ServerResponse q)) = (Inr (), r') \<and>
    map wire_text (wire r') = [response_head q status (length d) @ d] \<and> shouldKeepAlive r' \<and> sent r'"
proof -
  define m where "m = (setStatus status (ServerResponse q))\<lparr>last_chunk := True\<rparr>"
  define p where "p = prepare_headers d m"
  have m: "\<not> closed m" "\<not> headerSent m" "kind m = Response status" "wire m = []" "last_chunk m"
    "shouldKeepAlive m" "headers m = [(''Content-Type'', ''text/html'')]"
    "httpMajor m = httpMajor q" "httpMinor m = httpMinor q"
    by (simp_all add: m_def setStatus_def ServerResponse_def OutgoingMessage_from_def setHeader_def
        ci_less_names ci_less_self del: ci_less.simps)
  have h: "headers p = [(''Connection'', ''keep-alive''), (''Content-Length'', dec (length d)),
      (''Content-Type'', ''text/html'')]"
    using m(5,6,7) by (simp add: p_def prepare_headers_last same_key_def ci_less_names ci_less_self del: ci_less.simps)
  have v: "httpMajor p = httpMajor q" "httpMinor p = httpMinor q"
    using m(8,9) by (simp_all add: p_def prepare_headers_def Let_def setHeader_def)
  have raw: "getMessageHeaderRaw p = response_head q status (length d)"
    using h v m(3) by (simp add: getMessageHeaderRaw_def response_head_def setHeaderFirstLine_def
        header_lines_def getHttpVersionString_def p_def)
  have "writeData d m = (Inr (), sendData (getMessageHeaderRaw p @ d) p)"
    using m(1-3) s by (simp add: writeData_eq OutgoingMessage_writeData_def p_def Let_def)
  then have "endData d (setStatus status (ServerResponse q)) =
      (Inr (), (sendData (getMessageHeaderRaw p @ d) p)\<lparr>closed := True, sent := True\<rparr>)"
    by (intro endData_returns)
      (simp_all add: m_def setStatus_def ServerResponse_def OutgoingMessage_from_def setHeader_def)
  then show ?thesis
    using raw m(3,4,6) by (simp add: sendData_def p_def)
qed

section \<open>Requests\<close>

text \<open>A connection that waits for the next request.\<close>

definition ready :: "'p conn \<Rightarrow> bool" where
  "ready c \<longleftrightarrow> (c_request c = None \<or> c_request c = Some ServerRequest) \<and> c_response c = None \<and>
     c_chains c = [] \<and> c_pend c = 0 \<and> c_socket c = SockOpen \<and> c_reading c"

text \<open>The parser makes the whole request \<open>q\<close> for \<open>path\<close> of the bytes in one buffer.\<close>

definition asks :: "'p cenv \<Rightarrow> string \<Rightarrow> 'p server_request \<Rightarrow> string \<Rightarrow> bool" where
  "asks E buf q path \<longleftrightarrow>
     (case e_http E (e_parser_init E) buf of (es, n, p) \<Rightarrow>
        n = int (length buf) \<and>
        run_events (e_url E) onMessageComplete es (ServerRequest\<lparr>parser := Some p\<rparr>) = (Inr (), q)) \<and>
     \<not> upgrade q \<and> messageComplete q \<and> url_path (url q) = Inr path"

definition matched :: "'p cenv \<Rightarrow> 'p server_request \<Rightarrow> string \<Rightarrow> (callback_data \<times> string) list" where
  "matched E q path = route (e_rx E) (plugin_at (e_routers E) (e_root E)) (e_method_str E (meth q)) path"

text \<open>One callback matches, a function; with the values of its template it ends the response
with \<open>d\<close> at once.\<close>

definition answers :: "'p cenv \<Rightarrow> 'p server_request \<Rightarrow> string \<Rightarrow> string \<Rightarrow> bool" where
  "answers E q path d \<longleftrightarrow> (\<exists>cb np k b v. matched E q path = [(cb, np)] \<and> target cb = ToFunction k \<and>
     extract_uri (e_rx E) (e_formats E) (uri cb) path False (uriTemplateValues q) = (Inr b, v) \<and>
     e_handler E k (Some (q\<lparr>uriTemplateValues := v\<rparr>)) =
       \<lparr>h_sync = [AEnd d], h_throw = None, h_async = [], h_res = None\<rparr>)"

text \<open>What is to be written for a request.\<close>

definition reply :: "'p cenv \<Rightarrow> string \<Rightarrow> string \<Rightarrow> bool" where
  "reply E buf w \<longleftrightarrow> (\<exists>q path. asks E buf q path \<and>
     ((\<exists>d. answers E q path d \<and> w = response_head q 200 (length d) @ d) \<or>
      matched E q path = [] \<and> w = response_head q 404 0))"

section \<open>One request\<close>

lemma read_request:
  assumes "asks E buf q path" "ready c"
  shows "on_read E (ReadData buf) c = processRequest E (c\<lparr>c_request := Some q\<rparr>)"
proof -
  obtain es p where e: "e_http E (e_parser_init E) buf = (es, int (length buf), p)"
    "run_events (e_url E) onMessageComplete es (ServerRequest\<lparr>parser := Some p\<rparr>) = (Inr (), q)"
    using assms(1) by (cases "e_http E (e_parser_init E) buf") (auto simp: asks_def)
  have "parser (ServerRequest :: 'a server_request) = None" by (simp add: ServerRequest_def)
  then have "request_parse E buf c = (Inr (int (length buf)), c\<lparr>c_request := Some q\<rparr>)"
    using e assms(2) by (auto simp: request_parse_def bindM_def getRequest_def ready_def)
  then show ?thesis
    using assms(1) by (simp add: on_read_def bindM_def thenM_def getRequest_def retM_def asks_def)
qed

text \<open>Ending a response that was not there before.\<close>

lemma status_200: "setStatus 200 (ServerResponse q) = ServerResponse q"
  by (simp add: setStatus_def ServerResponse_def OutgoingMessage_from_def setHeader_def ci_less_self del: ci_less.simps)

definition ended :: "'p server_request \<Rightarrow> int \<Rightarrow> string \<Rightarrow> 'p conn \<Rightarrow> 'p conn \<Rightarrow> bool" where
  "ended q status d c c' \<longleftrightarrow> (\<exists>r. shouldKeepAlive r \<and> sent r \<and>
     c' = c\<lparr>c_response := Some r, c_out := c_out c @ [response_head q status (length d) @ d],
            c_pend := Suc (c_pend c), c_calls := c_calls c @ [CallWrite (response_head q status (length d) @ d)]\<rparr>)"

lemma respond_new:
  assumes "c_request c = Some q" "c_response c = None" "status \<noteq> 204" "status \<noteq> 304"
  shows "\<exists>c'. respond status d c = (Inr (), c') \<and> ended q status d c c'"
proof -
  from new_response_ended [OF assms(3,4), of d q] obtain r'
    where r: "endData d (setStatus status (ServerResponse q)) = (Inr (), r')"
    "map wire_text (wire r') = [response_head q status (length d) @ d]" "shouldKeepAlive r'" "sent r'"
    by (elim exE conjE)
  have "ended q status d c (c\<lparr>c_response := Some (r'\<lparr>wire := []\<rparr>),
      c_out := c_out c @ [response_head q status (length d) @ d], c_pend := Suc (c_pend c),
      c_calls := c_calls c @ [CallWrite (response_head q status (length d) @ d)]\<rparr>)"
    using r(3,4) by (auto simp: ended_def intro!: exI [of _ "r'\<lparr>wire := []\<rparr>"])
  then show ?thesis
    using assms(1,2) r(1,2) by (simp add: respond_def set_response_def getResponse_def getRequest_def
        response_end_def bindM_def thenM_def modM_def del: map_map)
qed

lemma end_new:
  assumes "c_request c = Some q" "c_response c = None"
  shows "\<exists>c'. response_end d c = (Inr (), c') \<and> ended q 200 d c c'"
proof -
  have "(200 :: int) \<noteq> 204" "(200 :: int) \<noteq> 304" by simp_all
  from new_response_ended [OF this, of d q, unfolded status_200] obtain r'
    where r: "endData d (ServerResponse q) = (Inr (), r')"
    "map wire_text (wire r') = [response_head q 200 (length d) @ d]" "shouldKeepAlive r'" "sent r'"
    by (elim exE conjE)
  have "ended q 200 d c (c\<lparr>c_response := Some (r'\<lparr>wire := []\<rparr>),
      c_out := c_out c @ [response_head q 200 (length d) @ d], c_pend := Suc (c_pend c),
      c_calls := c_calls c @ [CallWrite (response_head q 200 (length d) @ d)]\<rparr>)"
    using r(3,4) by (auto simp: ended_def intro!: exI [of _ "r'\<lparr>wire := []\<rparr>"])
  then show ?thesis
    using response_end_new [OF assms(2,1) r(1)] r(2) by simp
qed

text \<open>Reading the request calls the callback, which answers it, or finds none.\<close>

lemma process_answered:
  assumes c: "c_request c = Some q" "c_response c = None" and a: "answers E q path d"
    and p: "url_path (url q) = Inr path" "e_depth E \<noteq> 0"
  shows "\<exists>v c'. processRequest E c = (Inr (), c'\<lparr>c_chains := c_chains c @ [resolved]\<rparr>) \<and>
    ended (q\<lparr>uriTemplateValues := v\<rparr>) 200 d
      (c\<lparr>c_events := c_events c @ [RequestReceived], c_request := Some (q\<lparr>uriTemplateValues := v\<rparr>)\<rparr>) c'"
proof -
  obtain cb np k b v where m: "matched E q path = [(cb, np)]" "target cb = ToFunction k"
    and x: "extract_uri (e_rx E) (e_formats E) (uri cb) path False (uriTemplateValues q) = (Inr b, v)"
    and h: "e_handler E k (Some (q\<lparr>uriTemplateValues := v\<rparr>)) =
       \<lparr>h_sync = [AEnd d], h_throw = None, h_async = [], h_res = None\<rparr>"
    using a unfolding answers_def by (elim exE conjE)
  let ?q = "q\<lparr>uriTemplateValues := v\<rparr>"
  let ?u = "c\<lparr>c_events := c_events c @ [RequestReceived], c_request := Some ?q\<rparr>"
  obtain c' where e: "response_end d ?u = (Inr (), c')" "ended ?q 200 d ?u c'"
    using end_new [of ?u ?q d] c(2) by auto
  obtain n where n: "e_depth E = Suc n" using p(2) by (cases "e_depth E") auto
  have k: "c_chains c' = c_chains c" using e(2) by (auto simp: ended_def)
  have call: "callback_execute E n cb path ?u = (Inr resolved, c')"
    using m(2) h e(1)
    by (simp add: callback_execute.simps call_function_def act_step_def thenM_def bindM_def retM_def resolved_def)
  have "processRequest E c = (Inr (), c'\<lparr>c_chains := c_chains c @ [resolved]\<rparr>)"
    using c(1) p(1) n m(1) x call k
    by (simp add: processRequest_def thenM_def bindM_def modM_def getRequest_def execute.simps
        execute_loop_def extract_into_def retM_def matched_def resolved_def)
  with e(2) show ?thesis by blast
qed

lemma process_unmatched:
  assumes c: "c_request c = Some q" and m: "matched E q path = []"
    and p: "url_path (url q) = Inr path" "e_depth E \<noteq> 0"
  shows "processRequest E c =
    (Inr (), c\<lparr>c_events := c_events c @ [RequestReceived], c_chains := c_chains c @ [resolved]\<rparr>)"
proof -
  obtain n where n: "e_depth E = Suc n" using p(2) by (cases "e_depth E") auto
  show ?thesis
    using c m p(1) n
    by (simp add: processRequest_def thenM_def bindM_def modM_def getRequest_def execute.simps
        execute_loop_def retM_def matched_def)
qed

text \<open>The last callback of the chain, before and after an answer.\<close>

lemma last_turn_sent:
  assumes "c_chains c = [resolved]" "c_response c = Some r" "sent r"
  shows "chain_turn E 0 c = (Inr (), c\<lparr>c_chains := []\<rparr>)"
  using assms by (simp add: chain_turn_def chain_next_def resolved_def thenM_def bindM_def drop_chain_def
      modM_def respond_unless_sent_def isSent_def getResponse_def retM_def)

lemma last_turn_unsent:
  assumes "c_chains c = [resolved]" "c_response c = None" "c_request c = Some q"
  shows "\<exists>c'. chain_turn E 0 c = (Inr (), c') \<and> ended q 404 [] (c\<lparr>c_chains := []\<rparr>) c'"
proof -
  have r: "getResponse (c\<lparr>c_chains := []\<rparr>) =
      (Inr (ServerResponse q), c\<lparr>c_chains := [], c_response := Some (ServerResponse q)\<rparr>)"
    using assms by (simp add: getResponse_def getRequest_def bindM_def)
  have ns: "\<not> sent (ServerResponse q)"
    by (simp add: ServerResponse_def OutgoingMessage_from_def setHeader_def)
  obtain c' where c': "respond 404 [] (c\<lparr>c_chains := []\<rparr>) = (Inr (), c')"
    "ended q 404 [] (c\<lparr>c_chains := []\<rparr>) c'"
    using respond_new [of "c\<lparr>c_chains := []\<rparr>" q 404 "[]"] assms by auto
  have "respond 404 [] (c\<lparr>c_chains := [], c_response := Some (ServerResponse q)\<rparr>) =
      respond 404 [] (c\<lparr>c_chains := []\<rparr>)"
    using assms r by (simp add: respond_def set_response_def thenM_def bindM_def getResponse_def)
  then have "chain_turn E 0 c = respond 404 [] (c\<lparr>c_chains := []\<rparr>)"
    using assms(1) r ns by (simp add: chain_turn_def chain_next_def resolved_def thenM_def bindM_def
        drop_chain_def modM_def respond_unless_sent_def isSent_def retM_def)
  with c' show ?thesis by simp
qed

text \<open>The write is done: the connection waits for the next request.\<close>

lemma written_ready:
  assumes "ended q status d c c'" "c_pend c = 0" "c_chains c = []" "c_socket c = SockOpen"
    "c_reading c"
  shows "\<exists>c''. write_done None c' = (Inr (), c'') \<and> ready c'' \<and> c_out c'' = c_out c' \<and>
    c_events c'' = c_events c' @ [ResponseSent]"
  using assms by (auto simp: ended_def write_done_def end_sent_def ready_def Let_def)

lemma serve_one:
  assumes rd: "ready c" and re: "reply E buf w" and d: "e_depth E \<noteq> 0"
  shows "\<exists>c1 c2 c3. conn_step E c c1 \<and> conn_step E c1 c2 \<and> conn_step E c2 c3 \<and> ready c3 \<and>
    c_out c3 = c_out c @ [w] \<and> c_events c1 = c_events c @ [RequestReceived] \<and>
    c_events c2 = c_events c1 \<and> c_events c3 = c_events c2 @ [ResponseSent]"
proof -
  obtain q path where ask: "asks E buf q path" and w: "(\<exists>d. answers E q path d \<and> w = response_head q 200 (length d) @ d) \<or>
      matched E q path = [] \<and> w = response_head q 404 0"
    using re unfolding reply_def by blast
  have path: "url_path (url q) = Inr path" using ask by (simp add: asks_def)
  let ?c = "c\<lparr>c_request := Some q\<rparr>"
  note read = read_request [OF ask rd]
  have c: "c_response ?c = None" "c_request ?c = Some q" using rd by (simp_all add: ready_def)
  have net: "c_pend c = 0" "c_chains c = []" "c_socket c = SockOpen" "c_reading c"
    using rd by (simp_all add: ready_def)
  from w show ?thesis
  proof
    assume "\<exists>d. answers E q path d \<and> w = response_head q 200 (length d) @ d"
    then obtain d where a: "answers E q path d" and w: "w = response_head q 200 (length d) @ d" by blast
    obtain v c' where p: "processRequest E ?c = (Inr (), c'\<lparr>c_chains := c_chains ?c @ [resolved]\<rparr>)"
      and e: "ended (q\<lparr>uriTemplateValues := v\<rparr>) 200 d
        (?c\<lparr>c_events := c_events ?c @ [RequestReceived], c_request := Some (q\<lparr>uriTemplateValues := v\<rparr>)\<rparr>) c'"
      using process_answered [OF c(2,1) a path assms(3)] by blast
    let ?c1 = "c'\<lparr>c_chains := [resolved]\<rparr>"
    have s1: "conn_step E c ?c1"
      using p read net by (intro conn_step.read [of c E "ReadData buf"]) simp_all
    obtain r where r: "c_response c' = Some r" "sent r" using e by (auto simp: ended_def)
    have "chain_turn E 0 ?c1 = (Inr (), c'\<lparr>c_chains := []\<rparr>)"
      using last_turn_sent [of ?c1 r E] r by simp
    then have s2: "conn_step E ?c1 (c'\<lparr>c_chains := []\<rparr>)"
      by (intro conn_step.turn [of 0]) (simp_all add: waits_def resolved_def)
    have "c'\<lparr>c_chains := []\<rparr> = c'" using e net(2) by (auto simp: ended_def)
    moreover obtain c3 where w3: "write_done None c' = (Inr (), c3)" "ready c3" "c_out c3 = c_out c'"
      "c_events c3 = c_events c' @ [ResponseSent]"
      using written_ready [OF e] net by auto
    moreover have "conn_step E c' c3" using w3(1) e by (intro conn_step.written) (auto simp: ended_def)
    moreover have "c_out c' = c_out c @ [w]" "c_events c' = c_events c @ [RequestReceived]"
      using e w by (auto simp: ended_def response_head_def getHttpVersionString_def)
    moreover have "c_events ?c1 = c_events c'" by simp
    ultimately show ?thesis using s1 s2 by metis
  next
    assume m: "matched E q path = [] \<and> w = response_head q 404 0"
    let ?c1 = "?c\<lparr>c_events := c_events c @ [RequestReceived], c_chains := [resolved]\<rparr>"
    have "processRequest E ?c = (Inr (), ?c1)"
      using process_unmatched [OF c(2) conjunct1 [OF m] path assms(3)] net by simp
    then have s1: "conn_step E c ?c1"
      using read net by (intro conn_step.read [of c E "ReadData buf"]) simp_all
    obtain c2 where t: "chain_turn E 0 ?c1 = (Inr (), c2)" "ended q 404 [] (?c1\<lparr>c_chains := []\<rparr>) c2"
      using last_turn_unsent [of ?c1 q E] c by auto
    have s2: "conn_step E ?c1 c2"
      using t(1) by (intro conn_step.turn [of 0]) (simp_all add: waits_def resolved_def)
    obtain c3 where w3: "write_done None c2 = (Inr (), c3)" "ready c3" "c_out c3 = c_out c2"
      "c_events c3 = c_events c2 @ [ResponseSent]"
      using written_ready [OF t(2)] net by auto
    moreover have "conn_step E c2 c3" using w3(1) t(2) by (intro conn_step.written) (auto simp: ended_def)
    moreover have "c_out c2 = c_out c @ [w]" "c_events c2 = c_events ?c1"
      "c_events ?c1 = c_events c @ [RequestReceived]"
      using t(2) m by (auto simp: ended_def)
    ultimately show ?thesis using s1 s2 by metis
  qed
qed

section \<open>All connections of a server\<close>

lemma open_events:
  "ConnClosed \<notin> set evs \<Longrightarrow>
     s_connections (fold (server_event now n) evs s) = s_connections s \<and>
     s_conn (fold (server_event now n) evs s) = s_conn s \<and>
     s_listening (fold (server_event now n) evs s) = s_listening s"
proof (induction evs arbitrary: s)
  case (Cons ev evs)
  then show ?case by (cases ev) (simp_all add: server_event_def)
qed simp

text \<open>A step of one connection that does not close it.\<close>

definition moved :: "nat \<Rightarrow> 'p conn \<Rightarrow> 'p server \<Rightarrow> 'p server \<Rightarrow> bool" where
  "moved n c s s' \<longleftrightarrow> s_connections s' = s_connections s \<and> s_conn s' = (s_conn s)(n := c) \<and>
     s_listening s' = s_listening s"

lemma server_follows:
  assumes "n \<in> set (s_connections s)" "conn_step E (s_conn s n) c'"
    "c_events c' = c_events (s_conn s n) @ evs" "ConnClosed \<notin> set evs"
  shows "\<exists>s'. server_step E s s' \<and> moved n c' s s'"
proof -
  let ?s = "s\<lparr>s_conn := (s_conn s)(n := c')\<rparr>"
  have "server_step E s (fold (server_event 0 n) (new_events (s_conn s n) c') ?s)"
    by (rule server_step.connection [OF assms(1,2) refl])
  moreover have "new_events (s_conn s n) c' = evs" using assms(3) by (simp add: new_events_def)
  ultimately show ?thesis using open_events [OF assms(4), of 0 n ?s] by (auto simp: moved_def)
qed

lemma moved_trans: "moved n c s t \<Longrightarrow> moved n d t u \<Longrightarrow> moved n d s u"
  by (simp add: moved_def)

lemma server_serves_one:
  assumes n: "n \<in> set (s_connections s)" and rd: "ready (s_conn s n)" and re: "reply E buf w"
    and d: "e_depth E \<noteq> 0"
  shows "\<exists>s' c. (server_step E)\<^sup>*\<^sup>* s s' \<and> moved n c s s' \<and> ready c \<and> c_out c = c_out (s_conn s n) @ [w]"
proof -
  obtain c1 c2 c3 where st: "conn_step E (s_conn s n) c1" "conn_step E c1 c2" "conn_step E c2 c3"
    and c3: "ready c3" "c_out c3 = c_out (s_conn s n) @ [w]"
    and ev: "c_events c1 = c_events (s_conn s n) @ [RequestReceived]" "c_events c2 = c_events c1 @ []"
      "c_events c3 = c_events c2 @ [ResponseSent]"
    using serve_one [OF rd re d] by auto
  have no: "ConnClosed \<notin> set [RequestReceived]" "ConnClosed \<notin> set []" "ConnClosed \<notin> set [ResponseSent]"
    by simp_all
  obtain s1 where s1: "server_step E s s1" "moved n c1 s s1"
    using server_follows [OF n st(1) ev(1) no(1)] by blast
  then have n1: "n \<in> set (s_connections s1)" "s_conn s1 n = c1" using n by (simp_all add: moved_def)
  obtain s2 where s2: "server_step E s1 s2" "moved n c2 s1 s2"
    using server_follows [OF n1(1), unfolded n1(2), OF st(2) ev(2) no(2)] by blast
  then have n2: "n \<in> set (s_connections s2)" "s_conn s2 n = c2" using n1 by (simp_all add: moved_def)
  obtain s3 where s3: "server_step E s2 s3" "moved n c3 s2 s3"
    using server_follows [OF n2(1), unfolded n2(2), OF st(3) ev(3) no(3)] by blast
  have "moved n c3 s s3" using s1(2) s2(2) s3(2) by (blast intro: moved_trans)
  moreover have "(server_step E)\<^sup>*\<^sup>* s s3" using s1(1) s2(1) s3(1)
    by (intro rtranclp.rtrancl_into_rtrancl [OF rtranclp.rtrancl_into_rtrancl [OF r_into_rtranclp]])
  ultimately show ?thesis using c3 by blast
qed

text \<open>Requests with the number of their connection, and what is written for them.\<close>

type_synonym arrival = "nat \<times> string \<times> string"

definition written_on :: "nat \<Rightarrow> arrival list \<Rightarrow> string list" where
  "written_on n rs = map (\<lambda>(m, buf, w). w) (filter (\<lambda>(m, buf, w). m = n) rs)"

lemma server_serves_all:
  assumes "\<forall>n \<in> set (s_connections s). ready (s_conn s n)" "e_depth E \<noteq> 0"
    and "\<forall>(n, buf, w) \<in> set rs. n \<in> set (s_connections s) \<and> reply E buf w"
  shows "\<exists>s'. (server_step E)\<^sup>*\<^sup>* s s' \<and> s_connections s' = s_connections s \<and>
    (\<forall>n \<in> set (s_connections s). ready (s_conn s' n) \<and>
       c_out (s_conn s' n) = c_out (s_conn s n) @ written_on n rs)"
  using assms
proof (induction rs arbitrary: s)
  case Nil
  then show ?case by (auto simp: written_on_def)
next
  case (Cons x rs)
  obtain n buf w where x: "x = (n, buf, w)" by (cases x)
  have n: "n \<in> set (s_connections s)" "reply E buf w" "ready (s_conn s n)"
    using Cons.prems(1,3) by (auto simp: x)
  obtain s1 c where s1: "(server_step E)\<^sup>*\<^sup>* s s1" "moved n c s s1" "ready c" "c_out c = c_out (s_conn s n) @ [w]"
    using server_serves_one [OF n(1,3,2) Cons.prems(2)] by blast
  have "\<exists>s'. (server_step E)\<^sup>*\<^sup>* s1 s' \<and> s_connections s' = s_connections s1 \<and>
    (\<forall>n \<in> set (s_connections s1). ready (s_conn s' n) \<and>
       c_out (s_conn s' n) = c_out (s_conn s1 n) @ written_on n rs)"
    using Cons.prems s1(2,3) by (intro Cons.IH) (auto simp: moved_def)
  then obtain s' where "(server_step E)\<^sup>*\<^sup>* s1 s'" "s_connections s' = s_connections s1"
    "\<forall>n \<in> set (s_connections s1). ready (s_conn s' n) \<and>
       c_out (s_conn s' n) = c_out (s_conn s1 n) @ written_on n rs" by blast
  with s1 show ?case
    by (intro exI [of _ s']) (auto simp: x moved_def written_on_def intro: rtranclp_trans)
qed

section \<open>Registration\<close>

text \<open>The only callback of a plugin is the one matched, if its template matches the path.\<close>

lemma registered_is_matched:
  assumes "addMethod F 0 mth u k empty_routers = (Inr cb, R)"
    and "e_routers E = R" "e_root E = 0" "e_method_str E (meth q) = mth" "mth \<noteq> []"
    and "matchUri (e_rx E) cb path = Some n"
  shows "matched E q path = [(cb, drop n path)] \<and> target cb = ToFunction k"
proof -
  have r: "registered (plugin_at R 0) mth = [cb]" "target cb = ToFunction k"
    using assms(1,5) by (auto simp: addMethod_def Let_def empty_routers_def new_plugin_def registered_def
        upd_plugin_def split: sum.splits)
  then show ?thesis
    using assms(2-4,6) by (simp add: matched_def route_sorts_by_length match_length_def)
qed

end
