(* ===== verification/Client.thy ===== *)
theory Client
  imports Outgoing
begin

text \<open>
  \<open>ClientRequest::end\<close> and \<open>ClientResponse\<close> (\<open>src/http/ClientRequest.cpp\<close>): a request is sent when
  its connection is made, then the response is read until it is complete. The promise of the
  response is the field \<open>cl_result\<close>; \<open>cl_waiting\<close>: the callback that starts to read is attached to
  the future of \<open>endData\<close> and has not run.
\<close>

section \<open>State\<close>

datatype 'p result = Answered incoming | Failed string

record 'p client =
  cl_out :: outgoing
  cl_instance :: bool
  cl_response :: "incoming option"
  cl_parser :: 'p
  cl_socket :: bool
  cl_connected :: bool
  cl_waiting :: bool
  cl_reading :: bool
  cl_result :: "'p result option"

text \<open>The HTTP parser with its state for a new message and the name of its error, and the URL parser.\<close>

record 'p clenv =
  ce_http :: "'p http_lib"
  ce_init :: 'p
  ce_url :: url_parser
  ce_errname :: "'p \<Rightarrow> string"
  ce_EOF :: int

definition client_new :: "'p clenv \<Rightarrow> string \<Rightarrow> string \<Rightarrow> int \<Rightarrow> string \<Rightarrow> 'p client" where
  "client_new L method host port path = \<lparr>cl_out = ClientRequest method host port path,
     cl_instance = False, cl_response = None, cl_parser = ce_init L, cl_socket = False,
     cl_connected = False, cl_waiting = False, cl_reading = False, cl_result = None\<rparr>"

definition on_out :: "(outgoing, 'a) M \<Rightarrow> ('p client, 'a) M" where
  "on_out m c = (case m (cl_out c) of (r, w) \<Rightarrow> (r, c\<lparr>cl_out := w\<rparr>))"

section \<open>Sending\<close>

text \<open>\<open>end\<close> up to the call of \<open>then\<close>.\<close>

definition client_end :: "'p clenv \<Rightarrow> string \<Rightarrow> ('p client, unit) M" where
  "client_end L data =
     thenM (modM (\<lambda>c. c\<lparr>cl_instance := True\<rparr>))
    (thenM (modM (\<lambda>c. c\<lparr>cl_response := Some (incoming_init False), cl_parser := ce_init L\<rparr>))
    (thenM (assertM (\<lambda>c. \<not> cl_socket c) ''!_socket'')
    (thenM (modM (\<lambda>c. c\<lparr>cl_socket := True\<rparr>))
    (thenM (on_out (endData data))
    (modM (\<lambda>c. c\<lparr>cl_waiting := True\<rparr>))))))"

text \<open>The callback that runs when the request is sent: a new promise, and \<open>readStart\<close>.\<close>

definition on_sent :: "('p client, unit) M" where
  "on_sent = modM (\<lambda>c. c\<lparr>cl_waiting := False, cl_result := None, cl_reading := True\<rparr>)"

text \<open>When the connection fails the callback does not run: its future is rejected.\<close>

definition on_connect_failed :: "('p client, unit) M" where
  "on_connect_failed = modM (\<lambda>c. c\<lparr>cl_waiting := False\<rparr>)"

section \<open>Reading\<close>

definition settle_result :: "'p result \<Rightarrow> ('p client, unit) M" where
  "settle_result r c = (if cl_result c \<noteq> None then (Inl PromiseAlreadySatisfied, c)
     else (Inr (), c\<lparr>cl_result := Some r\<rparr>))"

text \<open>The reference to itself is dropped, reading stops, the socket is closed.\<close>

definition finish :: "('p client, unit) M" where
  "finish = modM (\<lambda>c. c\<lparr>cl_instance := False, cl_reading := False, cl_socket := False\<rparr>)"

definition response_of :: "'p client \<Rightarrow> incoming" where
  "response_of c = the (cl_response c)"

definition response_parse :: "'p clenv \<Rightarrow> string \<Rightarrow> ('p client, int) M" where
  "response_parse L buf c =
     (case ce_http L (cl_parser c) buf of (es, parsed, p) \<Rightarrow>
        (case run_events (ce_url L) id es (response_of c) of
           (Inl e, r) \<Rightarrow> (Inl e, c\<lparr>cl_response := Some r, cl_parser := p\<rparr>)
         | (Inr _, r) \<Rightarrow> (Inr parsed, c\<lparr>cl_response := Some r, cl_parser := p\<rparr>)))"

text \<open>The read callback: \<open>buf\<close> is \<open>None\<close> for a null pointer.\<close>

definition client_on_read :: "'p clenv \<Rightarrow> string option \<Rightarrow> int \<Rightarrow> ('p client, unit) M" where
  "client_on_read L buf len =
     thenM (assertM cl_instance ''instance->_instance'')
    (thenM (assertM (\<lambda>c. cl_response c \<noteq> None) ''instance->_response'')
    (\<lambda>c. if buf = None \<or> len < 0
      then thenM (if len = ce_EOF L \<and> \<not> messageComplete (response_of c)
                  then settle_result (Answered (response_of c))
                  else settle_result (Failed ''No response from socket''))
             finish c
      else bindM (response_parse L (the buf)) (\<lambda>parsed c1.
        if \<not> upgrade (response_of c1) \<and> parsed \<noteq> len
        then thenM (settle_result (Failed (ce_errname L (cl_parser c1))))
            (thenM (modM (\<lambda>c. c\<lparr>cl_connected := False\<rparr>)) finish) c1
        else if upgrade (response_of c1) \<or> messageComplete (response_of c1)
        then thenM (settle_result (Answered (response_of c1)))
            (thenM (modM (\<lambda>c. c\<lparr>cl_response := None\<rparr>)) finish) c1
        else (Inr (), c1)) c))"

section \<open>Steps\<close>

text \<open>The program calls \<open>end\<close>, as often as it likes and going on after an exception; the request is
sent or not; libuv delivers bytes, an error or the end while the socket is read.\<close>

inductive client_step :: "'p clenv \<Rightarrow> 'p client \<Rightarrow> 'p client \<Rightarrow> bool" for L where
  cl_end: "client_end L data c = (r, c') \<Longrightarrow> client_step L c c'"
| cl_sent: "cl_waiting c \<Longrightarrow> on_sent c = (Inr x, c') \<Longrightarrow> client_step L c c'"
| cl_failed: "cl_waiting c \<Longrightarrow> on_connect_failed c = (Inr x, c') \<Longrightarrow> client_step L c c'"
| cl_read: "cl_reading c \<Longrightarrow> client_on_read L buf len c = (Inr x, c') \<Longrightarrow> client_step L c c'"

definition client_start :: "'p clenv \<Rightarrow> 'p client \<Rightarrow> bool" where
  "client_start L c \<longleftrightarrow> (\<exists>method host port path. c = client_new L method host port path)"

abbreviation client_reach :: "'p clenv \<Rightarrow> 'p client \<Rightarrow> bool" where
  "client_reach L \<equiv> reached (client_start L) (client_step L)"

section \<open>Invariant\<close>

definition client_ok :: "'p client \<Rightarrow> bool" where
  "client_ok c \<longleftrightarrow>
     \<not> (cl_waiting c \<and> cl_reading c) \<and>
     (cl_waiting c \<or> cl_reading c \<longrightarrow>
        cl_instance c \<and> cl_response c \<noteq> None \<and> cl_socket c \<and> closed (cl_out c)) \<and>
     (cl_waiting c \<or> cl_reading c \<or> \<not> closed (cl_out c) \<longrightarrow> cl_result c = None)"

lemma endData_closes: "endData d m = (Inr x, m') \<Longrightarrow> \<not> closed m \<and> closed m'"
  by (auto simp: endData_def split: if_splits prod.splits sum.splits)

lemma endData_closed: "endData d m = (r, m') \<Longrightarrow> closed m \<Longrightarrow> m' = m"
  by (simp add: endData_def)

lemma client_ok_end:
  assumes ok: "client_ok c" and run: "client_end L data c = (r, c')"
  shows "client_ok c'"
proof (cases "cl_socket c")
  case True
  then have "c' = c\<lparr>cl_instance := True, cl_response := Some (incoming_init False), cl_parser := ce_init L\<rparr>"
    using run by (simp add: client_end_def monad_defs)
  with ok show ?thesis by (simp add: client_ok_def)
next
  case False
  with ok have w: "\<not> cl_waiting c" "\<not> cl_reading c" by (auto simp: client_ok_def)
  obtain q m where q: "endData data (cl_out c) = (q, m)" by (cases "endData data (cl_out c)")
  let ?c = "c\<lparr>cl_instance := True, cl_response := Some (incoming_init False), cl_parser := ce_init L,
    cl_socket := True, cl_out := m\<rparr>"
  have c': "c' = (if \<exists>e. q = Inl e then ?c else ?c\<lparr>cl_waiting := True\<rparr>)"
    using run False q by (cases q) (auto simp: client_end_def monad_defs on_out_def)
  show ?thesis
  proof (cases q)
    case (Inl e)
    with q ok endData_closed [OF q] w show ?thesis
      by (cases "closed (cl_out c)") (auto simp: c' client_ok_def)
  next
    case (Inr x)
    with endData_closes [OF q [unfolded Inr]] ok w show ?thesis by (auto simp: c' client_ok_def)
  qed
qed

lemmas read_defs = client_on_read_def settle_result_def finish_def monad_defs

text \<open>\<open>http_parser\<close> calls \<open>on_url\<close> for requests only.\<close>

definition no_url :: "'p clenv \<Rightarrow> bool" where
  "no_url L \<longleftrightarrow> (\<forall>p buf s. EvUrl s \<notin> set (fst (ce_http L p buf)))"

lemma run_events_total:
  "\<forall>s. EvUrl s \<notin> set es \<Longrightarrow> \<exists>m'. run_events pu hook es m = (Inr (), m')"
proof (induction es arbitrary: m)
  case (Cons e es)
  obtain m1 where "run_event pu hook e m = (Inr (), m1)"
    using Cons.prems by (cases e) (auto simp: run_event_def monad_defs)
  moreover obtain m2 where "run_events pu hook es m1 = (Inr (), m2)" using Cons by auto
  ultimately show ?case by (simp add: run_events_def monad_defs)
qed (simp add: run_events_def monad_defs)

lemma response_parse_cases:
  fixes c :: "'p client"
  assumes "no_url L"
  obtains parsed r p where "response_parse L buf c = (Inr parsed, c\<lparr>cl_response := Some r, cl_parser := p\<rparr>)"
proof -
  obtain es parsed p where h: "ce_http L (cl_parser c) buf = (es, parsed, p)"
    by (cases "ce_http L (cl_parser c) buf")
  then have "\<forall>s. EvUrl s \<notin> set es" using assms unfolding no_url_def by (metis fst_conv)
  from run_events_total [OF this] obtain m where "run_events (ce_url L) id es (response_of c) = (Inr (), m)" by blast
  with h that show thesis by (simp add: response_parse_def)
qed

text \<open>After a read the client goes on reading, or it is done.\<close>

definition going_on :: "'p client \<Rightarrow> bool" where
  "going_on c \<longleftrightarrow> cl_reading c \<and> cl_instance c \<and> cl_socket c \<and> cl_response c \<noteq> None \<and> cl_result c = None"

definition finished :: "'p client \<Rightarrow> bool" where
  "finished c \<longleftrightarrow> \<not> cl_reading c \<and> \<not> cl_instance c \<and> \<not> cl_socket c \<and> cl_result c \<noteq> None"

lemma client_read:
  assumes ok: "client_ok c" and rd: "cl_reading c"
    and run: "client_on_read L buf len c = (r, c')"
    and fin: "buf = None \<or> len < 0 \<or> (\<exists>x. r = Inr x) \<or> no_url L"
  shows "r = Inr () \<and> cl_out c' = cl_out c \<and> \<not> cl_waiting c' \<and> (going_on c' \<or> finished c')"
proof -
  have c: "cl_instance c" "cl_response c \<noteq> None" "cl_socket c" "\<not> cl_waiting c" "cl_result c = None"
    using ok rd by (auto simp: client_ok_def)
  show ?thesis
  proof (cases "buf = None \<or> len < 0")
    case True
    with run c show ?thesis by (auto simp: read_defs finished_def split: if_splits)
  next
    case False
    then obtain d where d: "buf = Some d" "\<not> len < 0" by auto
    have "\<exists>parsed r1 p. response_parse L d c = (Inr parsed, c\<lparr>cl_response := Some r1, cl_parser := p\<rparr>)"
    proof (cases "no_url L")
      case True
      then show ?thesis by (rule response_parse_cases) blast
    next
      case False
      with fin d have "\<exists>x. r = Inr x" by simp
      with run d c show ?thesis
        by (auto simp: read_defs response_parse_def split: prod.splits sum.splits)
    qed
    then obtain parsed r1 p where "response_parse L d c = (Inr parsed, c\<lparr>cl_response := Some r1, cl_parser := p\<rparr>)"
      by blast
    with run d c rd show ?thesis
      by (auto simp: read_defs response_of_def going_on_def finished_def split: if_splits)
  qed
qed

lemma client_ok_step:
  assumes "client_step L c c'" and ok: "client_ok c"
  shows "client_ok c'"
  using assms(1)
proof cases
  case (cl_end data r)
  then show ?thesis by (intro client_ok_end [OF ok])
next
  case (cl_sent x)
  with ok show ?thesis by (auto simp: client_ok_def on_sent_def)
next
  case (cl_failed x)
  with ok show ?thesis by (auto simp: client_ok_def on_connect_failed_def)
next
  case (cl_read buf len x)
  from client_read [OF ok this] ok cl_read(1) show ?thesis
    by (auto simp: client_ok_def going_on_def finished_def)
qed

lemma client_ok_start: "client_start L c \<Longrightarrow> client_ok c"
  by (auto simp: client_start_def client_ok_def client_new_def ClientRequest_def OutgoingMessage_def setHeader_def)

interpretation requests: invariant "client_start L" "client_step L" client_ok for L :: "'p clenv"
  by unfold_locales (auto intro: client_ok_start client_ok_step)

section \<open>Properties\<close>

definition demo_http :: "nat clenv" where
  "demo_http = \<lparr>ce_http = (\<lambda>p d. (if d = ''!'' then [EvMessageComplete] else [EvBody d], int (length d), Suc p)),
     ce_init = 0, ce_url = (\<lambda>s b. None), ce_errname = (\<lambda>p. ''error''), ce_EOF = - 4095\<rparr>"

definition client1 :: "nat client" where
  "client1 = snd (on_sent (snd (client_end demo_http [] (client_new demo_http ''GET'' ''h'' 80 ''/''))))"

lemma client1_facts: "client_reach demo_http client1" "cl_reading client1" "cl_response client1 = Some (incoming_init False)"
proof -
  let ?c = "client_new demo_http ''GET'' ''h'' 80 ''/''"
  have "fresh (cl_out ?c)"
    by (simp add: client_new_def ClientRequest_def OutgoingMessage_def setHeader_def fresh_def)
  from message_in_one_write [OF this, of "[]"] obtain m where m: "endData [] (cl_out ?c) = (Inr (), m)" by blast
  have e: "snd (client_end demo_http [] ?c) = ?c\<lparr>cl_instance := True, cl_response := Some (incoming_init False),
    cl_parser := 0, cl_socket := True, cl_out := m, cl_waiting := True\<rparr>"
    using m by (simp add: client_end_def monad_defs on_out_def client_new_def demo_http_def)
  have r: "client_reach demo_http (snd (client_end demo_http [] ?c))"
    by (rule requests.more [OF requests.first cl_end [OF prod.collapse [symmetric]]]) (auto simp: client_start_def)
  have "client_step demo_http (snd (client_end demo_http [] ?c)) client1"
    by (rule cl_sent) (simp_all add: e client1_def on_sent_def modM_def)
  then show "client_reach demo_http client1" by (rule requests.more [OF r])
  show "cl_reading client1" "cl_response client1 = Some (incoming_init False)"
    by (simp_all add: client1_def e on_sent_def modM_def)
qed

text \<open>C21. Whatever the program and the network do: while the response is read its promise has no
result; every read returns, and either the client goes on reading, with its reference to
itself, its socket and its response, or it is done for good: the promise is settled, once,
reading has stopped, the socket is closed and the reference is dropped. The end of the stream
counts as success exactly when the response is not complete, also before its first byte.\<close>

theorem response_settled_once:
  assumes "client_reach L c" and "cl_reading c" and "no_url L"
  shows "cl_result c = None \<and>
    (\<exists>c'. client_on_read L buf len c = (Inr (), c') \<and>
      (if cl_result c' = None then cl_reading c' \<and> cl_instance c' \<and> cl_socket c' \<and> cl_response c' \<noteq> None
       else \<not> cl_reading c' \<and> \<not> cl_instance c' \<and> \<not> cl_socket c') \<and>
      (buf = None \<or> len < 0 \<longrightarrow> cl_result c' = Some
        (if len = ce_EOF L \<and> \<not> messageComplete (response_of c) then Answered (response_of c)
         else Failed ''No response from socket'')))"
proof -
  have ok: "client_ok c" by (rule requests.always [OF assms(1)])
  then have c: "cl_result c = None" "cl_instance c" "cl_response c \<noteq> None"
    using assms(2) by (auto simp: client_ok_def)
  obtain r c' where run: "client_on_read L buf len c = (r, c')" by (cases "client_on_read L buf len c")
  have "r = Inr () \<and> cl_out c' = cl_out c \<and> \<not> cl_waiting c' \<and> (going_on c' \<or> finished c')"
    using assms(3) by (intro client_read [OF ok assms(2) run]) simp
  moreover have "cl_result c' = Some (if len = ce_EOF L \<and> \<not> messageComplete (response_of c) then Answered (response_of c)
      else Failed ''No response from socket'')" if "buf = None \<or> len < 0"
    using that run c by (auto simp: read_defs split: if_splits)
  ultimately show ?thesis using run c(1) by (auto simp: going_on_def finished_def)
qed

theorem response_settled_once_witness:
  "\<exists>c'. client_on_read demo_http None (- 4095) client1 = (Inr (), c') \<and>
     cl_result c' = Some (Answered (incoming_init False))"
proof -
  have "no_url demo_http" by (simp add: no_url_def demo_http_def)
  from response_settled_once [OF client1_facts(1,2) this, of None "- 4095"] client1_facts(3) show ?thesis
    by (auto simp: response_of_def demo_http_def incoming_init_def)
qed

text \<open>C37. After a connection that failed the request is kept alive by its own reference, and its socket
stays open, whatever the program does with it: no later call of \<open>end\<close> gets past its
assertion, and no callback is left that could release it.\<close>

theorem failed_connect_leaks:
  assumes "client_reach L c" and "cl_waiting c" and "on_connect_failed c = (Inr (), c0)"
    and "(client_step L)\<^sup>*\<^sup>* c0 c'"
  shows "cl_instance c' \<and> cl_socket c' \<and> \<not> cl_waiting c' \<and> \<not> cl_reading c' \<and>
    fst (client_end L data c') = Inl (AssertExn ''!_socket'')"
proof -
  have ok: "client_ok c" by (rule requests.always [OF assms(1)])
  have "cl_instance c' \<and> cl_socket c' \<and> \<not> cl_waiting c' \<and> \<not> cl_reading c'"
    using assms(4)
  proof (induction rule: rtranclp_induct)
    case base
    show ?case using ok assms(2,3) by (auto simp: client_ok_def on_connect_failed_def)
  next
    case (step y z)
    from step.hyps(2) show ?case
    proof cases
      case (cl_end d r)
      with step.IH show ?thesis by (auto simp: client_end_def monad_defs)
    qed (use step.IH in auto)
  qed
  then show ?thesis by (simp add: client_end_def monad_defs)
qed

theorem failed_connect_leaks_witness:
  "\<exists>c :: nat client. cl_waiting c \<and> cl_instance (snd (on_connect_failed c)) \<and>
     fst (client_end demo_http [] (snd (on_connect_failed c))) = Inl (AssertExn ''!_socket'')"
proof -
  let ?c = "client_new demo_http ''GET'' ''h'' 80 ''/''" and ?d = "snd (client_end demo_http [] (client_new demo_http ''GET'' ''h'' 80 ''/''))"
  have "fresh (cl_out ?c)"
    by (simp add: client_new_def ClientRequest_def OutgoingMessage_def setHeader_def fresh_def)
  from message_in_one_write [OF this, of "[]"] obtain m where m: "endData [] (cl_out ?c) = (Inr (), m)" by blast
  then have w: "cl_waiting ?d" by (simp add: client_end_def monad_defs on_out_def client_new_def)
  have r: "client_reach demo_http ?d"
    by (rule requests.more [OF requests.first cl_end [OF prod.collapse [symmetric]]]) (auto simp: client_start_def)
  have "on_connect_failed ?d = (Inr (), snd (on_connect_failed ?d))" by (simp add: on_connect_failed_def modM_def)
  from failed_connect_leaks [OF r w this rtranclp.rtrancl_refl, of "[]"] w show ?thesis by blast
qed

end
