(* ===== verification/Exchange.thy ===== *)
theory Exchange
  imports Serving Client
begin

text \<open>
  A client and a server put together: the bytes a client request hands to its socket, the bytes a
  server connection answers, and the reading of the answer in whatever pieces the network
  delivers it.
\<close>

section \<open>The request that is sent\<close>

definition request_text :: "string \<Rightarrow> string \<Rightarrow> string \<Rightarrow> string" where
  "request_text method path data =
     method @ '' '' @ (if path = [] then ''/'' else path) @ '' HTTP/1.1'' @ CRLF @
     ''Connection: keep-alive'' @ CRLF @ ''Content-Length: '' @ dec (length data) @ CRLF @
     ''Content-Type: text/html'' @ CRLF @ CRLF @ data"

lemma new_request_ended:
  "\<exists>m. endData data (ClientRequest method host port path) = (Inr (), m) \<and>
     wire m = [SockConnectWrite host port (request_text method path data)] \<and> closed m"
proof -
  define m where "m = (ClientRequest method host port path)\<lparr>last_chunk := True\<rparr>"
  define p where "p = prepare_headers data m"
  have m: "\<not> closed m" "\<not> headerSent m" "wire m = []" "last_chunk m" "shouldKeepAlive m" "\<not> connected m"
    "kind m = Request method host port (if path = [] then ''/'' else path)"
    "headers m = [(''Content-Type'', ''text/html'')]" "httpMajor m = 1" "httpMinor m = 1"
    by (simp_all add: m_def ClientRequest_def OutgoingMessage_def setHeader_def)
  have h: "headers p = [(''Connection'', ''keep-alive''), (''Content-Length'', dec (length data)),
      (''Content-Type'', ''text/html'')]"
    using m(4,5,8)
    by (simp add: p_def prepare_headers_last same_key_def ci_less_names ci_less_self del: ci_less.simps)
  have v: "httpMajor p = 1" "httpMinor p = 1" "\<not> connected p"
    using m(6,9,10) by (simp_all add: p_def prepare_headers_def Let_def setHeader_def)
  have one: "dec 1 = ''1''" by code_simp
  have raw: "getMessageHeaderRaw p @ data = request_text method path data"
    using h v m(7) by (simp add: getMessageHeaderRaw_def request_text_def setHeaderFirstLine_def
        header_lines_def getHttpVersionString_def p_def one [simplified])
  have "writeData data m = (Inr (), sendData (getMessageHeaderRaw p @ data) p)"
    using m(1,2,7) by (simp add: writeData_def OutgoingMessage_writeData_def p_def Let_def)
  then have "endData data (ClientRequest method host port path) =
      (Inr (), (sendData (getMessageHeaderRaw p @ data) p)\<lparr>closed := True, sent := True\<rparr>)"
    by (intro endData_returns) (simp_all add: m_def ClientRequest_def OutgoingMessage_def setHeader_def)
  then show ?thesis
    using m(3,7) v(3) by (simp add: raw) (simp add: sendData_def p_def)
qed

section \<open>Requests in one call\<close>

text \<open>\<open>http::request\<close> and the two versions of \<open>http::get\<close>: a request is made and ended without data.\<close>

definition http_request :: "'p clenv \<Rightarrow> string \<Rightarrow> string \<Rightarrow> int \<Rightarrow> string \<Rightarrow> (exn + unit) \<times> 'p client" where
  "http_request L method host port path = client_end L [] (client_new L method host port path)"

definition http_get :: "'p clenv \<Rightarrow> string \<Rightarrow> int \<Rightarrow> string \<Rightarrow> (exn + unit) \<times> 'p client" where
  "http_get L host port path = client_end L [] (client_new L ''GET'' host port path)"

definition http_get_uri :: "'p clenv \<Rightarrow> string \<Rightarrow> exn + (exn + unit) \<times> 'p client" where
  "http_get_uri L iUri = (case ClientRequest_Create (ce_url L) ''GET'' iUri of
     Inl e \<Rightarrow> Inl e
   | Inr w \<Rightarrow> Inr (client_end L [] ((client_new L ''GET'' [] 0 [])\<lparr>cl_out := w\<rparr>)))"

lemma http_request_sends:
  "\<exists>c. http_request L method host port path = (Inr (), c) \<and> cl_waiting c \<and>
     wire (cl_out c) = [SockConnectWrite host port (request_text method path [])]"
proof -
  obtain m where "endData [] (ClientRequest method host port path) = (Inr (), m)"
    "wire m = [SockConnectWrite host port (request_text method path [])]"
    using new_request_ended by blast
  then show ?thesis
    by (simp add: http_request_def client_end_def monad_defs on_out_def client_new_def)
qed

text \<open>A URI that parses is asked for in one write: its path with its query, on the host and the port it
names.\<close>

lemma http_get_uri_sends:
  assumes "url_parse (ce_url L) iUri False empty_url = (Inr (), u)" and "url_host u = Inr host"
    and "url_port_of u = Inr port" and "url_path u = Inr path" and "url_query u = Inr query"
  shows "http_get_uri L iUri =
    Inr (http_get L host (int port) (if query \<noteq> [] then path @ ''?'' @ query else path))"
proof -
  have "ClientRequest_Create (ce_url L) ''GET'' iUri =
      Inr (ClientRequest ''GET'' host (int port) (if query \<noteq> [] then path @ ''?'' @ query else path))"
    unfolding ClientRequest_Create_def assms(1) prod.case sum.case unit.case assms(2-5) by (rule refl)
  then show ?thesis by (simp add: http_get_uri_def http_get_def client_new_def)
qed

lemma http_get_is_request: "http_get L = http_request L ''GET''"
  by (intro ext) (simp add: http_get_def http_request_def)

section \<open>Reading the answer\<close>

text \<open>The parser makes the complete response \<open>r\<close> of the pieces, the last of which completes it.\<close>

fun delivers :: "'p clenv \<Rightarrow> 'p \<Rightarrow> incoming \<Rightarrow> string list \<Rightarrow> incoming \<Rightarrow> bool" where
  "delivers L p m [] r = False"
| "delivers L p m (b # bs) r =
     (case ce_http L p b of (es, n, p') \<Rightarrow>
        n = int (length b) \<and>
        (case run_events (ce_url L) id es m of
           (Inl e, m') \<Rightarrow> False
         | (Inr _, m') \<Rightarrow> \<not> upgrade m' \<and>
             (if bs = [] then messageComplete m' \<and> r = m'
              else \<not> messageComplete m' \<and> delivers L p' m' bs r)))"

definition reading :: "'p client \<Rightarrow> 'p \<Rightarrow> incoming \<Rightarrow> bool" where
  "reading c p m \<longleftrightarrow> cl_reading c \<and> cl_instance c \<and> cl_response c = Some m \<and> cl_parser c = p \<and>
     cl_result c = None"

definition answered :: "'p client \<Rightarrow> incoming \<Rightarrow> bool" where
  "answered c r \<longleftrightarrow> cl_result c = Some (Answered r) \<and> \<not> cl_reading c \<and> \<not> cl_instance c \<and> \<not> cl_socket c"

lemma client_reads:
  assumes "reading c p m" "delivers L p m bs r"
  shows "\<exists>c'. (client_step L)\<^sup>*\<^sup>* c c' \<and> answered c' r"
  using assms
proof (induction bs arbitrary: c p m)
  case (Cons b bs)
  obtain es n p' where h: "ce_http L p b = (es, n, p')" by (cases "ce_http L p b")
  obtain q m' where e: "run_events (ce_url L) id es m = (q, m')" by (cases "run_events (ce_url L) id es m")
  have d: "n = int (length b)" "q = Inr ()" "\<not> upgrade m'"
    "if bs = [] then messageComplete m' \<and> r = m' else \<not> messageComplete m' \<and> delivers L p' m' bs r"
    using Cons.prems(2) h e by (auto split: sum.splits)
  have c: "cl_instance c" "cl_response c = Some m" "cl_parser c = p" "cl_result c = None" "cl_reading c"
    using Cons.prems(1) by (simp_all add: reading_def)
  let ?u = "c\<lparr>cl_response := Some m', cl_parser := p'\<rparr>"
  have u: "response_parse L b c = (Inr n, ?u)"
    using c h e d(2) by (simp add: response_parse_def response_of_def)
  show ?case
  proof (cases "bs = []")
    case True
    let ?v = "?u\<lparr>cl_result := Some (Answered r), cl_response := None, cl_instance := False,
      cl_reading := False, cl_socket := False\<rparr>"
    have "client_on_read L (Some b) n c = (Inr (), ?v)"
      using c d u True by (simp add: read_defs response_of_def)
    then have "client_step L c ?v" by (rule cl_read [OF c(5)])
    moreover have "answered ?v r" by (simp add: answered_def)
    ultimately show ?thesis by blast
  next
    case False
    have "client_on_read L (Some b) n c = (Inr (), ?u)"
      using c d u False by (simp add: read_defs response_of_def)
    then have s: "client_step L c ?u" by (rule cl_read [OF c(5)])
    obtain c' where "(client_step L)\<^sup>*\<^sup>* ?u c'" "answered c' r"
      using Cons.IH [of ?u p' m'] c d False by (auto simp: reading_def)
    with s show ?thesis by (meson converse_rtranclp_into_rtranclp)
  qed
qed simp

text \<open>From \<open>end\<close> to the start of reading.\<close>

lemma client_sends:
  "\<exists>c. (client_step L)\<^sup>*\<^sup>* (client_new L method host port path) c \<and>
     reading c (ce_init L) (incoming_init False) \<and>
     wire (cl_out c) = [SockConnectWrite host port (request_text method path data)]"
proof -
  let ?c = "client_new L method host port path"
  obtain m where m: "endData data (ClientRequest method host port path) = (Inr (), m)"
    "wire m = [SockConnectWrite host port (request_text method path data)]"
    using new_request_ended by blast
  let ?d = "?c\<lparr>cl_instance := True, cl_response := Some (incoming_init False), cl_socket := True,
    cl_out := m, cl_waiting := True\<rparr>"
  let ?e = "?d\<lparr>cl_waiting := False, cl_reading := True\<rparr>"
  have "client_end L data ?c = (Inr (), ?d)"
    using m(1) by (simp add: client_end_def monad_defs on_out_def client_new_def)
  then have "client_step L ?c ?d" by (rule cl_end)
  moreover have "on_sent ?d = (Inr (), ?e)" by (simp add: on_sent_def modM_def client_new_def)
  then have "client_step L ?d ?e" by (intro cl_sent) simp_all
  ultimately have "(client_step L)\<^sup>*\<^sup>* ?c ?e" by (meson converse_rtranclp_into_rtranclp r_into_rtranclp)
  then show ?thesis using m(2) by (intro exI [of _ ?e]) (simp add: reading_def client_new_def)
qed

section \<open>A concrete server and client\<close>

definition quick_handler :: "string \<Rightarrow> handler" where
  "quick_handler d = \<lparr>h_sync = [AEnd d], h_throw = None, h_async = [], h_res = None\<rparr>"

lemma demo_reply:
  "reply (demo_env (quick_handler d)) buf (response_head demo_request 200 (length d) @ d)"
proof -
  let ?E = "demo_env (quick_handler d)"
  have c: "e_http ?E p b = ([EvUrl ''/'', EvHeadersComplete demo_info, EvMessageComplete], int (length b), p)"
    "e_parser_init ?E = ()" "e_root ?E = 0" "e_method_str ?E k = ''GET''" "e_formats ?E = []"
    "e_handler ?E k q = quick_handler d" for p b k q
    by (simp_all add: demo_env_def)
  have r: "\<not> upgrade demo_request" "messageComplete demo_request" "url_path (url demo_request) = Inr ''/''"
    "uriTemplateValues demo_request = empty_value"
    by (simp_all add: demo_request_def ServerRequest_def url_path_def has_def url_field_text_def substr_def
        demo_url_def)
  have "asks ?E buf demo_request ''/''"
    using demo_parse [of "quick_handler d"] r by (simp add: asks_def c)
  moreover have "answers ?E demo_request ''/'' d"
    unfolding answers_def
  proof (intro exI conjI)
    show "matched ?E demo_request ''/'' = [(demo_callback, [])]"
      using demo_route [of "quick_handler d"] by (simp add: matched_def c)
    show "target demo_callback = ToFunction 7" by (simp add: demo_callback_def)
    show "extract_uri (e_rx ?E) (e_formats ?E) (uri demo_callback) ''/'' False
        (uriTemplateValues demo_request) = (Inr True, UVal [] ''/'' [])"
      using demo_extract [of "quick_handler d"] r(4) by (simp add: c demo_callback_def)
    show "e_handler ?E 7 (Some (demo_request\<lparr>uriTemplateValues := UVal [] ''/'' []\<rparr>)) =
        \<lparr>h_sync = [AEnd d], h_throw = None, h_async = [], h_res = None\<rparr>"
      by (simp add: c) (simp add: quick_handler_def)
  qed
  ultimately show ?thesis by (auto simp: reply_def)
qed

lemma demo_reply_hi:
  "reply (demo_env (quick_handler ''hi!'')) buf (response_head demo_request 200 3 @ ''hi!'')"
proof -
  have "length ''hi!'' = 3" by simp
  with demo_reply [of "''hi!''" buf] show ?thesis by (simp only:)
qed

lemma demo_depth: "e_depth (demo_env h) \<noteq> 0"
  by (simp add: demo_env_def)

definition two_connections :: "unit server" where
  "two_connections = (Server_Create 0)\<lparr>s_connections := [5, 6], s_conn := (\<lambda>_. demo_accepted)\<rparr>"

lemma two_ready: "\<forall>n \<in> set (s_connections two_connections). ready (s_conn two_connections n)"
  "s_connections two_connections = [5, 6]" "c_out (s_conn two_connections n) = []"
  by (simp_all add: two_connections_def ready_def demo_accepted_def ServerConnection_def)

definition ok_info :: parser_info where
  "ok_info = \<lparr>p_upgrade = False, p_http_major = 1, p_http_minor = 1, p_method = 0, p_status_code = 200\<rparr>"

text \<open>A parser that finds the end of the message in the piece that ends with \<open>!\<close>.\<close>

definition bang_http :: "unit clenv" where
  "bang_http = \<lparr>ce_http = (\<lambda>p d. (if d \<noteq> [] \<and> last d = CHR ''!''
       then [EvHeadersComplete ok_info, EvBody d, EvMessageComplete] else [], int (length d), p)),
     ce_init = (), ce_url = (\<lambda>s b. None), ce_errname = (\<lambda>p. ''error''), ce_EOF = - 4095\<rparr>"

definition demo_response :: incoming where
  "demo_response = (incoming_init False)\<lparr>statusCode := 200, body := ''hi!'', messageComplete := True\<rparr>"

lemma bang_delivers:
  assumes "h \<noteq> []" "last h \<noteq> CHR ''!''"
  shows "delivers bang_http () (incoming_init False) [h, ''hi!''] demo_response"
proof -
  have e: "run_events (ce_url bang_http) id [] (incoming_init False) = (Inr (), incoming_init False)"
    by (simp add: run_events_def monad_defs)
  have f: "run_events (ce_url bang_http) id [EvHeadersComplete ok_info, EvBody ''hi!'', EvMessageComplete]
      (incoming_init False) = (Inr (), demo_response)"
    by (simp add: run_events_def run_event_def on_headers_complete_def on_body_def on_message_complete_def
        ok_info_def monad_defs incoming_init_def demo_response_def Let_def)
  have "\<not> messageComplete (incoming_init False)" "\<not> upgrade (incoming_init False)"
    "messageComplete demo_response" "\<not> upgrade demo_response"
    by (simp_all add: incoming_init_def demo_response_def)
  with assms e f show ?thesis by (simp add: bang_http_def)
qed

end
