(* ===== verification/Regex.thy ===== *)
theory Regex
  imports Router
begin

text \<open>
  The regular expressions: \<open>Smatch\<close> and \<open>Regex\<close> (\<open>include/native/Regex.hpp\<close>) and their
  implementations on RE2, \<open>std::regex\<close> and \<open>boost::regex\<close> (\<open>src/Regex.cpp\<close>). RE2 and Boost are
  parameters. Of \<open>std::regex\<close> only how a pattern matches at a position is one; what
  \<open>std::regex_match\<close>, \<open>std::regex_search\<close> and \<open>std::regex_replace\<close> make of it is modelled. The abstract
  class \<open>Regex\<close> is a locale, of which routing is a client.
\<close>

section \<open>Engines\<close>

text \<open>A group is a range of the text, or it took no part in the match.\<close>

type_synonym span = "(nat \<times> nat) option"

text \<open>The groups of a match of the whole text; the end and the groups of a match that starts at a
position, where the match may be required not to be empty; a match formatted as a replacement.\<close>

record engine =
  eng_full :: "string \<Rightarrow> string \<Rightarrow> span list option"
  eng_at :: "string \<Rightarrow> string \<Rightarrow> nat \<Rightarrow> bool \<Rightarrow> (nat \<times> span list) option"
  eng_format :: "string \<Rightarrow> string \<Rightarrow> span list \<Rightarrow> string"

record smatch =
  sm_text :: string
  sm_spans :: "span list"

definition span_text :: "string \<Rightarrow> span \<Rightarrow> string" where
  "span_text t sp = (case sp of None \<Rightarrow> [] | Some (b, e) \<Rightarrow> take (e - b) (drop b t))"

text \<open>The accessors of \<open>std::smatch\<close>; a group that does not exist is empty.\<close>

definition smatch_size :: "smatch \<Rightarrow> nat" where
  "smatch_size m = length (sm_spans m)"

definition smatch_group :: "smatch \<Rightarrow> nat \<Rightarrow> string" where
  "smatch_group m i = (if i < length (sm_spans m) then span_text (sm_text m) (sm_spans m ! i) else [])"

definition smatch_position :: "smatch \<Rightarrow> nat" where
  "smatch_position m = (case sm_spans m of Some (b, e) # sps \<Rightarrow> b | _ \<Rightarrow> length (sm_text m))"

definition smatch_length :: "smatch \<Rightarrow> nat" where
  "smatch_length m = length (smatch_group m 0)"

text \<open>\<open>regex_match\<close> and \<open>regex_search\<close>: the first position at which there is a match, or the start
only (\<open>match_continuous\<close>).\<close>

definition regex_match :: "engine \<Rightarrow> string \<Rightarrow> string \<Rightarrow> span list option" where
  "regex_match G p t = map_option (\<lambda>sps. Some (0, length t) # sps) (eng_full G p t)"

definition match_from :: "engine \<Rightarrow> string \<Rightarrow> string \<Rightarrow> bool \<Rightarrow> nat \<Rightarrow> span list option" where
  "match_from G p t nn i = map_option (\<lambda>(e, sps). Some (i, e) # sps) (eng_at G p t i nn)"

fun first_match :: "engine \<Rightarrow> string \<Rightarrow> string \<Rightarrow> nat list \<Rightarrow> span list option" where
  "first_match G p t [] = None"
| "first_match G p t (i # is) =
     (case match_from G p t False i of Some sps \<Rightarrow> Some sps | None \<Rightarrow> first_match G p t is)"

definition regex_search :: "engine \<Rightarrow> string \<Rightarrow> string \<Rightarrow> bool \<Rightarrow> nat \<Rightarrow> span list option" where
  "regex_search G p t continuous start =
     (if continuous then (if start \<le> length t then match_from G p t False start else None)
      else first_match G p t [start..<Suc (length t)])"

section \<open>Matching\<close>

definition STD_match :: "engine \<Rightarrow> string \<Rightarrow> anchor \<Rightarrow> string \<Rightarrow> smatch option" where
  "STD_match G p a t = map_option (\<lambda>sps. \<lparr>sm_text = t, sm_spans = sps\<rparr>)
     (if a = ANCHOR_BOTH then regex_match G p t else regex_search G p t (a = ANCHOR_START) 0)"

text \<open>\<open>RE2::Match\<close>, \<open>RE2::Replace\<close> and \<open>RE2::GlobalReplace\<close>, and the functions of Boost.\<close>

datatype re2_anchor = RE2_ANCHOR_BOTH | RE2_ANCHOR_START | RE2_UNANCHORED

record re2lib =
  re2_Match :: "string \<Rightarrow> string \<Rightarrow> re2_anchor \<Rightarrow> span list option"
  re2_Replace :: "string \<Rightarrow> string \<Rightarrow> string \<Rightarrow> bool \<times> string"
  re2_GlobalReplace :: "string \<Rightarrow> string \<Rightarrow> string \<Rightarrow> nat \<times> string"

record boostlib =
  boost_match :: "string \<Rightarrow> string \<Rightarrow> span list option"
  boost_search :: "string \<Rightarrow> string \<Rightarrow> bool \<Rightarrow> span list option"
  boost_replace :: "string \<Rightarrow> string \<Rightarrow> string \<Rightarrow> bool \<Rightarrow> string"

definition BOOST_match :: "boostlib \<Rightarrow> string \<Rightarrow> anchor \<Rightarrow> string \<Rightarrow> smatch option" where
  "BOOST_match L p a t = map_option (\<lambda>sps. \<lparr>sm_text = t, sm_spans = sps\<rparr>)
     (if a = ANCHOR_BOTH then boost_match L p t else boost_search L p t (a = ANCHOR_START))"

definition RE2_match :: "re2lib \<Rightarrow> string \<Rightarrow> anchor \<Rightarrow> string \<Rightarrow> smatch option" where
  "RE2_match L p a t =
     (let anchor = (if a = ANCHOR_BOTH then RE2_ANCHOR_BOTH
                    else if a = ANCHOR_START then RE2_ANCHOR_START else RE2_UNANCHORED)
      in map_option (\<lambda>sps. \<lparr>sm_text = t, sm_spans = sps\<rparr>) (re2_Match L p t anchor))"

text \<open>\<open>Regex::Create\<close> and a match, with its groups read.\<close>

datatype backend = RE2 re2lib | STDREGEX engine | BOOSTREGEX boostlib

definition Regex_match :: "backend \<Rightarrow> string \<Rightarrow> anchor \<Rightarrow> string \<Rightarrow> smatch option" where
  "Regex_match B = (case B of
       RE2 L \<Rightarrow> RE2_match L | STDREGEX G \<Rightarrow> STD_match G | BOOSTREGEX L \<Rightarrow> BOOST_match L)"

definition Regex_lib :: "backend \<Rightarrow> regex_lib" where
  "Regex_lib B p a t =
     map_option (\<lambda>m. map (smatch_group m) [0..<smatch_size m]) (Regex_match B p a t)"

section \<open>Replacing\<close>

datatype replace_type = REPLACE_FIRST | REPLACE_ANY

text \<open>The matches a \<open>regex_iterator\<close> visits after the one of the range from \<open>b\<close> to \<open>e\<close>.\<close>

fun more_matches :: "nat \<Rightarrow> engine \<Rightarrow> string \<Rightarrow> string \<Rightarrow> bool \<Rightarrow> span list option \<Rightarrow> span list list" where
  "more_matches 0 G p t c m = []"
| "more_matches (Suc n) G p t c None = []"
| "more_matches (Suc n) G p t c (Some sps) = sps #
     (case sps of
        Some (b, e) # _ \<Rightarrow>
          (if b = e then
             (if e = length t then []
              else more_matches n G p t c (case match_from G p t True e of
                     Some m \<Rightarrow> Some m | None \<Rightarrow> regex_search G p t c (e + 1)))
           else more_matches n G p t c (regex_search G p t c e))
      | _ \<Rightarrow> [])"

definition all_matches :: "engine \<Rightarrow> string \<Rightarrow> string \<Rightarrow> bool \<Rightarrow> span list list" where
  "all_matches G p t c = more_matches (2 * length t + 2) G p t c (regex_search G p t c 0)"

fun splice :: "engine \<Rightarrow> string \<Rightarrow> string \<Rightarrow> nat \<Rightarrow> span list list \<Rightarrow> string" where
  "splice G t w i [] = drop i t"
| "splice G t w i (sps # ms) = (case sps of
       Some (b, e) # _ \<Rightarrow> take (b - i) (drop i t) @ eng_format G w t sps @ splice G t w e ms
     | _ \<Rightarrow> drop i t)"

text \<open>\<open>regex_replace\<close> with \<open>match_continuous\<close> or \<open>match_default\<close>.\<close>

definition regex_replace :: "engine \<Rightarrow> string \<Rightarrow> string \<Rightarrow> string \<Rightarrow> bool \<Rightarrow> string" where
  "regex_replace G p t w continuous = splice G t w 0 (all_matches G p t continuous)"

definition STD_replace :: "engine \<Rightarrow> string \<Rightarrow> string \<Rightarrow> string \<Rightarrow> replace_type \<Rightarrow> bool \<times> string" where
  "STD_replace G p t w ty =
     (let t' = regex_replace G p t w (ty = REPLACE_FIRST) in (t \<noteq> t', t'))"

definition BOOST_replace :: "boostlib \<Rightarrow> string \<Rightarrow> string \<Rightarrow> string \<Rightarrow> replace_type \<Rightarrow> bool \<times> string" where
  "BOOST_replace L p t w ty =
     (let t' = boost_replace L p t w (ty = REPLACE_FIRST) in (t \<noteq> t', t'))"

definition RE2_replace :: "re2lib \<Rightarrow> string \<Rightarrow> string \<Rightarrow> string \<Rightarrow> replace_type \<Rightarrow> bool \<times> string" where
  "RE2_replace L p t w ty =
     (if ty = REPLACE_FIRST then re2_Replace L p t w
      else case re2_GlobalReplace L p t w of (n, t') \<Rightarrow> (n > 0, t'))"

definition Regex_replace ::
  "backend \<Rightarrow> string \<Rightarrow> string \<Rightarrow> string \<Rightarrow> replace_type \<Rightarrow> bool \<times> string" where
  "Regex_replace B = (case B of
       RE2 L \<Rightarrow> RE2_replace L | STDREGEX G \<Rightarrow> STD_replace G | BOOSTREGEX L \<Rightarrow> BOOST_replace L)"

section \<open>The interface\<close>

text \<open>What a client of the class \<open>Regex\<close> relies on, whatever the implementation: the group 0 of a
match is the whole text, a prefix of it, or a part of it, as the anchor demands.\<close>

locale regex_class =
  fixes lib :: regex_lib
  assumes anchored_both: "lib p ANCHOR_BOTH t = Some g \<Longrightarrow> g \<noteq> [] \<and> hd g = t"
    and anchored_start: "lib p ANCHOR_START t = Some g \<Longrightarrow> g \<noteq> [] \<and> (\<exists>k. hd g = take k t)"
    and not_anchored: "lib p UNANCHORED t = Some g \<Longrightarrow> g \<noteq> [] \<and> (\<exists>j k. hd g = take k (drop j t))"
begin

lemma group_0_prefix:
  assumes "lib p a t = Some g" "a \<noteq> UNANCHORED"
  shows "smatch_str g 0 = take (length (smatch_str g 0)) t"
proof -
  have "g \<noteq> []" "\<exists>k. hd g = take k t"
    using assms anchored_both [of p t g] anchored_start [of p t g]
    by (cases a; force intro: exI [of _ "length t"])+
  then show ?thesis by (cases g) (auto simp: smatch_str_def min_def)
qed

lemma matched_length:
  assumes "matchUri lib d path = Some n"
  shows "0 < n \<and> n \<le> length path \<and> (n = length path \<or> path ! n = CHR ''/'')"
  using assms by (auto simp: matchUri_def Let_def split: option.splits if_splits)

lemma matched_text:
  assumes "matchUri lib d path = Some n"
  shows "\<exists>g. lib (getPattern False True (uri d))
      (if uriRegexMatchWholePath d then ANCHOR_START else ANCHOR_BOTH) path = Some g \<and>
    smatch_str g 0 = take n path"
proof -
  let ?a = "if uriRegexMatchWholePath d then ANCHOR_START else ANCHOR_BOTH"
  obtain g where g: "lib (getPattern False True (uri d)) ?a path = Some g" "n = length (smatch_str g 0)"
    using assms by (auto simp: matchUri_def Let_def split: option.splits if_splits)
  have "?a \<noteq> UNANCHORED" by simp
  from group_0_prefix [OF g(1) this] g show ?thesis by auto
qed

lemma both_anchored: "both_anchored lib"
  unfolding both_anchored_def using anchored_both by blast

text \<open>Each callback of a request is given the rest of the path behind the part its own template
matched, whole segments of it.\<close>

lemma routed_rest:
  assumes "(d, rest) \<in> set (route lib p m path)"
  shows "\<exists>n. matchUri lib d path = Some n \<and> path = take n path @ rest \<and> length rest < length path \<and>
    (rest = [] \<or> hd rest = CHR ''/'') \<and> (\<not> uriRegexMatchWholePath d \<longrightarrow> rest = [])"
proof -
  obtain n where n: "matchUri lib d path = Some n" "rest = drop n path"
    using assms by (auto simp: route_sorts_by_length match_length_def)
  from matched_length [OF n(1)] have b: "0 < n" "n \<le> length path" "n = length path \<or> path ! n = CHR ''/''"
    by auto
  have "rest = [] \<or> hd rest = CHR ''/''"
    using b n(2) by (cases "n = length path") (auto simp: hd_drop_conv_nth)
  moreover have "\<not> uriRegexMatchWholePath d \<longrightarrow> rest = []"
    using plugin_matches_whole_path_only [OF both_anchored _ n(1)] n(2) by blast
  ultimately show ?thesis using b n by (intro exI [of _ n]) simp
qed

lemma empty_path_unrouted: "route lib q m [] = []"
proof -
  have "matchUri lib d [] = None" for d using matched_length [of d "[]"] by (cases "matchUri lib d []") auto
  then show ?thesis by (simp add: route_sorts_by_length)
qed

end

section \<open>The three implementations\<close>

text \<open>What the documentation of RE2 and Boost says of the range that is matched.\<close>

definition starts :: "bool \<Rightarrow> bool \<Rightarrow> string \<Rightarrow> span list \<Rightarrow> bool" where
  "starts bos eos t sps \<longleftrightarrow> (\<exists>b e rest. sps = Some (b, e) # rest \<and> (bos \<longrightarrow> b = 0) \<and> (eos \<longrightarrow> e = length t))"

definition backend_doc :: "backend \<Rightarrow> bool" where
  "backend_doc B = (case B of
       RE2 L \<Rightarrow> (\<forall>p t a sps. re2_Match L p t a = Some sps \<longrightarrow>
         starts (a \<noteq> RE2_UNANCHORED) (a = RE2_ANCHOR_BOTH) t sps)
     | STDREGEX G \<Rightarrow> True
     | BOOSTREGEX L \<Rightarrow> (\<forall>p t sps. boost_match L p t = Some sps \<longrightarrow> starts True True t sps) \<and>
         (\<forall>p t c sps. boost_search L p t c = Some sps \<longrightarrow> starts c False t sps))"

lemma first_match_some:
  "first_match G p t is = Some sps \<Longrightarrow> \<exists>i \<in> set is. \<exists>e rest. sps = Some (i, e) # rest"
  by (induction "is") (auto simp: match_from_def split: option.splits)

lemma search_some: "regex_search G p t c 0 = Some sps \<Longrightarrow> starts c False t sps"
  using first_match_some [of G p t "[0..<Suc (length t)]" sps]
  by (auto simp: regex_search_def match_from_def starts_def simp del: upt_Suc split: if_splits)

lemma Regex_match_some:
  assumes "backend_doc B" "Regex_match B p a t = Some m"
  shows "sm_text m = t \<and> starts (a \<noteq> UNANCHORED) (a = ANCHOR_BOTH) t (sm_spans m)"
proof (cases B)
  case (RE2 L)
  with assms show ?thesis
    by (cases a) (fastforce simp: backend_doc_def Regex_match_def RE2_match_def)+
next
  case (STDREGEX G)
  have "regex_match G p t = Some sps \<Longrightarrow> starts True True t sps" for sps
    by (auto simp: regex_match_def starts_def)
  with STDREGEX assms(2) show ?thesis
    by (cases a) (auto simp: Regex_match_def STD_match_def dest: search_some)
next
  case (BOOSTREGEX L)
  with assms show ?thesis
    by (cases a) (fastforce simp: backend_doc_def Regex_match_def BOOST_match_def)+
qed

lemma Regex_lib_group_0:
  assumes "backend_doc B" "Regex_lib B p a t = Some g"
  shows "\<exists>b e. g \<noteq> [] \<and> hd g = take (e - b) (drop b t) \<and> (a \<noteq> UNANCHORED \<longrightarrow> b = 0) \<and>
    (a = ANCHOR_BOTH \<longrightarrow> e = length t)"
proof -
  obtain m where g: "Regex_match B p a t = Some m" "g = map (smatch_group m) [0..<smatch_size m]"
    using assms(2) by (auto simp: Regex_lib_def)
  then obtain b e rest where s: "sm_spans m = Some (b, e) # rest" "sm_text m = t"
    "a \<noteq> UNANCHORED \<longrightarrow> b = 0" "a = ANCHOR_BOTH \<longrightarrow> e = length t"
    using Regex_match_some [OF assms(1) g(1)] by (auto simp: starts_def)
  then have "g \<noteq> []" "hd g = take (e - b) (drop b t)"
    by (simp_all add: g(2) hd_map upt_conv_Cons smatch_group_def smatch_size_def span_text_def del: upt_Suc)
  with s show ?thesis by blast
qed

lemma backend_is_regex_class: "backend_doc B \<Longrightarrow> regex_class (Regex_lib B)"
  by unfold_locales (drule (1) Regex_lib_group_0; auto)+

interpretation stdregex: regex_class "Regex_lib (STDREGEX G)"
  by (rule backend_is_regex_class) (simp add: backend_doc_def)

section \<open>Properties\<close>


definition mounting :: plugin where
  "mounting = new_plugin\<lparr>plugins := [mounted]\<rparr>"

text \<open>An engine for patterns without operators; the end of the text is the pattern's last character.\<close>

definition literal_at :: "string \<Rightarrow> string \<Rightarrow> nat \<Rightarrow> bool \<Rightarrow> (nat \<times> span list) option" where
  "literal_at p t i nn =
     (if p \<noteq> [] \<and> last p = CHR ''$''
      then (if drop i t = butlast p then Some (length t, []) else None)
      else if take (length p) (drop i t) = p \<and> \<not> (nn \<and> p = []) then Some (i + length p, []) else None)"

definition literal_engine :: engine where
  "literal_engine = \<lparr>eng_full = (\<lambda>p t. map_option snd (if literal_at p t 0 False = Some (length t, [])
       then literal_at p t 0 False else None)),
     eng_at = literal_at, eng_format = (\<lambda>w t sps. w)\<rparr>"

lemma literal_route:
  "route (Regex_lib (STDREGEX literal_engine)) mounting ''GET'' ''/api'' = [(mounted, [])]"
proof -
  have "matchUri (Regex_lib (STDREGEX literal_engine)) mounted ''/api'' = Some 4"
    by (simp add: matchUri_def Regex_lib_def Regex_match_def STD_match_def regex_match_def literal_engine_def
        literal_at_def mounted_def getPattern_def smatch_str_def smatch_size_def smatch_group_def span_text_def)
  moreover have "registered mounting ''GET'' = [mounted]"
    by (simp add: registered_def mounting_def new_plugin_def)
  ultimately show ?thesis by (simp add: route_sorts_by_length match_length_def)
qed


lemma more_matches_first:
  "\<exists>ms. more_matches (Suc n) G p t c (Some sps) = sps # ms" by simp

text \<open>With \<open>std::regex\<close>, \<open>REPLACE_FIRST\<close> does not replace the first match: it asks for matches at the
start of the text. When the first match is at another position nothing is replaced and the
result is false, while \<open>REPLACE_ANY\<close> replaces that match.\<close>

lemma replace_first_only_at_start:
  assumes "regex_search G p t False 0 = Some (Some (b, e) # sps)" and "0 < b"
  shows "Regex_replace (STDREGEX G) p t w REPLACE_FIRST = (False, t) \<and>
    (\<exists>rest. snd (Regex_replace (STDREGEX G) p t w REPLACE_ANY) =
       take b t @ eng_format G w t (Some (b, e) # sps) @ rest)"
proof -
  have f: "first_match G p t [0..<Suc (length t)] = Some (Some (b, e) # sps)"
    using assms(1) by (simp add: regex_search_def del: upt_Suc)
  have "match_from G p t False 0 = None"
  proof (cases "match_from G p t False 0")
    case (Some x)
    then have "first_match G p t [0..<Suc (length t)] = Some x" by (simp add: upt_conv_Cons del: upt_Suc)
    with f Some assms(2) show ?thesis by (auto simp: match_from_def)
  qed simp
  then have "all_matches G p t True = []"
    by (simp add: all_matches_def regex_search_def)
  moreover obtain ms where "all_matches G p t False = (Some (b, e) # sps) # ms"
    using more_matches_first [of "Suc (2 * length t)" G p t False "Some (b, e) # sps"] assms(1)
    by (auto simp: all_matches_def)
  ultimately show ?thesis by (simp add: Regex_replace_def STD_replace_def regex_replace_def Let_def)
qed

lemma replace_first_only_at_start_example:
  "Regex_replace (STDREGEX literal_engine) ''b'' ''abb'' ''x'' REPLACE_FIRST = (False, ''abb'')"
proof -
  have "regex_search literal_engine ''b'' ''abb'' False 0 = Some (Some (1, 2) # [])"
    by (simp add: regex_search_def match_from_def literal_engine_def literal_at_def upt_rec)
  from replace_first_only_at_start [OF this, of "''x''"] show ?thesis by simp
qed

text \<open>The fuel of \<open>all_matches\<close> is enough: more of it does not change the result.\<close>

definition engine_ok :: "engine \<Rightarrow> bool" where
  "engine_ok G \<longleftrightarrow> (\<forall>p t i nn e sps. i \<le> length t \<longrightarrow> eng_at G p t i nn = Some (e, sps) \<longrightarrow>
     i \<le> e \<and> e \<le> length t \<and> (nn \<longrightarrow> i < e))"

fun to_go :: "string \<Rightarrow> span list option \<Rightarrow> nat" where
  "to_go t (Some (Some (b, e) # sps)) = Suc (2 * (length t - e) + (if b = e then 0 else 1))"
| "to_go t _ = 0"

definition range_ok :: "nat \<Rightarrow> string \<Rightarrow> span list option \<Rightarrow> bool" where
  "range_ok i t m \<longleftrightarrow> (\<forall>sps. m = Some sps \<longrightarrow>
     (\<exists>b e rest. sps = Some (b, e) # rest \<and> i \<le> b \<and> b \<le> e \<and> e \<le> length t))"

lemma engine_okD:
  "engine_ok G \<Longrightarrow> i \<le> length t \<Longrightarrow> eng_at G p t i nn = Some (e, sps) \<Longrightarrow>
     i \<le> e \<and> e \<le> length t \<and> (nn \<longrightarrow> i < e)"
  unfolding engine_ok_def by blast

lemma match_from_range:
  assumes "engine_ok G" "i \<le> length t"
  shows "range_ok i t (match_from G p t nn i)"
proof (cases "eng_at G p t i nn")
  case (Some x)
  then show ?thesis
    using engine_okD [OF assms, of p nn "fst x" "snd x"] by (cases x) (simp add: range_ok_def match_from_def)
qed (simp add: range_ok_def match_from_def)

lemma range_ok_mono: "range_ok j t m \<Longrightarrow> i \<le> j \<Longrightarrow> range_ok i t m"
  unfolding range_ok_def by (metis le_trans)

lemma first_match_range:
  "engine_ok G \<Longrightarrow> \<forall>j \<in> set is. i \<le> j \<and> j \<le> length t \<Longrightarrow> range_ok i t (first_match G p t is)"
proof (induction "is")
  case (Cons j js)
  have r: "range_ok i t (match_from G p t False j)"
    by (rule range_ok_mono [OF match_from_range]) (use Cons.prems in auto)
  show ?case
  proof (cases "match_from G p t False j")
    case None
    with Cons show ?thesis by simp
  next
    case (Some x)
    with r show ?thesis by simp
  qed
qed (simp add: range_ok_def)

lemma search_range: "engine_ok G \<Longrightarrow> range_ok i t (regex_search G p t c i)"
  using match_from_range [of G i t p False] first_match_range [of G "[i..<Suc (length t)]" i t p]
  by (auto simp: regex_search_def range_ok_def simp del: upt_Suc)

lemma range_ok_to_go:
  "range_ok i t m \<Longrightarrow> b \<le> e \<Longrightarrow> e \<le> length t \<Longrightarrow> (if b = e then e < i else i = e) \<Longrightarrow>
     to_go t m < to_go t (Some (Some (b, e) # sps))"
  by (cases "(t, m)" rule: to_go.cases) (auto simp: range_ok_def split: if_splits)

lemma more_matches_enough:
  assumes "engine_ok G" "range_ok 0 t m" "to_go t m \<le> n"
  shows "more_matches (n + k) G p t c m = more_matches n G p t c m"
  using assms(2,3)
proof (induction n arbitrary: m)
  case 0
  then show ?case by (cases "(t, m)" rule: to_go.cases; cases k) (auto simp: range_ok_def)
next
  case (Suc n)
  show ?case
  proof (cases m)
    case (Some sps)
    with Suc.prems(1) obtain b e rest where s: "sps = Some (b, e) # rest" "b \<le> e" "e \<le> length t"
      by (auto simp: range_ok_def)
    have next_eq: "more_matches (n + k) G p t c m' = more_matches n G p t c m'"
      if "range_ok i t m'" "if b = e then e < i else i = e" for m' i
    proof (rule Suc.IH)
      show "range_ok 0 t m'" using that(1) by (fastforce simp: range_ok_def)
      show "to_go t m' \<le> n"
        using range_ok_to_go [OF that(1) s(2,3) that(2), of rest] Suc.prems(2) Some s(1) by simp
    qed
    show ?thesis
    proof (cases "b = e")
      case True
      have "more_matches (n + k) G p t c m' = more_matches n G p t c m'"
        if m': "m' = (case match_from G p t True e of Some x \<Rightarrow> Some x | None \<Rightarrow> regex_search G p t c (e + 1))"
        for m'
      proof (cases "match_from G p t True e")
        case None
        with m' True show ?thesis using search_range [OF assms(1), of "e + 1" t p c] by (intro next_eq) auto
      next
        case mf: (Some x)
        then obtain e' r where at: "eng_at G p t e True = Some (e', r)" and x: "x = Some (e, e') # r"
          by (auto simp: match_from_def)
        have "e < e'" "e' \<le> length t" using engine_okD [OF assms(1) s(3) at] by simp_all
        then have "range_ok 0 t m'" "to_go t m' \<le> n"
          using m' mf x True Some s Suc.prems(2) by (simp_all add: range_ok_def)
        then show ?thesis by (rule Suc.IH)
      qed
      then show ?thesis using Some s(1) True by simp
    next
      case False
      then show ?thesis using Some s(1) next_eq [OF search_range [OF assms(1), of e t p c]] by simp
    qed
  qed simp
qed

lemma to_go_bound: "to_go t m \<le> 2 * length t + 2"
  by (cases "(t, m)" rule: to_go.cases) auto

lemma all_matches_enough:
  assumes "engine_ok G"
  shows "more_matches (2 * length t + 2 + k) G p t c (regex_search G p t c 0) = all_matches G p t c"
  unfolding all_matches_def
  by (rule more_matches_enough [OF assms search_range [OF assms] to_go_bound])

text \<open>Where the matches are adjacent from the start, more than the first is replaced.\<close>

lemma replace_first_replaces_two:
  "Regex_replace (STDREGEX literal_engine) ''b'' ''bba'' ''x'' REPLACE_FIRST = (True, ''xxa'')"
  by code_simp

end
