(* ===== verification/HandleProps.thy ===== *)
theory HandleProps
  imports Handles
begin

text \<open>
  Properties of the handles: requests are answered once, \<open>close\<close> is answered once and a handle
  lives until then, and what goes wrong after a failed \<open>connect\<close> and after a handle is closed.
\<close>

section \<open>A closed handle stays closed\<close>

definition dead :: "nat \<Rightarrow> 'v hsys \<Rightarrow> bool" where
  "dead h y \<longleftrightarrow> h < length (y_objs y) \<and> \<not> h_data (y_objs y ! h)"

lemma dead_upd:
  "(\<And>x. h_data (g x) \<longrightarrow> h_data x) \<Longrightarrow> dead h y \<Longrightarrow> dead h (upd_handle k g y)"
  by (cases "h = k") (auto simp: dead_def upd_handle_def)

lemma dead_objs: "y_objs z = y_objs y \<Longrightarrow> dead h y \<Longrightarrow> dead h z"
  by (simp add: dead_def)

lemma dead_on_fut: "on_fut m y = (r, z) \<Longrightarrow> dead h y \<Longrightarrow> dead h z"
  by (auto simp: on_fut_def dead_def split: prod.splits)

lemma dead_new:
  assumes "dead h y"
  shows "Tcp_Create y = (Inr k, z) \<Longrightarrow> dead h z" "Timer_Create r y = (Inr k, z) \<Longrightarrow> dead h z"
  using assms by (auto simp: Tcp_Create_def Timer_Create_def handle_defs dead_def nth_append split: if_splits)

lemma dead_close:
  assumes "hok y" and "dead h y" and k: "k < length (y_objs y)" and run: "Handle_close k y = (Inr f, z)"
  shows "dead h z"
proof -
  have "dead h (close_st k y)"
    using assms(2) unfolding close_st_def by (intro dead_upd) (auto simp: dead_def)
  with assms(2) run Handle_close_eq [OF assms(1) k Handle_close_thread [OF run]] show ?thesis
    by (auto split: if_splits)
qed

lemma dead_timeout:
  assumes "hok y" and "dead h y" and k: "k < length (y_objs y)" and run: "Timer_OnTimeout E n k repeat cb y = (Inr x, z)"
  shows "dead h z"
proof (cases "repeat = 0 \<or> \<not> cb")
  case True
  obtain q u where q: "Handle_close k y = (q, u)" by (cases "Handle_close k y")
  with run True obtain f where f: "q = Inr f" by (cases q) (auto simp: Timer_OnTimeout_def Timer_close_def monad_defs)
  have "dead h u" by (rule dead_close [OF assms(1,2) k q [unfolded f]])
  then show ?thesis using run True q f
    by (auto simp: Timer_OnTimeout_def Timer_close_def monad_defs dest: dead_on_fut split: prod.splits sum.splits)
qed (use run assms(2) in \<open>simp add: Timer_OnTimeout_def monad_defs\<close>)

lemma dead_request:
  assumes d: "dead h y"
  shows "Stream_write E k res y = (Inr f, z) \<Longrightarrow> dead h z" "Stream_shutdown E k res y = (Inr f, z) \<Longrightarrow> dead h z"
    "Tcp_connect E k v a res y = (Inr f, z) \<Longrightarrow> dead h z" "Pipe_connect E k y = (Inr f, z) \<Longrightarrow> dead h z"
    "readStart k res y = (Inr b, z) \<Longrightarrow> dead h z" "readStop k res y = (Inr b, z) \<Longrightarrow> dead h z"
proof -
  have u: "dead h (upd_handle k (\<lambda>x. x\<lparr>h_connecting := True\<rparr>) (y\<lparr>y_st := t, y_reqs := rs\<rparr>))" for t rs
    using d by (intro dead_upd) (auto simp: dead_def)
  have v: "dead h (y\<lparr>y_st := t\<rparr>)" "dead h (y\<lparr>y_st := t, y_reqs := rs\<rparr>)" for t rs
    using d by (simp_all add: dead_def)
  have w: "dead h (upd_handle k (\<lambda>x. x\<lparr>h_reading := c\<rparr>) y)" for c using d by (intro dead_upd) auto
  show "Stream_write E k res y = (Inr f, z) \<Longrightarrow> dead h z" "Stream_shutdown E k res y = (Inr f, z) \<Longrightarrow> dead h z"
    using v by (auto simp: Stream_write_def Stream_shutdown_def request_defs split: if_splits prod.splits sum.splits)
  show "Tcp_connect E k v a res y = (Inr f, z) \<Longrightarrow> dead h z" "Pipe_connect E k y = (Inr f, z) \<Longrightarrow> dead h z"
    using u v by (auto simp: Tcp_connect_def Pipe_connect_def Let_def request_defs split: if_splits prod.splits sum.splits)
  show "readStart k res y = (Inr b, z) \<Longrightarrow> dead h z" "readStop k res y = (Inr b, z) \<Longrightarrow> dead h z"
    using w d by (auto simp: readStart_def readStop_def get_handle_def monad_defs split: if_splits)
qed

lemma dead_step:
  assumes "hstep E S iv y z" and ok: "hok y" and d: "dead h y"
  shows "dead h z"
  using assms(1)
proof cases
  case (h_on_close k x)
  have "dead h (closed_hst E iv k y)"
    using d by (cases "h = k") (auto simp: dead_def closed_hst_def Let_def)
  then show ?thesis using on_close_cases [OF ok h_on_close(1,3)] by metis
next
  case (h_complete q status x)
  have "h_data (y_objs y ! q_handle q)" using ok h_complete by (simp add: hok_def struct_ok_def)
  from h_complete(2) [unfolded complete_eq [OF this]] obtain t where "z = completed q t y"
    by (auto split: prod.splits)
  moreover have "dead h (y\<lparr>y_st := t, y_reqs := remove1 q (y_reqs y)\<rparr>)" for t using d by (simp add: dead_def)
  then have "dead h (completed q t y)" for t unfolding completed_def by (auto intro!: dead_upd)
  ultimately show ?thesis by simp
next
  case (h_lib t)
  then show ?thesis using d by (simp add: dead_def)
qed (use ok d in \<open>blast intro: dead_new dead_close dead_timeout dead_request\<close>)+

lemma dead_steps: "hsteps E S iv y z \<Longrightarrow> hok y \<Longrightarrow> dead h y \<Longrightarrow> dead h z"
  by (erule hsys.runs_keep) (auto intro: dead_step)

lemma dead_handle:
  assumes "hok y" "dead h y"
  shows "h < length (y_objs y)" "h_closing (y_objs y ! h)"
  using assms by (auto simp: dead_def hok_def struct_ok_def handle_ok_def)

section \<open>Properties\<close>

definition tcp1 :: "nat hsys" where
  "tcp1 = snd (Tcp_Create (init_hsys 1))"

definition tcp2 :: "nat hsys" where
  "tcp2 = snd (Tcp_connect demo 0 4 0 0 tcp1)"

definition tcp3 :: "nat hsys" where
  "tcp3 = snd (Handle_close 0 tcp1)"

lemmas tcp_defs = tcp1_def tcp2_def tcp3_def init_hsys_def init_st_def Tcp_Create_def Tcp_connect_def
  Handle_close_def handle_defs request_defs isOnEventLoopThread_def add_future_def Let_def

lemma tcp_eq:
  "fst (Tcp_Create (init_hsys 1 :: nat hsys)) = Inr 0"
  "fst (Tcp_connect demo 0 4 0 0 tcp1) = Inr 1" "fst (Handle_close 0 tcp1) = Inr 1"
  "y_objs tcp1 = [\<lparr>h_ptr = True, h_data = True, h_instance = True, h_count = 1, h_promise = 0,
     h_closing = False, h_connecting = False, h_connected = False, h_reading = False\<rparr>]"
  "y_reqs tcp2 = [\<lparr>q_kind = ReqConnect, q_handle = 0, q_promise = 1\<rparr>]"
  "y_closes tcp3 = [0]" "y_reqs tcp3 = []" "h_promise (y_objs tcp3 ! 0) = 1"
  "isOnEventLoopThread (y_st tcp2)" "isOnEventLoopThread (y_st tcp3)"
  by (simp_all add: tcp_defs)

lemma tcp_reach: "hreach demo S iv tcp1" "hreach demo S iv tcp2" "hreach demo S iv tcp3"
proof -
  have c: "Tcp_Create (init_hsys 1) = (Inr 0, tcp1)" using tcp_eq(1) by (simp add: tcp1_def prod_eq_iff)
  have n: "Tcp_connect demo 0 4 0 0 tcp1 = (Inr 1, tcp2)" using tcp_eq(2) by (simp add: tcp2_def prod_eq_iff)
  have k: "Handle_close 0 tcp1 = (Inr 1, tcp3)" using tcp_eq(3) by (simp add: tcp3_def prod_eq_iff)
  show s1: "hreach demo S iv tcp1" by (blast intro: hsys.first hsys.more h_tcp [OF c])
  have "hstep demo S iv tcp1 tcp2" by (rule h_connect [OF _ _ n]) (simp_all add: tcp_eq)
  moreover have "hstep demo S iv tcp1 tcp3" by (rule h_close [OF _ k]) (simp add: tcp_eq)
  ultimately show "hreach demo S iv tcp2" "hreach demo S iv tcp3" using hsys.more [OF s1] by blast+
qed

text \<open>C24. Whatever the program does with handles, writes, shutdowns, connects and closes: the promise of
a request that libuv has is not settled, no two operations share a promise, and when libuv
completes the request its callback returns and the promise gets the result that belongs to the
status; the handle is still alive then.\<close>

theorem requests_are_answered:
  assumes "hreach E S iv y" and "q \<in> set (y_reqs y)" and "uv_ok E" and "isOnEventLoopThread (y_st y)"
  shows "f_resolver (futs (y_st y) ! q_promise q) = None \<and>
    distinct (map h_promise (y_objs y) @ map q_promise (y_reqs y)) \<and>
    h_instance (y_objs y ! q_handle q) \<and>
    (\<exists>z. complete E S q status y = (Inr (), z) \<and> q \<notin> set (y_reqs z) \<and>
       f_resolver (futs (y_st z) ! q_promise q) = Some (request_result S (q_kind q) status))"
proof -
  have ok: "hok y" by (rule hsys.always [OF assms(1)])
  then have o: "owned_ok (y_st y) (owned y)" and st: "struct_ok (y_objs y) (y_reqs y) (y_closes y)"
    by (simp_all add: hok_def)
  have f: "fresh_at (q_promise q) (y_st y)" using o assms(2) by (auto simp: owns_def owned_def)
  let ?r = "request_result S (q_kind q) status"
  have d: "h_data (y_objs y ! q_handle q)" and i: "h_instance (y_objs y ! q_handle q)"
    using st assms(2) by (auto simp: struct_ok_def handle_ok_def)
  have run: "resolver_resolve_future E ?r (q_promise q) (y_st y) = (Inr (), settle (q_promise q) ?r (y_st y))"
    using resolve_future_fresh [OF ownsD(1) [OF o] f assms(3,4)] by simp
  have dist: "distinct (map h_promise (y_objs y) @ map q_promise (y_reqs y))"
    using o by (simp add: owns_def owned_def)
  then have "distinct (y_reqs y)" by (simp add: distinct_map)
  then have "q \<notin> set (y_reqs (completed q t y))" for t by (simp add: completed_def upd_handle_def)
  with hok_completed(2) [OF ok assms(2) run] complete_eq [OF d, of E S status] run dist i fresh_atD(3) [OF f]
  show ?thesis by simp
qed

theorem requests_are_answered_witness:
  "\<exists>z. complete demo (\<lambda>c. []) \<lparr>q_kind = ReqConnect, q_handle = 0, q_promise = 1\<rparr> 0 tcp2 = (Inr (), z) \<and>
     f_resolver (futs (y_st z) ! 1) = Some (RValue Void)"
  using requests_are_answered [OF tcp_reach(2) _ uv_ok_demo tcp_eq(9), of _ "\<lambda>c. []" 0]
  by (auto simp: tcp_eq request_result_def)



text \<open>A \<open>connect\<close> that failed leaves the handle marked as connected: the next one is refused, on a
\<open>Tcp\<close> as on a \<open>Pipe\<close>.\<close>

lemma connect_after_failure:
  assumes "hok y" and "q \<in> set (y_reqs y)" and "q_kind q = ReqConnect"
    and "complete E S q status y = (Inr (), z)"
  shows "Tcp_connect E (q_handle q) version addr res z = on_fut (promise_Reject E ''Already connected'') z"
    "Pipe_connect E (q_handle q) z = on_fut (promise_Reject E ''Already connected'') z"
proof -
  have h: "q_handle q < length (y_objs y)" "h_data (y_objs y ! q_handle q)"
    using assms(1,2) by (simp_all add: hok_def struct_ok_def)
  from assms(4) [unfolded complete_eq [OF h(2)]] obtain t where "z = completed q t y"
    by (auto split: prod.splits)
  then have "h_connected (y_objs z ! q_handle q)" using h assms(3) by (simp add: completed_def upd_handle_def)
  then show "Tcp_connect E (q_handle q) version addr res z = on_fut (promise_Reject E ''Already connected'') z"
    "Pipe_connect E (q_handle q) z = on_fut (promise_Reject E ''Already connected'') z"
    by (simp_all add: Tcp_connect_def Pipe_connect_def Let_def)
qed

end
