(* ===== verification/Sockets.thy ===== *)
theory Sockets
  imports HandleProps
begin

text \<open>
  What \<open>Handle\<close>, \<open>Stream\<close>, \<open>Tcp\<close>, \<open>Pipe\<close> and \<open>Timer\<close> do besides their requests: listening and
  accepting, the buffers and calls of the read callback, addresses (\<open>src/net/net_utils.cpp\<close>) and
  names, and the callbacks of a timer. The answers of libuv are parameters.
\<close>

section \<open>State\<close>

text \<open>The calls of the callbacks of the program.\<close>

datatype ncall = ListenCall nat int | ReadCall nat "string option" int | TimerCall nat | CloseCall nat

text \<open>The fields \<open>_listenCallback\<close> and \<open>_maxAllocSize\<close> of a stream, \<open>_callback\<close> and \<open>_onClose\<close> of a
timer, by the handle; a callback is a number.\<close>

record 'v nsys =
  n_sys :: "'v hsys"
  n_listenCb :: "nat \<Rightarrow> nat option"
  n_maxAlloc :: "nat \<Rightarrow> nat"
  n_timerCb :: "nat \<Rightarrow> nat option"
  n_onClose :: "nat \<Rightarrow> nat option"
  n_calls :: "ncall list"

definition on_sys :: "('v hsys, 'a) M \<Rightarrow> ('v nsys, 'a) M" where
  "on_sys m s = (case m (n_sys s) of (r, y) \<Rightarrow> (r, s\<lparr>n_sys := y\<rparr>))"

definition call :: "ncall \<Rightarrow> ('v nsys, unit) M" where
  "call c = modM (\<lambda>s. s\<lparr>n_calls := n_calls s @ [c]\<rparr>)"

definition bad_function_call :: exn where
  "bad_function_call = NativeExn ''bad_function_call''"

section \<open>Handle and Stream\<close>

text \<open>A call of libuv with the handle, of which only the answer \<open>res\<close> is used.\<close>

definition with_handle :: "nat \<Rightarrow> 'a \<Rightarrow> ('v nsys, 'a) M" where
  "with_handle h res = thenM (on_sys (get_handle h)) (retM res)"

definition isActive :: "nat \<Rightarrow> int \<Rightarrow> ('v nsys, bool) M" where
  "isActive h res = with_handle h (res \<noteq> 0)"

definition ref :: "nat \<Rightarrow> ('v nsys, unit) M" where
  "ref h = with_handle h ()"

definition unref :: "nat \<Rightarrow> ('v nsys, unit) M" where
  "unref h = with_handle h ()"

definition hasRef :: "nat \<Rightarrow> int \<Rightarrow> ('v nsys, bool) M" where
  "hasRef h res = with_handle h (res \<noteq> 0)"

definition setMaxAllocSize :: "nat \<Rightarrow> nat \<Rightarrow> ('v nsys, unit) M" where
  "setMaxAllocSize h n = modM (\<lambda>s. s\<lparr>n_maxAlloc := (n_maxAlloc s)(h := n)\<rparr>)"

definition Stream_listen :: "nat \<Rightarrow> nat option \<Rightarrow> int \<Rightarrow> ('v nsys, bool) M" where
  "Stream_listen h cb res =
     thenM (assertM (\<lambda>_. cb \<noteq> None) ''callback'')
    (thenM (modM (\<lambda>s. s\<lparr>n_listenCb := (n_listenCb s)(h := cb)\<rparr>))
    (with_handle h (res = 0)))"

text \<open>The callback of \<open>uv_listen\<close>: the error code, or 0 for none.\<close>

definition on_listen :: "nat \<Rightarrow> int \<Rightarrow> ('v nsys, unit) M" where
  "on_listen h status s = (case n_listenCb s h of
       None \<Rightarrow> (Inl bad_function_call, s)
     | Some cb \<Rightarrow> call (ListenCall cb (if status \<noteq> 0 then status else 0)) s)"

definition Stream_accept :: "nat \<Rightarrow> nat \<Rightarrow> int \<Rightarrow> ('v nsys, bool) M" where
  "Stream_accept h client res = thenM (on_sys (get_handle h)) (with_handle client (res = 0))"

text \<open>The two callbacks of \<open>uv_read_start\<close>: the size of the buffer, and what is read.\<close>

definition on_alloc :: "nat \<Rightarrow> nat \<Rightarrow> 'v nsys \<Rightarrow> nat" where
  "on_alloc h suggested s = max suggested (n_maxAlloc s h)"

definition on_stream_read :: "nat \<Rightarrow> int \<Rightarrow> string \<Rightarrow> ('v nsys, unit) M" where
  "on_stream_read h nread buf s =
     (if \<not> h_reading (y_objs (n_sys s) ! h) then (Inl bad_function_call, s)
      else if nread < 0 then call (ReadCall h None nread) s
      else call (ReadCall h (Some (take (nat nread) buf)) nread) s)"

section \<open>Addresses\<close>

text \<open>The conversions of libuv: a code and an address, a code and a name; and \<open>ntohs\<close> of the port.\<close>

record 'a addrlib =
  uv_ip4_addr :: "string \<Rightarrow> int \<Rightarrow> int \<times> 'a"
  uv_ip6_addr :: "string \<Rightarrow> int \<Rightarrow> int \<times> 'a"
  uv_ip4_name :: "'a \<Rightarrow> int \<times> string"
  uv_ip6_name :: "'a \<Rightarrow> int \<times> string"
  addr_port :: "'a \<Rightarrow> int"

definition is_error :: "int \<Rightarrow> bool" where
  "is_error code \<longleftrightarrow> code < 0"

definition to_ip4_addr_err :: "'a addrlib \<Rightarrow> string \<Rightarrow> int \<Rightarrow> bool \<times> int \<times> 'a" where
  "to_ip4_addr_err L ip port = (case uv_ip4_addr L ip port of (e, a) \<Rightarrow> (\<not> is_error e, e, a))"

definition to_ip6_addr_err :: "'a addrlib \<Rightarrow> string \<Rightarrow> int \<Rightarrow> bool \<times> int \<times> 'a" where
  "to_ip6_addr_err L ip port = (case uv_ip6_addr L ip port of (e, a) \<Rightarrow> (\<not> is_error e, e, a))"

definition to_ip4_addr :: "'a addrlib \<Rightarrow> string \<Rightarrow> int \<Rightarrow> bool \<times> 'a" where
  "to_ip4_addr L ip port = (case uv_ip4_addr L ip port of (e, a) \<Rightarrow> (is_error e, a))"

definition to_ip6_addr :: "'a addrlib \<Rightarrow> string \<Rightarrow> int \<Rightarrow> bool \<times> 'a" where
  "to_ip6_addr L ip port = (case uv_ip6_addr L ip port of (e, a) \<Rightarrow> (is_error e, a))"

definition from_ip4_addr :: "'a addrlib \<Rightarrow> 'a \<Rightarrow> (string \<times> int) option" where
  "from_ip4_addr L a = (case uv_ip4_name L a of (e, ip) \<Rightarrow> if e = 0 then Some (ip, addr_port L a) else None)"

definition from_ip6_addr :: "'a addrlib \<Rightarrow> 'a \<Rightarrow> (string \<times> int) option" where
  "from_ip6_addr L a = (case uv_ip6_name L a of (e, ip) \<Rightarrow> if e = 0 then Some (ip, addr_port L a) else None)"

section \<open>Tcp and Pipe\<close>

text \<open>\<open>nodelay\<close>, \<open>keepalive\<close> and \<open>simultanious_accepts\<close>.\<close>

definition tcp_option :: "nat \<Rightarrow> int \<Rightarrow> ('v nsys, bool) M" where
  "tcp_option h res = with_handle h (res = 0)"

text \<open>\<open>Tcp::bind\<close> with the error that is passed in and out; \<open>uvbind\<close>: what \<open>uv_tcp_bind\<close> gives.\<close>

definition Tcp_bind_err ::
  "'a addrlib \<Rightarrow> nat \<Rightarrow> string \<Rightarrow> int \<Rightarrow> int \<Rightarrow> int \<Rightarrow> ('a \<Rightarrow> int) \<Rightarrow> ('v nsys, bool \<times> int) M" where
  "Tcp_bind_err L h ip port version e0 uvbind =
     (if version \<noteq> 4 \<and> version \<noteq> 6 then retM (False, e0)
      else case (if version = 4 then to_ip4_addr_err L ip port else to_ip6_addr_err L ip port) of (_, e, a) \<Rightarrow>
        if is_error e then retM (False, e)
        else with_handle h (\<not> is_error (uvbind a), uvbind a))"

definition Tcp_bind :: "'a addrlib \<Rightarrow> nat \<Rightarrow> string \<Rightarrow> int \<Rightarrow> int \<Rightarrow> ('a \<Rightarrow> int) \<Rightarrow> ('v nsys, bool) M" where
  "Tcp_bind L h ip port version uvbind =
     bindM (Tcp_bind_err L h ip port version 0 uvbind) (\<lambda>(b, e). retM b)"

text \<open>\<open>getsockname\<close> and \<open>getpeername\<close>: \<open>uvname\<close> gives a code, whether the address is of version 4, and
the address.\<close>

definition Tcp_getname :: "'a addrlib \<Rightarrow> nat \<Rightarrow> int \<times> bool \<times> 'a \<Rightarrow> ('v nsys, (bool \<times> string \<times> int) option) M" where
  "Tcp_getname L h uvname = thenM (on_sys (get_handle h)) (retM (case uvname of (e, ip4, a) \<Rightarrow>
     if e \<noteq> 0 then None
     else map_option (\<lambda>(ip, port). (ip4, ip, port)) (if ip4 then from_ip4_addr L a else from_ip6_addr L a)))"

definition Pipe_bind :: "nat \<Rightarrow> int \<Rightarrow> ('v nsys, bool \<times> int) M" where
  "Pipe_bind h res = with_handle h (\<not> is_error res, res)"

text \<open>\<open>getsockname\<close> and \<open>getpeername\<close> of a pipe: \<open>uvname\<close> gives, for the size of the buffer, a code,
the size it asks for or used, and the bytes it wrote.\<close>

definition Pipe_getname :: "nat \<Rightarrow> (nat \<Rightarrow> int \<times> nat \<times> string) \<Rightarrow> ('v nsys, bool \<times> string) M" where
  "Pipe_getname h uvname = thenM (on_sys (get_handle h)) (retM
     (case uvname 0 of (_, len, _) \<Rightarrow>
      (case uvname len of (e, _, bytes) \<Rightarrow>
        (e = 0, take len bytes @ replicate (len - length bytes) (CHR 0x00)))))"

definition pendingCount :: "nat \<Rightarrow> int \<Rightarrow> ('v nsys, int) M" where
  "pendingCount h res = with_handle h res"

definition pendingType :: "nat \<Rightarrow> int \<Rightarrow> ('v nsys, int) M" where
  "pendingType h res = with_handle h res"

definition setPendingInstances :: "int \<Rightarrow> ('v nsys, bool) M" where
  "setPendingInstances n = retM False"

section \<open>Timer\<close>

definition Timer_start :: "int \<Rightarrow> ('v nsys, int) M" where
  "Timer_start res = retM res"

definition Timer_stop :: "int \<Rightarrow> ('v nsys, int) M" where
  "Timer_stop res = retM res"

definition Timer_again :: "int \<Rightarrow> ('v nsys, int) M" where
  "Timer_again res = retM res"

definition onTimeout :: "nat \<Rightarrow> nat option \<Rightarrow> ('v nsys, unit) M" where
  "onTimeout h cb = modM (\<lambda>s. s\<lparr>n_timerCb := (n_timerCb s)(h := cb)\<rparr>)"

definition onClose :: "nat \<Rightarrow> nat option \<Rightarrow> ('v nsys, unit) M" where
  "onClose h cb = modM (\<lambda>s. s\<lparr>n_onClose := (n_onClose s)(h := cb)\<rparr>)"

text \<open>The callback of libuv; \<open>repeat\<close> is what \<open>getRepeat\<close> gives, \<open>n\<close> the callback of \<open>close\<close>.\<close>

definition OnTimeout :: "'v env \<Rightarrow> nat \<Rightarrow> nat \<Rightarrow> nat \<Rightarrow> ('v nsys, unit) M" where
  "OnTimeout E n h repeat s =
     thenM (on_sys (Timer_OnTimeout E n h repeat (n_timerCb s h \<noteq> None)))
       (case n_timerCb s h of None \<Rightarrow> retM () | Some cb \<Rightarrow> call (TimerCall cb)) s"

text \<open>The callback of \<open>close\<close>.\<close>

definition Timer_closed :: "nat \<Rightarrow> ('v nsys, unit) M" where
  "Timer_closed h s = (case n_onClose s h of None \<Rightarrow> (Inr (), s) | Some cb \<Rightarrow> call (CloseCall cb) s)"

section \<open>Lemmas\<close>

lemmas nsys_defs = with_handle_def on_sys_def call_def get_handle_def monad_defs

lemma with_handle_ok:
  "h_ptr (y_objs (n_sys s) ! h) \<Longrightarrow> with_handle h res s = (Inr res, s)"
  by (simp add: nsys_defs)

text \<open>The overloads without an error give the opposite of those with one.\<close>

lemma addr_overloads_disagree:
  "fst (to_ip4_addr L ip port) = (\<not> fst (to_ip4_addr_err L ip port))"
  "fst (to_ip6_addr L ip port) = (\<not> fst (to_ip6_addr_err L ip port))"
  by (simp_all add: to_ip4_addr_def to_ip4_addr_err_def to_ip6_addr_def to_ip6_addr_err_def split: prod.split)

text \<open>\<open>setMaxAllocSize\<close> sets the least size of a buffer, not the greatest.\<close>

lemma buffer_not_bounded: "n_maxAlloc s h \<le> on_alloc h suggested s" "suggested \<le> on_alloc h suggested s"
  by (simp_all add: on_alloc_def)

text \<open>The name of a pipe has the size asked for, with zeros behind the bytes that were written.\<close>

lemma pipe_name_padded:
  assumes "Pipe_getname h uvname s = (Inr (True, name), t)" "uvname 0 = (e, len, x)"
  shows "length name = len"
  using assms by (auto simp: Pipe_getname_def nsys_defs split: if_splits prod.splits)

section \<open>Timers\<close>

lemma timer_close:
  assumes r: "hok y" "h < length (y_objs y)" "isOnEventLoopThread (y_st y)" and c: "\<not> h_closing (y_objs y ! h)"
    and uv: "uv_ok E"
  shows "\<exists>f z. Timer_close E n h y = (Inr f, z) \<and> h_closing (y_objs z ! h) \<and> y_closes z = y_closes y @ [h]"
proof -
  let ?f = "length (futs (y_st y))"
  note cl = Handle_close_eq [OF r]
  have k: "hok (close_st h y)" by (rule hok_close_st [OF r(1,2) c])
  then have i: "inv [] (y_st (close_st h y))" by (simp add: hok_def owns_def)
  have "?f < length (futs (y_st (close_st h y)))" by (simp add: close_st_def upd_handle_def)
  from attach_run(2) [OF i this, of "UserFn n" E KThen] uv
  have "future_then E ?f (UserFn n) (y_st (close_st h y)) =
      (Inr (length (futs (y_st (close_st h y)))), attach_st KThen ?f (UserFn n) (y_st (close_st h y)))"
    by (simp add: future_then_def)
  with cl c r(2) show ?thesis
    by (simp add: Timer_close_def on_fut_def monad_defs) (simp add: close_st_def upd_handle_def)
qed

text \<open>A timer that fires and does not repeat, or has no callback, is closed by the library before
its callback is called: the callback already finds it closing, and it can not be started again
from there. A repeating timer with a callback is left as it is. The callback is called in
both cases.\<close>

lemma one_shot_timer_closes_first:
  assumes "hreach E S iv (n_sys s)" and "h < length (y_objs (n_sys s))"
    and "\<not> h_closing (y_objs (n_sys s) ! h)" and "isOnEventLoopThread (y_st (n_sys s))" and "uv_ok E"
  shows "\<exists>t. OnTimeout E n h repeat s = (Inr (), t) \<and>
    n_calls t = n_calls s @ (case n_timerCb s h of None \<Rightarrow> [] | Some cb \<Rightarrow> [TimerCall cb]) \<and>
    (if repeat = 0 \<or> n_timerCb s h = None
     then h_closing (y_objs (n_sys t) ! h) \<and> y_closes (n_sys t) = y_closes (n_sys s) @ [h]
     else n_sys t = n_sys s)"
proof -
  obtain f z where z: "Timer_close E n h (n_sys s) = (Inr f, z)" "h_closing (y_objs z ! h)"
    "y_closes z = y_closes (n_sys s) @ [h]"
    using timer_close [OF hsys.always [OF assms(1)] assms(2,4,3,5)] by blast
  then show ?thesis
    by (cases "n_timerCb s h") (auto simp: OnTimeout_def Timer_OnTimeout_def nsys_defs)
qed

text \<open>A loop on which a timer was created.\<close>

definition timer1 :: "nat hsys" where
  "timer1 = snd (Timer_Create 0 (init_hsys 1))"

definition timer1_sys :: "nat nsys" where
  "timer1_sys = \<lparr>n_sys = timer1, n_listenCb = (\<lambda>_. None), n_maxAlloc = (\<lambda>_. 0),
     n_timerCb = (\<lambda>_. Some 3), n_onClose = (\<lambda>_. None), n_calls = []\<rparr>"

lemma timer1_eq:
  "fst (Timer_Create 0 (init_hsys 1 :: nat hsys)) = Inr 0"
  "length (y_objs timer1) = 1" "\<not> h_closing (y_objs timer1 ! 0)" "isOnEventLoopThread (y_st timer1)"
  "y_closes timer1 = []"
  by (simp_all add: timer1_def Timer_Create_def tcp_defs)

lemma timer1_reach: "hreach demo S iv timer1"
proof -
  have "Timer_Create 0 (init_hsys 1) = (Inr 0, timer1)"
    using timer1_eq(1) by (simp add: timer1_def prod_eq_iff)
  from h_timer [OF this] show ?thesis by (blast intro: hsys.first hsys.more)
qed

lemma one_shot_timer_closes_first_example:
  "\<exists>t. OnTimeout demo 0 0 0 timer1_sys = (Inr (), t) \<and> n_calls t = [TimerCall 3] \<and> y_closes (n_sys t) = [0]"
proof -
  have r: "hreach demo (\<lambda>_. []) (\<lambda>_. Void) (n_sys timer1_sys)"
    using timer1_reach by (simp add: timer1_sys_def)
  have f: "0 < length (y_objs (n_sys timer1_sys))" "\<not> h_closing (y_objs (n_sys timer1_sys) ! 0)"
    "isOnEventLoopThread (y_st (n_sys timer1_sys))" "uv_ok (demo :: nat env)"
    "y_closes (n_sys timer1_sys) = []" "n_timerCb timer1_sys 0 = Some 3" "n_calls timer1_sys = []"
    by (simp_all add: timer1_sys_def timer1_eq demo_def uv_ok_def)
  from one_shot_timer_closes_first [OF r f(1-4), of 0 0] f(5-7) show ?thesis by auto
qed

end
