(* ===== verification/Errors.thy ===== *)
theory Errors
  imports Prelude
begin

text \<open>
  \<open>Exception\<close> and \<open>Error\<close> of \<open>Error.hpp\<close>. The other theories see an exception as a value of
  \<open>exn\<close> and an error as its code; here are the objects themselves.
\<close>

section \<open>Exception\<close>

text \<open>A frame: file, line and function.\<close>

type_synonym call_frame = "string \<times> int \<times> string"

record exception =
  x_message :: string
  x_stack :: "call_frame list"
  x_uv :: int

definition Exception :: "string \<Rightarrow> exception" where
  "Exception m = \<lparr>x_message = m, x_stack = [], x_uv = 0\<rparr>"

definition Exception_at :: "string \<Rightarrow> call_frame \<Rightarrow> int \<Rightarrow> exception" where
  "Exception_at m f uv = \<lparr>x_message = m, x_stack = [f], x_uv = uv\<rparr>"

definition Exception_from :: "exception \<Rightarrow> call_frame \<Rightarrow> exception" where
  "Exception_from e f = \<lparr>x_message = x_message e, x_stack = f # x_stack e, x_uv = x_uv e\<rparr>"

text \<open>Passing an exception on through any number of frames keeps what it says and where it comes from.\<close>

lemma exception_passed_on:
  "fold (\<lambda>f e. Exception_from e f) fs e = \<lparr>x_message = x_message e, x_stack = rev fs @ x_stack e, x_uv = x_uv e\<rparr>"
  by (induction fs arbitrary: e) (simp_all add: Exception_from_def)

section \<open>Error\<close>

record error =
  uv_err :: int
  err_text :: string

definition no_error :: error where
  "no_error = \<lparr>uv_err = 0, err_text = []\<rparr>"

definition Error_code :: "int \<Rightarrow> error" where
  "Error_code c = \<lparr>uv_err = c, err_text = []\<rparr>"

definition Error_text :: "string \<Rightarrow> error" where
  "Error_text s = \<lparr>uv_err = - 1, err_text = s\<rparr>"

definition isError :: "error \<Rightarrow> bool" where
  "isError e \<longleftrightarrow> uv_err e < 0"

definition isOK :: "error \<Rightarrow> bool" where
  "isOK e \<longleftrightarrow> \<not> isError e"

text \<open>\<open>setError\<close> and the assignment of a code.\<close>

definition setError :: "int \<Rightarrow> error \<Rightarrow> error" where
  "setError c e = e\<lparr>uv_err := c\<rparr>"

definition code :: "error \<Rightarrow> int" where
  "code e = uv_err e"

text \<open>\<open>None\<close> is the null pointer; \<open>uv_err_name\<close> and \<open>uv_strerror\<close> are functions of libuv.\<close>

definition error_name :: "(int \<Rightarrow> string) \<Rightarrow> error \<Rightarrow> string option" where
  "error_name uv_err_name e = (if err_text e = [] \<and> uv_err e < 0 then Some (uv_err_name (uv_err e)) else None)"

definition error_str :: "(int \<Rightarrow> string) \<Rightarrow> error \<Rightarrow> string option" where
  "error_str uv_strerror e = (if err_text e \<noteq> [] then Some (err_text e)
     else if uv_err e < 0 then Some (uv_strerror (uv_err e)) else None)"

lemmas error_defs = no_error_def Error_code_def Error_text_def isError_def isOK_def setError_def code_def
  error_name_def error_str_def

text \<open>An error always has a text, and a name exactly when it was made of a code: the read callback of a
connection, which adds the name of a negative length to its answer, is safe.\<close>

lemma errors_have_texts:
  "isError e \<Longrightarrow> \<exists>t. error_str s e = Some t" "isError (Error_text t)" "\<not> isError no_error"
  "isError (Error_code c) \<longleftrightarrow> c < 0" "error_name n (Error_code c) = (if c < 0 then Some (n c) else None)"
  "t \<noteq> [] \<Longrightarrow> error_str s (Error_text t) = Some t" "t \<noteq> [] \<Longrightarrow> error_name n (Error_text t) = None"
  by (simp_all add: error_defs)

text \<open>An empty text makes an error with code -1, whose name and text are those of libuv for that code.\<close>

lemma empty_text_is_code: "Error_text [] = Error_code (- 1)"
  by (simp add: error_defs)

text \<open>A code assigned to an error that has a text leaves the text: an error that is none any more still has
it, and a new code never gets its own text or name.\<close>

lemma text_outlives_code:
  assumes "t \<noteq> []"
  shows "error_str s (setError c (Error_text t)) = Some t" "error_name n (setError c (Error_text t)) = None"
    "isOK (setError 0 (Error_text t))"
  using assms by (simp_all add: error_defs)

end
