(* ===== verification/Crypto.thy ===== *)
theory Crypto
  imports Prelude
begin

text \<open>
  Key derivation: \<open>src/crypto/PBKDF2.cpp\<close> and \<open>src/crypto/utils.cpp\<close>. OpenSSL is a parameter: its
  digests and its function \<open>PKCS5_PBKDF2_HMAC\<close>, whose result is the code and the bytes it leaves in
  the buffer.
\<close>

section \<open>State\<close>

record 'd crypto_lib =
  EVP_sha1 :: 'd
  EVP_get_digestbyname :: "string \<Rightarrow> 'd option"
  PKCS5_PBKDF2_HMAC :: "string \<Rightarrow> string \<Rightarrow> int \<Rightarrow> 'd \<Rightarrow> nat \<Rightarrow> string \<Rightarrow> int \<times> string"

text \<open>\<open>initiated\<close> is the static variable of \<open>initCrypto\<close>, \<open>inits\<close> counts the initialisations of OpenSSL,
\<open>oData\<close> is the string of the caller that gets the key.\<close>

record crypto =
  initiated :: bool
  inits :: nat
  oData :: string

definition initCrypto :: "crypto \<Rightarrow> crypto" where
  "initCrypto s = (if initiated s then s else s\<lparr>inits := Suc (inits s)\<rparr>)"

definition resize_to :: "nat \<Rightarrow> string \<Rightarrow> string" where
  "resize_to n bs = take n bs @ replicate (n - length bs) (CHR 0x00)"

text \<open>\<open>c_str()\<close> of a string, as a C function reads it.\<close>

definition c_str :: "string \<Rightarrow> string" where
  "c_str s = takeWhile (\<lambda>c. c \<noteq> CHR 0x00) s"

text \<open>A negative length becomes a huge one, which \<open>std::string\<close> refuses.\<close>

definition PBKDF2 :: "'d crypto_lib \<Rightarrow> string \<Rightarrow> string \<Rightarrow> int \<Rightarrow> int \<Rightarrow> string \<Rightarrow> (crypto, bool) M" where
  "PBKDF2 L iPassword iSalt iIterations iKeyLen iDigestName =
     thenM (modM initCrypto)
    (if iKeyLen < 0 then throwM (NativeExn ''length_error'')
     else thenM (modM (\<lambda>s. s\<lparr>oData := resize_to (nat iKeyLen) (oData s)\<rparr>))
       (case (if iDigestName = [] then Some (EVP_sha1 L) else EVP_get_digestbyname L (c_str iDigestName)) of
          None \<Rightarrow> throwM (NativeExn ''Bad digest name'')
        | Some digest \<Rightarrow> (\<lambda>s.
            (case PKCS5_PBKDF2_HMAC L iPassword iSalt iIterations digest (nat iKeyLen) (oData s) of
               (r, bs) \<Rightarrow> (Inr (r \<noteq> 0), s\<lparr>oData := bs\<rparr>)))))"

section \<open>Properties\<close>

text \<open>The static variable is never set: every call initialises OpenSSL again.\<close>

lemma initCrypto_again: "\<not> initiated s \<Longrightarrow> (initCrypto ^^ n) s = s\<lparr>inits := inits s + n\<rparr>"
  by (induction n) (simp_all add: initCrypto_def)

text \<open>OpenSSL writes the whole buffer and nothing else.\<close>

definition fills_buffer :: "'d crypto_lib \<Rightarrow> bool" where
  "fills_buffer L \<longleftrightarrow> (\<forall>p s i d n b. length b = n \<longrightarrow> length (snd (PKCS5_PBKDF2_HMAC L p s i d n b)) = n)"

lemma resize_to_length [simp]: "length (resize_to n bs) = n"
  by (simp add: resize_to_def)

text \<open>The result has the length that was asked for; an unknown digest is an exception, but the caller's
string has been resized by then.\<close>

lemma PBKDF2_length:
  assumes "fills_buffer L" and "0 \<le> n" and "PBKDF2 L p salt i n name s = (r, t)"
  shows "length (oData t) = nat n"
    "r = Inl (NativeExn ''Bad digest name'') \<longleftrightarrow> name \<noteq> [] \<and> EVP_get_digestbyname L (c_str name) = None"
proof -
  have f: "length (snd (PKCS5_PBKDF2_HMAC L p salt i d (nat n) b)) = nat n" if "length b = nat n" for d b
    using assms(1) that unfolding fills_buffer_def by blast
  have f': "length c = nat n" if "PKCS5_PBKDF2_HMAC L p salt i d (nat n) (resize_to (nat n) b) = (x, c)" for d b x c
    using f [of "resize_to (nat n) b" d] that by simp
  show "length (oData t) = nat n"
    using assms(2,3) f' by (auto simp: PBKDF2_def monad_defs initCrypto_def split: option.splits prod.splits if_splits)
  show "r = Inl (NativeExn ''Bad digest name'') \<longleftrightarrow> name \<noteq> [] \<and> EVP_get_digestbyname L (c_str name) = None"
    using assms(2,3) by (auto simp: PBKDF2_def monad_defs split: option.splits prod.splits if_splits)
qed

lemma PBKDF2_negative: "n < 0 \<Longrightarrow> PBKDF2 L p salt i n name s = (Inl (NativeExn ''length_error''), initCrypto s)"
  by (simp add: PBKDF2_def monad_defs)

lemma PBKDF2_returns:
  "0 \<le> n \<Longrightarrow> PBKDF2 L p salt i n [] s =
     (case PKCS5_PBKDF2_HMAC L p salt i (EVP_sha1 L) (nat n) (resize_to (nat n) (oData s)) of
        (r, bs) \<Rightarrow> (Inr (r \<noteq> 0), (initCrypto s)\<lparr>oData := bs\<rparr>))"
  by (auto simp: PBKDF2_def monad_defs initCrypto_def split: prod.splits)

end
