(* ===== verification/Verbs.thy ===== *)
theory Verbs
  imports Connection
begin

text \<open>
  The methods of a plugin for each HTTP method: the table \<open>NNATIVE_HTTP_METHODS\<close> of
  \<open>ServerPlugin.hpp\<close>, the four members and the removal that its macro makes of every entry and of
  \<open>use\<close>, and \<open>addMethodSync\<close>.
\<close>

section \<open>The table\<close>

text \<open>The name of the member, the name in \<open>addMethod...\<close>, and the text of the method in a request.\<close>

definition NNATIVE_HTTP_METHODS :: "(string \<times> string \<times> string) list" where
  "NNATIVE_HTTP_METHODS =
     [(''deleteMethod'', ''DELETE'', ''DELETE''), (''get'', ''GET'', ''GET''), (''head'', ''HEAD'', ''HEAD''),
      (''post'', ''POST'', ''POST''), (''put'', ''PUT'', ''PUT''), (''connect'', ''CONNECT'', ''CONNECT''),
      (''options'', ''OPTIONS'', ''OPTIONS''), (''trace'', ''TRACE'', ''TRACE''), (''copy'', ''COPY'', ''COPY''),
      (''lock'', ''LOCK'', ''LOCK''), (''mkcol'', ''MKCOL'', ''MKCOL''), (''move'', ''MOVE'', ''MOVE''),
      (''propfind'', ''PROPFIND'', ''PROPFIND''), (''proppatch'', ''PROPPATCH'', ''PROPPATCH''),
      (''search'', ''SEARCH'', ''SEARCH''), (''unlock'', ''UNLOCK'', ''UNLOCK''), (''bind'', ''BIND'', ''BIND''),
      (''rebind'', ''REBIND'', ''REBIND''), (''unbind'', ''UNBIND'', ''UNBIND''), (''acl'', ''ACL'', ''ACL''),
      (''report'', ''REPORT'', ''REPORT''), (''mkactivity'', ''MKACTIVITY'', ''MKACTIVITY''),
      (''checkout'', ''CHECKOUT'', ''CHECKOUT''), (''merge'', ''MERGE'', ''MERGE''),
      (''mSearch'', ''MSEARCH'', ''M-SEARCH''), (''notify'', ''NOTIFY'', ''NOTIFY''),
      (''subscribe'', ''SUBSCRIBE'', ''SUBSCRIBE''), (''unsubscribe'', ''UNSUBSCRIBE'', ''UNSUBSCRIBE''),
      (''patch'', ''PATCH'', ''PATCH''), (''purge'', ''PURGE'', ''PURGE''),
      (''mkcalendar'', ''MKCALENDAR'', ''MKCALENDAR''), (''link'', ''LINK'', ''LINK''),
      (''unlink'', ''UNLINK'', ''UNLINK'')]"

definition verbs :: "(string \<times> string \<times> string) list" where
  "verbs = (''use'', ''USE'', []) # NNATIVE_HTTP_METHODS"

definition verb_text :: "string \<Rightarrow> string option" where
  "verb_text v = map_option snd (map_of verbs v)"

section \<open>Registering\<close>

text \<open>A callback that returns nothing is run at once; the future it is given is resolved. An exception
leaves the wrapper as it leaves the callback.\<close>

definition sync_handler :: "act list \<Rightarrow> string option \<Rightarrow> handler" where
  "sync_handler work e = \<lparr>h_sync = work, h_throw = e, h_async = [], h_res = None\<rparr>"

text \<open>\<open>addMethodSync\<close> puts the wrapper of the callback at the index \<open>h\<close> among the functions of the program.\<close>

definition addMethodSync :: "formats \<Rightarrow> nat \<Rightarrow> string \<Rightarrow> string \<Rightarrow> nat \<Rightarrow> act list \<times> string option \<Rightarrow>
    routers \<times> (nat \<Rightarrow> handler) \<Rightarrow> (exn + callback_data) \<times> routers \<times> (nat \<Rightarrow> handler)" where
  "addMethodSync F self iMethod iUri h cb s =
     (case addMethod F self iMethod iUri h (fst s) of
        (r, R) \<Rightarrow> (r, R, (snd s)(h := sync_handler (fst cb) (snd cb))))"

definition verb_add :: "formats \<Rightarrow> nat \<Rightarrow> string \<Rightarrow> string \<Rightarrow> nat \<Rightarrow> (routers, callback_data) M option" where
  "verb_add F self v iUri iCallback = map_option (\<lambda>m. addMethod F self m iUri iCallback) (verb_text v)"

definition verb_add_sync :: "formats \<Rightarrow> nat \<Rightarrow> string \<Rightarrow> string \<Rightarrow> nat \<Rightarrow> act list \<times> string option \<Rightarrow>
    (routers \<times> (nat \<Rightarrow> handler) \<Rightarrow> (exn + callback_data) \<times> routers \<times> (nat \<Rightarrow> handler)) option" where
  "verb_add_sync F self v iUri h cb = map_option (\<lambda>m. addMethodSync F self m iUri h cb) (verb_text v)"

definition verb_remove :: "nat \<Rightarrow> callback_data \<Rightarrow> routers \<Rightarrow> bool \<times> routers" where
  "verb_remove = removeMethod"

section \<open>Properties\<close>

text \<open>No two members have the same name or the same method, so each registers callbacks of its own.\<close>

lemma verbs_distinct: "distinct (map fst verbs)" "distinct (map (snd \<circ> snd) verbs)"
  by code_simp+

lemma verb_text_inj:
  assumes "verb_text v = Some m" and "verb_text w = Some m"
  shows "v = w"
proof -
  obtain a b where "(v, a, m) \<in> set verbs" "(w, b, m) \<in> set verbs"
    using assms by (auto simp: verb_text_def dest!: map_of_SomeD)
  moreover have "inj_on (snd \<circ> snd) (set verbs)" using verbs_distinct(2) by (simp add: distinct_map)
  ultimately show ?thesis by (auto dest: inj_onD [where x = "(v, a, m)" and y = "(w, b, m)"])
qed

text \<open>A callback of a member is among those of a request exactly when the method of the request is that of
the member, or the member is \<open>use\<close>.\<close>

lemma verb_registers:
  assumes v: "verb_text v = Some m" and add: "verb_add F self v u h = Some A" and run: "A R = (Inr d, R1)"
    and new: "\<And>k. d \<notin> set (registered (plugin_at R self) k)"
  shows "d \<in> set (registered (plugin_at R1 self) k) \<longleftrightarrow> k = m \<or> v = ''use''"
proof -
  have "addMethod F self m u h R = (Inr d, R1)" using add run v by (simp add: verb_add_def)
  note a = method_callbacks_add [OF this]
  have "verb_text ''use'' = Some []" by (simp add: verb_text_def verbs_def)
  then have "v = ''use'' \<longleftrightarrow> m = []" using v verb_text_inj by fastforce
  then show ?thesis using new [of k] by (auto simp: registered_methods a(1,2))
qed

text \<open>A callback that a member other than \<open>use\<close> registers is for a method of the table: only \<open>addMethod\<close> itself
registers for other methods.\<close>

lemma verb_methods: "verb_text v = Some m \<Longrightarrow> v \<noteq> ''use'' \<Longrightarrow> m \<in> set (map (snd \<circ> snd) NNATIVE_HTTP_METHODS)"
  by (auto simp: verb_text_def verbs_def dest!: map_of_SomeD split: if_splits) force

text \<open>The member of every entry exists: the delete method is \<open>deleteMethod\<close>, the others have their names in
lower case.\<close>

lemma verb_examples:
  "verb_text ''get'' = Some ''GET''" "verb_text ''deleteMethod'' = Some ''DELETE''"
  "verb_text ''mSearch'' = Some ''M-SEARCH''" "verb_text ''use'' = Some []" "verb_text ''delete'' = None"
  by code_simp+

text \<open>A synchronous callback has answered when its call returns: the chain it leaves has nothing to wait for.\<close>

lemma sync_handler_chain:
  "call_function (sync_handler work None) =
     thenM (forM work act_step) (retM \<lparr>ch_acts = [], ch_res = None, ch_rest = []\<rparr>)"
  by (simp add: call_function_def sync_handler_def)

lemma sync_handler_resolved: "call_function (sync_handler [] None) c = (Inr resolved, c)"
  by (simp add: sync_handler_chain resolved_def monad_defs)

lemma addMethodSync_registers:
  "addMethodSync F self m u h cb (R, H) = (r, R1, H1) \<Longrightarrow>
     addMethod F self m u h R = (r, R1) \<and> H1 h = sync_handler (fst cb) (snd cb) \<and> (\<forall>k. k \<noteq> h \<longrightarrow> H1 k = H k)"
  by (auto simp: addMethodSync_def split: prod.splits)

end
