(* ===== verification/Wire.thy ===== *)
theory Wire
  imports HandleProps ConnectionProps
begin

text \<open>
  A server connection on its socket: what \<open>ServerConnection\<close> and \<open>ServerResponse\<close> ask of the
  \<open>Tcp\<close> handle, the futures they get for it, and the order in which libuv and the loop answer.
  The steps of a connection that \<open>Connection\<close> lets happen at any time are here steps of the
  handles and of the loop.
\<close>

section \<open>The handles seen from the store of futures\<close>

abbreviation owner_steps :: "'v env \<Rightarrow> 'v st \<Rightarrow> 'v st \<Rightarrow> bool" where
  "owner_steps E \<equiv> (owner_step E)\<^sup>*\<^sup>*"

lemma reject_steps:
  assumes "promise_Reject E e s = (Inr f, t)"
  shows "owner_steps E s t"
proof -
  let ?n = "length (futs s)"
  have "future_reject E ?n e (add_future True s) = (Inr (), t)"
    using assms by (auto simp: promise_Reject_def promise_new_def promise_reject_def new_future_eq monad_defs
        split: prod.splits sum.splits)
  then have "run_api E (PromiseReject ?n e) (add_future True s) = (Inr (), t)"
    by (simp add: on_promise_def on_future_def promise_reject_def monad_defs add_future_nth)
  moreover have "run_api E NewPromise s = (Inr (), add_future True s)"
    by (simp add: promise_new_def new_future_eq monad_defs)
  ultimately have "step E (add_future True s) t" "step E s (add_future True s)"
    using step_call [of E _ _ "Inr ()"] by (metis ok_simps(1))+
  then show ?thesis by (blast intro: goes_on owners.one owners.one_more)
qed

lemma request_steps:
  assumes i: "inv [] s" and run: "future_reject E (length (futs s)) e (add_future False s) = (Inr (), t)"
  shows "owner_steps E s t"
proof -
  have "fresh_at (length (futs s)) (add_future False s)" using store.new_ok [OF i new_future_eq] by blast
  from settles [OF this, of E "RError e"] run have "owner_step E (add_future False s) t" by simp
  then show ?thesis by (blast intro: makes owners.one owners.one_more)
qed

lemma then_step:
  assumes "f < length (futs s)" and "future_then E f (UserFn n) s = (Inr g, t)"
  shows "step E s t"
proof -
  have "run_api E (Then f n) s = (Inr (), t)" using assms by (simp add: on_future_def monad_defs)
  then show ?thesis by (rule step_call) simp
qed

lemma close_steps:
  assumes ok: "hok y" and h: "h < length (y_objs y)" and run: "Handle_close h y = (Inr f, z)"
  shows "owner_steps E (y_st y) (y_st z)"
  using run Handle_close_eq [OF ok h Handle_close_thread [OF run]] makes [of E "y_st y"]
  by (auto simp: close_st_def upd_handle_def split: if_splits)

lemma hstep_owner:
  assumes "hstep E S iv y z" and ok: "hok y"
  shows "owner_steps E (y_st y) (y_st z)"
proof -
  have i: "inv [] (y_st y)" using ok by (simp add: hok_def owns_def)
  note new = owners.one [OF makes [of E "y_st y"]]
  show ?thesis using assms(1)
  proof cases
    case (h_lib t)
    then show ?thesis by (auto intro: owners.one goes_on)
  next
    case (h_tcp h)
    then have "y_st z = add_future False (y_st y)" by (auto simp: Tcp_Create_def handle_defs split: if_splits)
    with new show ?thesis by simp
  next
    case (h_timer r h)
    then have "y_st z = add_future False (y_st y)" by (auto simp: Timer_Create_def handle_defs split: if_splits)
    with new show ?thesis by simp
  next
    case (h_close h f)
    then show ?thesis using close_steps [OF ok] by blast
  next
    case (h_on_close h x)
    from on_close_cases [OF ok h_on_close(1,3)] obtain t
      where t: "resolver_resolve_future E (RValue (iv h)) (h_promise (y_objs y ! h)) (y_st y) = (Inr (), t)"
        and z: "z = closed_hst E iv h y" .
    have f: "fresh_at (h_promise (y_objs y ! h)) (y_st y)"
      by (rule owned_handle(2) [OF ok closing_handle(1) [OF ok h_on_close(1)]])
    have "t = settle (h_promise (y_objs y ! h)) (RValue (iv h)) (y_st y)" by (rule fresh_settled(1) [OF i f t])
    then have "y_st z = add_future False t" by (simp add: z closed_hst_def Let_def)
    with settles [OF f t] makes [of E t] show ?thesis by (auto intro: owners.one owners.one_more)
  next
    case (h_write h res f)
    then show ?thesis using new request_steps [OF i, of E]
      by (auto simp: Stream_write_def request_defs split: if_splits prod.splits sum.splits)
  next
    case (h_shutdown h res f)
    then show ?thesis using new request_steps [OF i, of E]
      by (auto simp: Stream_shutdown_def request_defs split: if_splits prod.splits sum.splits)
  next
    case (h_connect h version addr res f)
    consider e t where "promise_Reject E e (y_st y) = (Inr f, t)" "y_st z = t"
      | e t where "promise_Reject E e (add_future False (y_st y)) = (Inr f, t)" "y_st z = t"
      | "y_st z = add_future False (y_st y)"
      using h_connect by (auto simp: Tcp_connect_def Let_def request_defs upd_handle_def split: if_splits prod.splits)
    then show ?thesis
    proof cases
      case (2 e t)
      with reject_steps makes [of E "y_st y"] show ?thesis by (blast intro: owners.one_more)
    qed (use reject_steps new in auto)
  next
    case (h_pipe h f)
    consider e t where "promise_Reject E e (y_st y) = (Inr f, t)" "y_st z = t" | "y_st z = add_future False (y_st y)"
      using h_pipe by (auto simp: Pipe_connect_def Let_def request_defs upd_handle_def split: if_splits prod.splits)
    then show ?thesis using reject_steps new by cases auto
  next
    case (h_complete q status x)
    have d: "h_data (y_objs y ! q_handle q)" and f: "fresh_at (q_promise q) (y_st y)"
      using ok h_complete(1) by (auto simp: hok_def struct_ok_def owns_def owned_def)
    from h_complete(2) [unfolded complete_eq [OF d]] obtain t
      where "resolver_resolve_future E (request_result S (q_kind q) status) (q_promise q) (y_st y) = (Inr x, t)"
        and "z = completed q t y" by (auto split: prod.splits)
    with settles [OF f] show ?thesis by (auto simp: completed_def upd_handle_def intro: owners.one)
  next
    case (h_timeout h n repeat cb x)
    show ?thesis
    proof (cases "repeat = 0 \<or> \<not> cb")
      case True
      with h_timeout obtain f u g t where u: "Handle_close h y = (Inr f, u)"
        and g: "future_then E f (UserFn n) (y_st u) = (Inr g, t)" and z: "z = u\<lparr>y_st := t\<rparr>"
        by (auto simp: Timer_OnTimeout_def Timer_close_def monad_defs on_fut_def split: prod.splits sum.splits)
      have "owner_steps E (y_st y) (y_st u)" by (rule close_steps [OF ok h_timeout(1) u])
      moreover have "owner_step E (y_st u) t"
        by (rule goes_on [OF then_step [OF hok_close(2) [OF ok h_timeout(1) u] g]])
      ultimately show ?thesis by (simp add: z)
    qed (use h_timeout in \<open>simp add: Timer_OnTimeout_def monad_defs\<close>)
  qed (auto simp: readStart_def readStop_def get_handle_def upd_handle_def monad_defs split: if_splits)
qed

lemma hstep_own: "hok y \<and> own (y_st y) \<Longrightarrow> hstep E S iv y z \<Longrightarrow> hok z \<and> own (y_st z)"
proof -
  assume a: "hok y \<and> own (y_st y)" and st: "hstep E S iv y z"
  have "hok z" using hok_step [OF st] a by blast
  moreover have "inv [] (y_st y)" using a by (simp add: hok_def owns_def)
  ultimately show ?thesis using owners.runs [OF hstep_owner [OF st]] a by blast
qed

interpretation owned_sys: invariant "\<lambda>y. \<exists>th. y = init_hsys th" "hstep E S iv" "\<lambda>y. hok y \<and> own (y_st y)"
  for E :: "'v env" and S iv
proof
  show "hok y \<and> own (y_st y)" if "\<exists>th. y = init_hsys th" for y :: "'v hsys"
    using that hok_init own_init by (auto simp: init_hsys_def)
qed (rule hstep_own)

lemma hstep_grows: "hstep E S iv y z \<Longrightarrow> hok y \<Longrightarrow> own (y_st y) \<Longrightarrow> grows (y_st y) (y_st z)"
  by (rule owner_steps_grow [OF hstep_owner]) (auto simp: hok_def owns_def)

text \<open>A request stays with libuv until its promise is settled.\<close>

lemma hstep_requests:
  assumes "hstep E S iv y z" and ok: "hok y" and q: "q \<in> set (y_reqs y)"
  shows "q \<in> set (y_reqs z) \<or> f_resolver (futs (y_st z) ! q_promise q) \<noteq> None"
  using assms(1)
proof cases
  case (h_complete p status x)
  have "h_data (y_objs y ! q_handle p)" using ok h_complete(1) by (auto simp: hok_def struct_ok_def)
  from h_complete(2) [unfolded complete_eq [OF this]] obtain t
    where t: "resolver_resolve_future E (request_result S (q_kind p) status) (q_promise p) (y_st y) = (Inr x, t)"
      and z: "z = completed p t y" by (auto split: prod.splits)
  show ?thesis
  proof (cases "p = q")
    case True
    with hok_completed(2) [OF ok h_complete(1) t] show ?thesis by (simp add: z)
  next
    case False
    with q show ?thesis by (simp add: z completed_def upd_handle_def)
  qed
next
  case (h_close h f)
  then show ?thesis using q Handle_close_eq [OF ok h_close(1) Handle_close_thread [OF h_close(2)]]
    by (auto simp: close_st_def upd_handle_def split: if_splits)
next
  case (h_on_close h x)
  from on_close_cases [OF ok h_on_close(1,3)] have "z = closed_hst E iv h y" by blast
  with q show ?thesis by (simp add: closed_hst_def Let_def)
next
  case (h_timeout h n repeat cb x)
  then show ?thesis
  proof (cases "repeat = 0 \<or> \<not> cb")
    case True
    with h_timeout obtain f u g t where u: "Handle_close h y = (Inr f, u)" and z: "z = u\<lparr>y_st := t\<rparr>"
      by (auto simp: Timer_OnTimeout_def Timer_close_def monad_defs on_fut_def split: prod.splits sum.splits)
    with q Handle_close_eq [OF ok h_timeout(1) Handle_close_thread [OF u]] show ?thesis
      by (auto simp: close_st_def upd_handle_def split: if_splits)
  qed (use q in \<open>simp add: Timer_OnTimeout_def monad_defs\<close>)
next
  case (h_write h res f)
  then show ?thesis using q by (auto simp: Stream_write_def request_defs split: if_splits prod.splits sum.splits)
next
  case (h_shutdown h res f)
  then show ?thesis using q by (auto simp: Stream_shutdown_def request_defs split: if_splits prod.splits sum.splits)
next
  case (h_connect h version addr res f)
  then show ?thesis using q
    by (auto simp: Tcp_connect_def Let_def request_defs upd_handle_def split: if_splits prod.splits)
next
  case (h_pipe h f)
  then show ?thesis using q
    by (auto simp: Pipe_connect_def Let_def request_defs upd_handle_def split: if_splits prod.splits)
next
  case (h_tcp h)
  then show ?thesis using q by (auto simp: Tcp_Create_def handle_defs split: if_splits)
next
  case (h_timer r h)
  then show ?thesis using q by (auto simp: Timer_Create_def handle_defs split: if_splits)
qed (use q in \<open>auto simp: readStart_def readStop_def get_handle_def upd_handle_def monad_defs split: if_splits\<close>)

section \<open>What a connection asks of its socket\<close>

definition writes_of :: "sock_call list \<Rightarrow> nat" where
  "writes_of ks = length (filter (\<lambda>k. k \<noteq> CallClose) ks)"

definition closes_of :: "sock_call list \<Rightarrow> nat" where
  "closes_of ks = length (filter (\<lambda>k. k = CallClose) ks)"

lemma calls_of_simps [simp]:
  "writes_of [] = 0" "closes_of [] = 0" "writes_of (ks @ ls) = writes_of ks + writes_of ls"
  "closes_of (ks @ ls) = closes_of ks + closes_of ls" "writes_of (CallWrite t # ks) = Suc (writes_of ks)"
  "closes_of (CallWrite t # ks) = closes_of ks" "writes_of (CallClose # ks) = writes_of ks"
  "closes_of (CallClose # ks) = Suc (closes_of ks)"
  by (simp_all add: writes_of_def closes_of_def)

text \<open>From \<open>c0\<close> to \<open>c\<close> the connection has started a write for each that it asks for, and while the socket is not
closed it waits for each close.\<close>

definition asked :: "'p conn \<Rightarrow> 'p conn \<Rightarrow> bool" where
  "asked c0 c \<longleftrightarrow> c_reading c = c_reading c0 \<and> (\<exists>ks. c_calls c = c_calls c0 @ ks \<and>
     c_pend c = c_pend c0 + writes_of ks \<and>
     c_closes c = c_closes c0 + (if c_socket c0 = SockClosed then 0 else closes_of ks) \<and>
     c_socket c = (if c_socket c0 = SockClosed \<or> closes_of ks = 0 then c_socket c0 else SockClosing))"

lemma asked_refl [simp]: "asked c c"
  by (auto simp: asked_def)

lemma asked_request [simp]:
  "asked c0 (c\<lparr>c_request := r\<rparr>) = asked c0 c" "asked c0 (c\<lparr>c_response := a\<rparr>) = asked c0 c"
  "asked c0 (c\<lparr>c_chains := cs\<rparr>) = asked c0 c" "asked c0 (c\<lparr>c_events := es\<rparr>) = asked c0 c"
  "asked c0 (c\<lparr>c_out := ts\<rparr>) = asked c0 c"
  by (simp_all add: asked_def)

lemma asked_more:
  assumes a: "asked c0 c" and "c_reading c' = c_reading c" "c_calls c' = c_calls c @ [k]"
    and "c_pend c' = c_pend c + writes_of [k]"
    and "c_closes c' = c_closes c + (if c_socket c = SockClosed then 0 else closes_of [k])"
    and "c_socket c' = (if c_socket c = SockClosed \<or> closes_of [k] = 0 then c_socket c else SockClosing)"
  shows "asked c0 c'"
proof -
  obtain ks where ks: "c_reading c = c_reading c0" "c_calls c = c_calls c0 @ ks" "c_pend c = c_pend c0 + writes_of ks"
     "c_closes c = c_closes c0 + (if c_socket c0 = SockClosed then 0 else closes_of ks)"
     "c_socket c = (if c_socket c0 = SockClosed \<or> closes_of ks = 0 then c_socket c0 else SockClosing)"
    using a unfolding asked_def by blast
  show ?thesis unfolding asked_def
    by (intro conjI exI [of _ "ks @ [k]"]) (use ks assms(2-6) in \<open>auto split: if_splits\<close>)
qed

lemma asked_write: "asked c0 c \<Longrightarrow> asked c0 (c\<lparr>c_pend := Suc (c_pend c), c_calls := c_calls c @ [CallWrite t]\<rparr>)"
  by (erule asked_more [where k = "CallWrite t"]) simp_all

lemma asked_close: "asked c0 c \<Longrightarrow> asked c0 (snd (close c))"
  by (erule asked_more [where k = CallClose]) (simp_all add: close_def modM_def)

lemma asked_getResponse: "getResponse c = (r, c') \<Longrightarrow> asked c0 c \<Longrightarrow> asked c0 c'"
  using getResponse_eq [of c] by auto

lemma asked_set_response:
  assumes "asked c0 c" and "set_response f c = (r, c')"
  shows "asked c0 c'"
proof -
  obtain x u where u: "getResponse c = (Inr x, u)" using getResponse_eq [of c] by blast
  have "asked c0 u" by (rule asked_getResponse [OF u assms(1)])
  with assms(2) u show ?thesis by (auto simp: set_response_def bindM_def modM_def)
qed

lemma asked_response_end:
  assumes ok: "conn_ok c" and a: "asked c0 c" and run: "response_end d c = (x, c')" "ok x"
  shows "asked c0 c'"
proof -
  obtain r u where u: "getResponse c = (Inr r, u)" "c_response u = Some r" using getResponse_eq [of c] by blast
  have r: "resp_ok r" using keepsD [OF conn_ok_getResponse ok u(1)] u(2) by (simp add: conn_ok_def)
  have au: "asked c0 u" by (rule asked_getResponse [OF u(1) a])
  obtain r' t where e: "endData d r = (Inr (), r')" "map wire_text (wire r') = [t]"
    using resp_ok_end [OF r, of d] run u(1) by (auto simp: response_end_def bindM_def split: if_splits)
  then have "c' = u\<lparr>c_response := Some (r'\<lparr>wire := []\<rparr>), c_out := c_out u @ [t], c_pend := Suc (c_pend u),
      c_calls := c_calls u @ [CallWrite t]\<rparr>"
    using run u(1) by (simp add: response_end_def bindM_def del: map_map)
  then have "asked c0 c' = asked c0 (u\<lparr>c_pend := Suc (c_pend u), c_calls := c_calls u @ [CallWrite t]\<rparr>)"
    by (simp add: asked_def)
  with asked_write [OF au] show ?thesis by simp
qed

interpretation asking: conn_kept "\<lambda>c. conn_ok c \<and> asked c0 c" for c0 :: "'p conn"
proof
  let ?P = "\<lambda>c. conn_ok c \<and> asked c0 c"
  show r: "keeps ?P ?P getResponse" by (rule keeps_conj [OF conn_ok_getResponse]) (rule asked_getResponse)
  have i: "keeps ?P ?P isSent" unfolding isSent_def by (intro keeps_bind r keeps_ret)
  have s: "keeps ?P ?P (set_response f)" if "\<And>r. resp_ok (f r) = resp_ok r" "\<And>r. sent (f r) = sent r" for f
    by (rule keeps_conj [OF conn_ok_set_response [OF that]]) (rule asked_set_response)
  have e: "keeps ?P ?P (response_end d)" for d
    by (rule keeps_conj [OF conn_ok_response_end]) (rule asked_response_end)
  show cl: "keeps ?P ?P close"
    by (rule keeps_conj [OF conn_ok_close]) (metis asked_close snd_conv)
  show "keeps ?P ?P (act_step a)" for a
    unfolding act_step_def by (cases a) (auto intro: s e cl)
  show "keeps ?P ?P (respond_unless_sent n d)" for n d
    unfolding respond_unless_sent_def respond_def by (auto intro!: keeps_bind keeps_then s e i)
qed (simp_all add: conn_ok_def)

end
