(* ===== verification/Wired.thy ===== *)
theory Wired
  imports Wire
begin

text \<open>
  A connection together with its socket: every write and every close that the connection asks for
  is made on the \<open>Tcp\<close> handle and a callback is attached to its future with \<open>then\<close>, as
  \<open>ServerResponse::endData\<close> and \<open>ServerConnection::close\<close> do; libuv completes the requests and
  closes the handle, and the loop runs the callbacks.
\<close>

section \<open>State\<close>

text \<open>\<open>w_sock\<close>: the handle of \<open>_socket\<close>; \<open>w_writes\<close> and \<open>w_closes\<close>: the actions attached to the futures of
the writes and of the closes, those of a close after the socket is closed apart, whose future nobody settles.\<close>

record ('v, 'p) wired =
  w_hsys :: "'v hsys"
  w_conn :: "'p conn"
  w_sock :: nat
  w_writes :: "aid list"
  w_closes :: "aid list"

definition end_fn :: nat where
  "end_fn = 0"

definition close_fn :: nat where
  "close_fn = 1"

definition on_hsys :: "('v hsys, 'a) M \<Rightarrow> (('v, 'p) wired, 'a) M" where
  "on_hsys m w = (case m (w_hsys w) of (r, y) \<Rightarrow> (r, w\<lparr>w_hsys := y\<rparr>))"

section \<open>Operations\<close>

text \<open>\<open>then\<close> with a callback; the result is the action that waits.\<close>

definition attach_fn :: "'v env \<Rightarrow> fid \<Rightarrow> nat \<Rightarrow> ('v hsys, aid) M" where
  "attach_fn E f n = (\<lambda>y. bindM (on_fut (future_then E f (UserFn n))) (\<lambda>_. retM (length (acts (y_st y)))) y)"

definition sock_write :: "'v env \<Rightarrow> nat \<Rightarrow> int \<Rightarrow> ('v hsys, aid) M" where
  "sock_write E h res = bindM (Stream_write E h res) (\<lambda>f. attach_fn E f end_fn)"

definition sock_close :: "'v env \<Rightarrow> nat \<Rightarrow> ('v hsys, aid) M" where
  "sock_close E h = bindM (Handle_close h) (\<lambda>f. attach_fn E f close_fn)"

definition alive :: "('v, 'p) wired \<Rightarrow> bool" where
  "alive w \<longleftrightarrow> h_data (y_objs (w_hsys w) ! w_sock w)"

text \<open>\<open>res\<close>: the code of \<open>uv_write\<close>.\<close>

fun ask :: "'v env \<Rightarrow> int \<Rightarrow> sock_call \<Rightarrow> (('v, 'p) wired, unit) M" where
  "ask E res (CallWrite t) =
     bindM (\<lambda>w. on_hsys (sock_write E (w_sock w) res) w) (\<lambda>a. modM (\<lambda>w. w\<lparr>w_writes := w_writes w @ [a]\<rparr>))"
| "ask E res CallClose =
     bindM (\<lambda>w. on_hsys (sock_close E (w_sock w)) w)
       (\<lambda>a. modM (\<lambda>w. if alive w then w\<lparr>w_closes := w_closes w @ [a]\<rparr> else w))"

text \<open>The destructor: an active socket that nobody else holds is closed, and nobody waits for it.\<close>

definition destroy_connection :: "nat \<Rightarrow> bool \<Rightarrow> nat \<Rightarrow> ('v hsys, unit) M" where
  "destroy_connection use_count is_active h =
     (if use_count = 1 \<and> is_active then bindM (Handle_close h) (\<lambda>_. retM ()) else retM ())"

text \<open>What the connection does, with the calls it makes on the socket; \<open>code n\<close> is the code of the call \<open>n\<close> of
these.\<close>

definition new_calls :: "'p conn \<Rightarrow> 'p conn \<Rightarrow> sock_call list" where
  "new_calls c d = drop (length (c_calls c)) (c_calls d)"

definition reacts :: "'v env \<Rightarrow> (nat \<Rightarrow> int) \<Rightarrow> ('p conn, unit) M \<Rightarrow> (('v, 'p) wired, unit) M" where
  "reacts E code m w = (case m (w_conn w) of
     (Inl e, d) \<Rightarrow> (Inl e, w\<lparr>w_conn := d\<rparr>)
   | (Inr _, d) \<Rightarrow> forM (enumerate 0 (new_calls (w_conn w) d)) (\<lambda>(n, k). ask E (code n) k) (w\<lparr>w_conn := d\<rparr>))"

definition on_loop :: "('v, 'p) wired \<Rightarrow> bool" where
  "on_loop w \<longleftrightarrow> isOnEventLoopThread (y_st (w_hsys w))"

definition in_loop :: "('v, 'p) wired \<Rightarrow> bool" where
  "in_loop w \<longleftrightarrow> loop_started (y_st (w_hsys w)) \<and> cur_thread (y_st (w_hsys w)) = loop_thread (y_st (w_hsys w))"

text \<open>libuv refuses to write on a handle that is closed.\<close>

definition codes_ok :: "(nat \<Rightarrow> int) \<Rightarrow> ('v, 'p) wired \<Rightarrow> bool" where
  "codes_ok code w \<longleftrightarrow> alive w \<or> (\<forall>n. code n \<noteq> 0)"

text \<open>The callback of a request gets its error, if it failed.\<close>

definition failure :: "aid \<Rightarrow> 'v st \<Rightarrow> string option" where
  "failure a s = (case a_resolver (acts s ! a) of Some (RError e) \<Rightarrow> Some e | _ \<Rightarrow> None)"

definition fires :: "'v env \<Rightarrow> aid \<Rightarrow> (('v, 'p) wired, unit) M" where
  "fires E a = on_hsys (on_fut (Async E a))"

definition waits_for :: "aid \<Rightarrow> ('v, 'p) wired \<Rightarrow> bool" where
  "waits_for a w \<longleftrightarrow> a \<in> set (pending (y_st (w_hsys w)))"

section \<open>Steps\<close>

text \<open>The callback of a write makes its calls on the socket within its turn of the loop. The turns in which the
callbacks of a request run are those of \<open>Connection\<close>; all other steps of the program, the loop and libuv leave the
socket and the actions of the connection alone.\<close>

inductive wired_step ::
  "'v env \<Rightarrow> 'p cenv \<Rightarrow> (int \<Rightarrow> string) \<Rightarrow> (nat \<Rightarrow> 'v payload) \<Rightarrow> ('v, 'p) wired \<Rightarrow> ('v, 'p) wired \<Rightarrow> bool"
  for E C S iv where
  w_read: "on_loop w \<Longrightarrow> h_reading (y_objs (w_hsys w) ! w_sock w) \<Longrightarrow> \<not> h_closing (y_objs (w_hsys w) ! w_sock w) \<Longrightarrow>
    codes_ok code w \<Longrightarrow> reacts E code (on_read C ev) w = (Inr (), w') \<Longrightarrow> wired_step E C S iv w w'"
| w_turn: "on_loop w \<Longrightarrow> i < length (c_chains (w_conn w)) \<Longrightarrow>
    \<not> (waits (c_chains (w_conn w) ! i) \<and> 0 < c_pend (w_conn w)) \<Longrightarrow> codes_ok code w \<Longrightarrow>
    reacts E code (chain_turn C i) w = (Inr (), w') \<Longrightarrow> wired_step E C S iv w w'"
| w_close: "on_loop w \<Longrightarrow> codes_ok code w \<Longrightarrow> reacts E code close w = (Inr (), w') \<Longrightarrow> wired_step E C S iv w w'"
| w_written: "in_loop w \<Longrightarrow> a \<in> set (w_writes w) \<Longrightarrow> waits_for a w \<Longrightarrow> codes_ok code w \<Longrightarrow>
    reacts E code (write_done (failure a (y_st (w_hsys w)))) w = (Inr (), u) \<Longrightarrow>
    fires E a (u\<lparr>w_writes := remove1 a (w_writes u)\<rparr>) = (Inr (), w') \<Longrightarrow> wired_step E C S iv w w'"
| w_closed: "w_sock w \<in> set (y_closes (w_hsys w)) \<Longrightarrow> \<forall>q \<in> set (y_reqs (w_hsys w)). q_handle q \<noteq> w_sock w \<Longrightarrow>
    on_hsys (on_close E iv (w_sock w)) w = (Inr (), u) \<Longrightarrow> socket_closed (w_conn w) = (Inr (), d) \<Longrightarrow>
    wired_step E C S iv w (u\<lparr>w_conn := d\<rparr>)"
| w_reported: "in_loop w \<Longrightarrow> a \<in> set (w_closes w) \<Longrightarrow> waits_for a w \<Longrightarrow>
    close_callback (w_conn w) = (Inr (), d) \<Longrightarrow>
    fires E a (w\<lparr>w_conn := d, w_closes := remove1 a (w_closes w)\<rparr>) = (Inr (), w') \<Longrightarrow> wired_step E C S iv w w'"
| w_other: "hstep E S iv (w_hsys w) z \<Longrightarrow> y_objs z ! w_sock w = y_objs (w_hsys w) ! w_sock w \<Longrightarrow>
    set (execd (y_st z)) \<inter> set (w_writes w @ w_closes w) = {} \<Longrightarrow> wired_step E C S iv w (w\<lparr>w_hsys := z\<rparr>)"

text \<open>The connection that \<open>accept\<close> has made: its socket is new and read from.\<close>

definition wired_start :: "'v env \<Rightarrow> (int \<Rightarrow> string) \<Rightarrow> (nat \<Rightarrow> 'v payload) \<Rightarrow> ('v, 'p) wired \<Rightarrow> bool" where
  "wired_start E S iv w \<longleftrightarrow> hreach E S iv (w_hsys w) \<and> accepted (w_conn w) \<and>
     w_sock w < length (y_objs (w_hsys w)) \<and> h_reading (y_objs (w_hsys w) ! w_sock w) \<and>
     \<not> h_closing (y_objs (w_hsys w) ! w_sock w) \<and> w_writes w = [] \<and> w_closes w = []"

abbreviation wired_reach where
  "wired_reach E C S iv \<equiv> reached (wired_start E S iv) (wired_step E C S iv)"

section \<open>Actions that wait\<close>

definition waiting :: "nat \<Rightarrow> fid \<Rightarrow> aid \<Rightarrow> 'v st \<Rightarrow> bool" where
  "waiting n f a s \<longleftrightarrow> f < length (futs s) \<and> a \<in> set (f_actions (futs s ! f)) \<and> a < length (acts s) \<and>
     a_kind (acts s ! a) = KThen \<and> a_fn (acts s ! a) = UserFn n \<and> a \<notin> set (execd s)"

lemma waiting_grows:
  assumes "grows s t" and "waiting n f a s" and "a \<notin> set (execd t)"
  shows "waiting n f a t"
proof -
  have "grows_fut (futs s ! f) (futs t ! f)" "same_act (acts s ! a) (acts t ! a)"
    using assms(1,2) by (simp_all add: grows_def waiting_def)
  with assms show ?thesis by (auto simp: grows_def waiting_def grows_fut_def same_act_def)
qed

lemma waiting_ext: "ext s t \<Longrightarrow> waiting n f a s \<Longrightarrow> waiting n f a t"
  by (rule waiting_grows) (auto simp: ext_def quiet_def waiting_def execd_def)

text \<open>A waiting action is pending exactly when its future has a result, and then with this result.\<close>

lemma waiting_pending:
  assumes i: "inv [] s" and w: "waiting n f a s"
  shows "a \<in> set (pending s) \<longleftrightarrow> f_resolver (futs s ! f) \<noteq> None"
    "f_resolver (futs s ! f) = Some r \<Longrightarrow> a_resolver (acts s ! a) = Some r"
proof -
  have f: "f < length (futs s)" "a \<in> set (f_actions (futs s ! f))" "a \<notin> set (execd s)"
    using w by (auto simp: waiting_def)
  have s: "case f_resolver (futs s ! f) of None \<Rightarrow> a \<notin> set (enqd s) | Some r \<Rightarrow> (a, r) \<in> set (enq_log s)"
    using i f by (auto simp: inv_def inv_settled_def)
  have e: "a \<in> set (enqd s) \<longleftrightarrow> a \<in> set (pending s)"
    using i f(3) by (auto simp: inv_def inv_logs_def)
  show p: "a \<in> set (pending s) \<longleftrightarrow> f_resolver (futs s ! f) \<noteq> None"
    using s e by (force simp: enqd_def split: option.splits)
  assume r: "f_resolver (futs s ! f) = Some r"
  with p have a: "a \<in> set (pending s)" by simp
  obtain x where x: "a_resolver (acts s ! a) = Some x" using inv_pending(2) [OF i a] by (auto simp: active_def)
  have "(a, x) \<in> set (enq_log s)" "(a, r) \<in> set (enq_log s)" "distinct (map fst (enq_log s))"
    using inv_pending(4) [OF i a] x s r i by (auto simp: inv_def inv_logs_def enqd_def)
  then have "x = r" by (metis eq_key_imp_eq_value)
  with x show "a_resolver (acts s ! a) = Some r" by simp
qed

text \<open>What \<open>then\<close> attaches on the loop's thread waits.\<close>

lemma then_waiting:
  assumes i: "inv [] s" and f: "f < length (futs s)" and on: "isOnEventLoopThread s"
    and run: "future_then E f (UserFn n) s = (Inr g, t)"
  shows "waiting n f (length (acts s)) t" "ext s t" "f_resolver (futs t ! f) = f_resolver (futs s ! f)"
proof -
  let ?a = "length (acts s)" and ?s = "made KThen (UserFn n) s"
  have t: "t = attach_st KThen f (UserFn n) s"
    using attach_run(1) [OF i f, of "UserFn n" E KThen] run by (simp add: future_then_def)
  have new: "inv [] ?s" "free ?s ?a" "ext s ?s" using inv_new_action [OF i, of "UserFn n" KThen] by simp_all
  have tp: "t = pushed f ?a ?s" using attach_st_on [OF on] t by simp
  have f': "f < length (futs ?s)" using f by simp
  show e: "ext s t" using ext_trans [OF new(3) ext_pushed [OF f' new(2)]] by (simp add: tp)
  have old: "futs (add_future False s) ! f = futs s ! f" using f by (simp add: add_future_nth)
  show "f_resolver (futs t ! f) = f_resolver (futs s ! f)"
    using f' by (auto simp: tp pushed_def attach_to_def upd_fut_nth old split: option.splits)
  have at: "?a \<in> set (f_actions (futs t ! f))"
    using f' by (auto simp: tp pushed_def attach_to_def upd_fut_nth split: option.splits)
  have "same_act (acts ?s ! ?a) (acts t ! ?a)"
    using ext_act [OF ext_pushed [OF f' new(2)], of ?a] by (simp add: tp)
  then have "a_kind (acts t ! ?a) = KThen \<and> a_fn (acts t ! ?a) = UserFn n"
    by (simp add: same_act_def add_action_nth)
  moreover have "?a < length (acts t)" using ext_acts [OF ext_pushed [OF f' new(2)], of ?a] by (simp add: tp)
  moreover have "?a \<notin> set (execd t)"
  proof -
    have "?a \<notin> set (execd s)" using inv_execd_enqd [OF i] inv_enqd_range [OF i] by blast
    then show ?thesis using e by (simp add: ext_def quiet_def execd_def)
  qed
  ultimately show "waiting n f ?a t" using ext_futs [OF e f] at by (simp add: waiting_def)
qed

section \<open>The link of the actions with the handles\<close>

text \<open>A write that is not answered is a request that libuv has; the callbacks of a close wait for the promise of the
handle until it is closed, and then for their turn.\<close>

definition write_open :: "'v hsys \<Rightarrow> nat \<Rightarrow> fid \<Rightarrow> bool" where
  "write_open y h f \<longleftrightarrow> (\<exists>q \<in> set (y_reqs y). q_promise q = f \<and> q_handle q = h \<and> q_kind q = ReqWrite)"

definition wires :: "'v hsys \<Rightarrow> nat \<Rightarrow> aid list \<Rightarrow> aid list \<Rightarrow> bool" where
  "wires y h ws cs \<longleftrightarrow> h < length (y_objs y) \<and> distinct (ws @ cs) \<and>
     (\<forall>a \<in> set ws. \<exists>f. waiting end_fn f a (y_st y) \<and>
        (f_resolver (futs (y_st y) ! f) = None \<longrightarrow> write_open y h f)) \<and>
     (\<forall>a \<in> set cs. \<exists>f. waiting close_fn f a (y_st y) \<and>
        (if h_data (y_objs y ! h) then h_closing (y_objs y ! h) \<and> f = h_promise (y_objs y ! h)
         else \<exists>v. f_resolver (futs (y_st y) ! f) = Some (RValue v)))"

lemma wiresD:
  assumes "wires y h ws cs"
  shows "h < length (y_objs y)" "distinct (ws @ cs)"
    "a \<in> set ws \<Longrightarrow> \<exists>f. waiting end_fn f a (y_st y) \<and>
       (f_resolver (futs (y_st y) ! f) = None \<longrightarrow> write_open y h f)"
    "a \<in> set cs \<Longrightarrow> \<exists>f. waiting close_fn f a (y_st y) \<and>
       (if h_data (y_objs y ! h) then h_closing (y_objs y ! h) \<and> f = h_promise (y_objs y ! h)
        else \<exists>v. f_resolver (futs (y_st y) ! f) = Some (RValue v))"
  using assms by (simp_all add: wires_def)

lemma wires_range: "wires y h ws cs \<Longrightarrow> a \<in> set ws \<or> a \<in> set cs \<Longrightarrow> a < length (acts (y_st y))"
  by (auto simp: wires_def waiting_def)

lemma grows_resolver:
  "grows s t \<Longrightarrow> f < length (futs s) \<Longrightarrow> f_resolver (futs s ! f) = Some r \<Longrightarrow> f_resolver (futs t ! f) = Some r"
  by (auto simp: grows_def grows_fut_def)

text \<open>Whatever happens elsewhere keeps the link.\<close>

lemma wires_grows:
  assumes w: "wires y h ws cs" and g: "grows (y_st y) (y_st z)" and x: "set (execd (y_st z)) \<inter> set (ws @ cs) = {}"
    and o: "cs = [] \<or> y_objs z ! h = y_objs y ! h" "length (y_objs y) \<le> length (y_objs z)"
    and q: "\<And>q. q \<in> set (y_reqs y) \<Longrightarrow> q \<in> set (y_reqs z) \<or> f_resolver (futs (y_st z) ! q_promise q) \<noteq> None"
  shows "wires z h ws cs"
proof -
  have k: "waiting n f a (y_st z)" "f_resolver (futs (y_st y) ! f) = Some r \<Longrightarrow> f_resolver (futs (y_st z) ! f) = Some r"
    if "a \<in> set (ws @ cs)" "waiting n f a (y_st y)" for n f a r
    using waiting_grows [OF g that(2)] grows_resolver [OF g] that x by (auto simp: waiting_def)
  have "\<exists>f. waiting end_fn f a (y_st z) \<and> (f_resolver (futs (y_st z) ! f) = None \<longrightarrow> write_open z h f)"
    if a: "a \<in> set ws" for a
  proof -
    obtain f where f: "waiting end_fn f a (y_st y)" "f_resolver (futs (y_st y) ! f) = None \<longrightarrow> write_open y h f"
      using wiresD(3) [OF w a] by (elim exE conjE) (rule that)
    have "write_open z h f" if n: "f_resolver (futs (y_st z) ! f) = None"
    proof -
      have "f_resolver (futs (y_st y) ! f) = None"
        using k(2) [OF _ f(1)] a n by (cases "f_resolver (futs (y_st y) ! f)") auto
      with f(2) obtain r where "r \<in> set (y_reqs y)" "q_promise r = f" "q_handle r = h" "q_kind r = ReqWrite"
        unfolding write_open_def by blast
      with q [of r] n show ?thesis unfolding write_open_def by auto
    qed
    with k(1) [OF _ f(1)] a show ?thesis by auto
  qed
  moreover have "\<exists>f. waiting close_fn f a (y_st z) \<and>
        (if h_data (y_objs z ! h) then h_closing (y_objs z ! h) \<and> f = h_promise (y_objs z ! h)
         else \<exists>v. f_resolver (futs (y_st z) ! f) = Some (RValue v))" if a: "a \<in> set cs" for a
  proof -
    obtain f where f: "waiting close_fn f a (y_st y)" "if h_data (y_objs y ! h)
        then h_closing (y_objs y ! h) \<and> f = h_promise (y_objs y ! h)
        else \<exists>v. f_resolver (futs (y_st y) ! f) = Some (RValue v)"
      using wiresD(4) [OF w a] by (elim exE conjE) (rule that)
    have "a \<in> set (ws @ cs)" and e: "y_objs z ! h = y_objs y ! h" using a o(1) by auto
    from k [OF this(1) f(1)] f(2) show ?thesis unfolding e by (intro exI [of _ f]) (auto split: if_splits)
  qed
  ultimately show ?thesis using w o(2) by (simp add: wires_def)
qed

lemma wires_ext:
  assumes w: "wires y h ws cs" and e: "ext (y_st y) (y_st z)" and o: "y_objs z = y_objs y"
    and q: "set (y_reqs y) \<subseteq> set (y_reqs z)"
  shows "wires z h ws cs"
proof (rule wires_grows [OF w])
  show "grows (y_st y) (y_st z)" using e by (simp add: ext_def)
  show "set (execd (y_st z)) \<inter> set (ws @ cs) = {}"
    using w e by (auto simp: wires_def waiting_def ext_def quiet_def execd_def)
qed (use o q in auto)

section \<open>Asking the socket\<close>

lemma attach_waits:
  assumes ok: "hok y" and own: "own (y_st y)" and f: "f < length (futs (y_st y))" and on: "isOnEventLoopThread (y_st y)"
    and run: "attach_fn E f n y = (Inr a, z)"
  shows "hstep E S iv y z" "a = length (acts (y_st y))" "waiting n f a (y_st z)" "ext (y_st y) (y_st z)"
    "f_resolver (futs (y_st z) ! f) = f_resolver (futs (y_st y) ! f)" "y_objs z = y_objs y" "y_reqs z = y_reqs y"
proof -
  have i: "inv [] (y_st y)" using ok by (simp add: hok_def owns_def)
  obtain g t where t: "future_then E f (UserFn n) (y_st y) = (Inr g, t)" and z: "z = y\<lparr>y_st := t\<rparr>"
    and a: "a = length (acts (y_st y))"
    using run by (auto simp: attach_fn_def on_fut_def monad_Inr split: prod.splits)
  show "a = length (acts (y_st y))" by (rule a)
  show "hstep E S iv y z" unfolding z by (rule h_lib [OF then_step [OF f t]])
  show "y_objs z = y_objs y" "y_reqs z = y_reqs y" by (simp_all add: z)
  show "waiting n f a (y_st z)" "ext (y_st y) (y_st z)"
    "f_resolver (futs (y_st z) ! f) = f_resolver (futs (y_st y) ! f)"
    using then_waiting [OF i f on t] by (simp_all add: z a)
qed

lemma wires_write:
  assumes "wires y h ws cs" and "waiting end_fn f a (y_st y)" and "a \<notin> set (ws @ cs)"
    and "f_resolver (futs (y_st y) ! f) = None \<longrightarrow> write_open y h f"
  shows "wires y h (ws @ [a]) cs"
  using assms unfolding wires_def by auto

lemma sock_write_ok:
  assumes ok: "hok y" and own: "own (y_st y)" and on: "isOnEventLoopThread (y_st y)" and w: "wires y h ws cs"
    and d: "h_data (y_objs y ! h) \<or> res \<noteq> 0" and run: "sock_write E h res y = (Inr a, z)"
  shows "hsteps E S iv y z" "ext (y_st y) (y_st z)" "y_objs z = y_objs y" "wires z h (ws @ [a]) cs"
proof -
  let ?f = "length (futs (y_st y))"
  have i: "inv [] (y_st y)" using ok by (simp add: hok_def owns_def)
  have h: "h < length (y_objs y)" using w by (simp add: wires_def)
  obtain f u where u: "Stream_write E h res y = (Inr f, u)" "attach_fn E f end_fn u = (Inr a, z)"
    using run by (auto simp: sock_write_def bindM_Inr)
  have su: "hstep E S iv y u" by (rule h_write [OF h d u(1)])
  have uo: "hok u" "own (y_st u)" using hstep_own [OF _ su] ok own by blast+
  have c: "f = ?f \<and> y_objs u = y_objs y \<and> ext (y_st y) (y_st u) \<and> f < length (futs (y_st u)) \<and>
      set (y_reqs y) \<subseteq> set (y_reqs u) \<and> (f_resolver (futs (y_st u) ! f) = None \<longrightarrow> write_open u h f)"
  proof (cases "res = 0")
    case True
    then have "f = ?f \<and> u = y\<lparr>y_st := add_future False (y_st y),
        y_reqs := y_reqs y @ [\<lparr>q_kind = ReqWrite, q_handle = h, q_promise = ?f\<rparr>]\<rparr>"
      using u(1) by (auto simp: Stream_write_def request_defs split: if_splits)
    then show ?thesis using ext_add_future [of "y_st y" False] by (simp add: write_open_def subset_iff)
  next
    case False
    let ?e = "''Error in uv_write, status: '' @ dec_int res"
    obtain r t where r: "future_reject E ?f ?e (add_future False (y_st y)) = (r, t)" by (rule prod.exhaust)
    have eq: "r = Inr ()" "f = ?f" "u = y\<lparr>y_st := t\<rparr>"
      using u(1) False r by (cases r; auto simp: Stream_write_def request_defs split: if_splits)+
    from r eq(1) have t: "future_reject E ?f ?e (add_future False (y_st y)) = (Inr (), t)" by simp
    have n: "inv [] (add_future False (y_st y))" "fresh_at ?f (add_future False (y_st y))"
      using store.new_ok [OF i new_future_eq] by blast+
    from t have "resolver_resolve_future E (RError ?e) ?f (add_future False (y_st y)) = (Inr (), t)" by simp
    note s = fresh_settled(1,4) [OF n this]
    have "ext (add_future False (y_st y)) t" using ext_settle [OF n(1) fresh_atD(1,3) [OF n(2)]] by (simp add: s(1))
    with s(2) ext_trans [OF ext_add_future this] ext_futs [OF this, of ?f] show ?thesis by (simp add: eq)
  qed
  have onu: "isOnEventLoopThread (y_st u)" using isOn_ext c on by metis
  have "f < length (futs (y_st u))" using c by blast
  note z = attach_waits [OF uo this onu u(2)]
  have wu: "wires u h ws cs" by (rule wires_ext [OF w]) (use c in auto)
  have wz: "wires z h ws cs" by (rule wires_ext [OF wu z(4)]) (use z(6,7) in auto)
  show "hsteps E S iv y z" using su z(1) by (meson hsys.one hsys.one_more)
  show "ext (y_st y) (y_st z)" using c ext_trans [OF _ z(4)] by blast
  show "y_objs z = y_objs y" using c z(6) by simp
  show "wires z h (ws @ [a]) cs"
  proof (rule wires_write [OF wz z(3)])
    show "a \<notin> set (ws @ cs)" using wires_range [OF wu] z(2) by auto
    show "f_resolver (futs (y_st z) ! f) = None \<longrightarrow> write_open z h f"
      using c z(5,7) by (auto simp: write_open_def)
  qed
qed

lemma wires_close:
  assumes "wires y h ws cs" and "waiting close_fn f a (y_st y)" and "a \<notin> set (ws @ cs)"
    and "h_closing (y_objs y ! h)" and "h_data (y_objs y ! h)" and "f = h_promise (y_objs y ! h)"
  shows "wires y h ws (cs @ [a])"
  using assms unfolding wires_def by auto

lemma sock_close_ok:
  assumes ok: "hok y" and own: "own (y_st y)" and on: "isOnEventLoopThread (y_st y)" and w: "wires y h ws cs"
    and run: "sock_close E h y = (Inr a, z)"
  shows "hsteps E S iv y z" "ext (y_st y) (y_st z)" "h_data (y_objs z ! h) = h_data (y_objs y ! h)"
    "h_closing (y_objs z ! h)" "wires z h ws (if h_data (y_objs y ! h) then cs @ [a] else cs)"
proof -
  have h: "h < length (y_objs y)" by (rule wiresD(1) [OF w])
  obtain f u where u: "Handle_close h y = (Inr f, u)" "attach_fn E f close_fn u = (Inr a, z)"
    using run by (auto simp: sock_close_def bindM_Inr)
  have su: "hstep E S iv y u" by (rule h_close [OF h u(1)])
  have uo: "hok u" "own (y_st u)" using hstep_own [OF _ su] ok own by blast+
  have fl: "f < length (futs (y_st u))" by (rule hok_close(2) [OF ok h u(1)])
  have d: "\<not> h_closing (y_objs y ! h) \<Longrightarrow> h_data (y_objs y ! h)"
    using ok h by (simp add: hok_def struct_ok_def handle_ok_def)
  have c: "ext (y_st y) (y_st u) \<and> h_data (y_objs u ! h) = h_data (y_objs y ! h) \<and> h_closing (y_objs u ! h) \<and>
      f = h_promise (y_objs u ! h) \<and> wires u h ws cs"
  proof (cases "h_closing (y_objs y ! h)")
    case True
    then show ?thesis using u(1) Handle_close_eq [OF ok h on] w by auto
  next
    case False
    have e: "f = length (futs (y_st y))" "u = close_st h y" using u(1) Handle_close_eq [OF ok h on] False by simp_all
    have x: "ext (y_st y) (y_st u)" using ext_add_future [of "y_st y" False] by (simp add: e(2) close_st_def upd_handle_def)
    have cs: "cs = []" using wiresD(4) [OF w, of "hd cs"] False d by (cases cs) auto
    have "wires u h ws []"
    proof (rule wires_grows [OF w [unfolded cs]])
      show "grows (y_st y) (y_st u)" using x by (simp add: ext_def)
      show "set (execd (y_st u)) \<inter> set (ws @ []) = {}"
        using w x by (auto simp: wires_def waiting_def ext_def quiet_def execd_def)
    qed (simp_all add: e(2) close_st_def upd_handle_def)
    with x cs h d [OF False] show ?thesis by (simp add: e close_st_def upd_handle_def)
  qed
  have onu: "isOnEventLoopThread (y_st u)" using isOn_ext c on by metis
  note z = attach_waits [OF uo fl onu u(2)]
  have wz: "wires z h ws cs" by (rule wires_ext [OF _ z(4)]) (use c z(6,7) in auto)
  show "hsteps E S iv y z" using su z(1) by (meson hsys.one hsys.one_more)
  show "ext (y_st y) (y_st z)" using c ext_trans [OF _ z(4)] by blast
  show k: "h_data (y_objs z ! h) = h_data (y_objs y ! h)" "h_closing (y_objs z ! h)" using c z(6) by simp_all
  have "a \<notin> set (ws @ cs)" using wires_range [of u h ws cs] c z(2) by auto
  then show "wires z h ws (if h_data (y_objs y ! h) then cs @ [a] else cs)"
    using wires_close [OF wz z(3)] wz k c z(6) by simp
qed

lemma destroy_connection_ok:
  assumes "hok y" and "h < length (y_objs y)" and "isOnEventLoopThread (y_st y)"
  shows "\<exists>z. destroy_connection n act_h h y = (Inr (), z) \<and> hsteps E S iv y z \<and>
    h_closing (y_objs z ! h) = (h_closing (y_objs y ! h) \<or> n = 1 \<and> act_h)"
proof (cases "n = 1 \<and> act_h")
  case True
  obtain f z where z: "Handle_close h y = (Inr f, z)" "h_closing (y_objs z ! h)"
    using Handle_close_eq [OF assms] assms(2)
    by (cases "h_closing (y_objs y ! h)") (auto simp: close_st_def upd_handle_def)
  have "hstep E S iv y z" by (rule h_close [OF assms(2) z(1)])
  with True z show ?thesis by (auto simp: destroy_connection_def bindM_def intro: hsys.one)
qed (auto simp: destroy_connection_def)

section \<open>A list of calls\<close>

definition sock_of :: "('v, 'p) wired \<Rightarrow> sock_state" where
  "sock_of w = (if \<not> alive w then SockClosed
     else if h_closing (y_objs (w_hsys w) ! w_sock w) then SockClosing else SockOpen)"

lemma sock_of_simps [simp]:
  "sock_of (w\<lparr>w_conn := d\<rparr>) = sock_of w" "sock_of (w\<lparr>w_writes := ws\<rparr>) = sock_of w"
  "sock_of (w\<lparr>w_closes := cs\<rparr>) = sock_of w"
  by (simp_all add: sock_of_def alive_def)

lemma alive_sock: "alive w \<longleftrightarrow> sock_of w \<noteq> SockClosed"
  by (simp add: sock_of_def)

definition wired_hs :: "('v, 'p) wired \<Rightarrow> bool" where
  "wired_hs w \<longleftrightarrow> hok (w_hsys w) \<and> own (y_st (w_hsys w)) \<and> wires (w_hsys w) (w_sock w) (w_writes w) (w_closes w)"

text \<open>\<open>served w ks w'\<close>: on the way from \<open>w\<close> to \<open>w'\<close> the socket was asked for \<open>ks\<close>.\<close>

definition served :: "'v env \<Rightarrow> (int \<Rightarrow> string) \<Rightarrow> (nat \<Rightarrow> 'v payload) \<Rightarrow>
    ('v, 'p) wired \<Rightarrow> sock_call list \<Rightarrow> ('v, 'p) wired \<Rightarrow> bool" where
  "served E S iv w ks v \<longleftrightarrow> wired_hs v \<and> hsteps E S iv (w_hsys w) (w_hsys v) \<and> ext (y_st (w_hsys w)) (y_st (w_hsys v)) \<and>
     w_conn v = w_conn w \<and> w_sock v = w_sock w \<and>
     (\<exists>as. w_writes v = w_writes w @ as \<and> length as = writes_of ks) \<and>
     (\<exists>as. w_closes v = w_closes w @ as \<and> length as = (if sock_of w = SockClosed then 0 else closes_of ks)) \<and>
     sock_of v = (if sock_of w = SockClosed \<or> closes_of ks = 0 then sock_of w else SockClosing)"

lemma served_refl: "wired_hs w \<Longrightarrow> served E S iv w [] w"
  by (simp add: served_def)

lemma served_trans:
  assumes "served E S iv w ks u" and "served E S iv u ls v"
  shows "served E S iv w (ks @ ls) v"
proof -
  have "hsteps E S iv (w_hsys w) (w_hsys v)" "ext (y_st (w_hsys w)) (y_st (w_hsys v))"
    using assms by (auto simp: served_def intro: rtranclp_trans ext_trans)
  with assms show ?thesis by (auto simp: served_def)
qed

lemma ask_served:
  assumes w: "wired_hs w" and on: "on_loop w" and c: "alive w \<or> res \<noteq> 0" and run: "ask E res k w = (Inr (), v)"
  shows "served E S iv w [k] v"
proof -
  have hs: "hok (w_hsys w)" "own (y_st (w_hsys w))" "isOnEventLoopThread (y_st (w_hsys w))"
      "wires (w_hsys w) (w_sock w) (w_writes w) (w_closes w)"
    using w on by (simp_all add: wired_hs_def on_loop_def)
  note keep = owned_sys.runs [OF _ conjI [OF hs(1,2)]]
  show ?thesis
  proof (cases k)
    case (CallWrite t)
    then obtain a z where z: "sock_write E (w_sock w) res (w_hsys w) = (Inr a, z)"
      and v: "v = w\<lparr>w_hsys := z, w_writes := w_writes w @ [a]\<rparr>"
      using run by (auto simp: bindM_Inr on_hsys_def split: prod.splits)
    note s = sock_write_ok [OF hs c [unfolded alive_def] z]
    have "sock_of v = sock_of w" using s(3) by (simp add: sock_of_def alive_def v)
    with s keep [OF s(1)] CallWrite show ?thesis by (simp add: served_def wired_hs_def v)
  next
    case CallClose
    then obtain a z where z: "sock_close E (w_sock w) (w_hsys w) = (Inr a, z)"
      and v: "v = (if alive (w\<lparr>w_hsys := z\<rparr>) then w\<lparr>w_hsys := z, w_closes := w_closes w @ [a]\<rparr> else w\<lparr>w_hsys := z\<rparr>)"
      using run by (auto simp: bindM_Inr on_hsys_def split: prod.splits)
    note s = sock_close_ok [OF hs z]
    have al: "alive (w\<lparr>w_hsys := z\<rparr>) = alive w" using s(3) by (simp add: alive_def)
    have so: "sock_of v = (if sock_of w = SockClosed then sock_of w else SockClosing)"
      using s(3,4) al by (simp add: sock_of_def alive_def v)
    have sc: "sock_of w = SockClosed \<longleftrightarrow> \<not> h_data (y_objs (w_hsys w) ! w_sock w)"
      by (simp add: sock_of_def alive_def)
    show ?thesis
      using s keep [OF s(1)] CallClose so al unfolding sc
      by (simp add: served_def wired_hs_def v alive_def sc split: if_splits)
  qed
qed

lemma asks_served:
  "wired_hs w \<Longrightarrow> on_loop w \<Longrightarrow> codes_ok code w \<Longrightarrow>
     forM (enumerate n ks) (\<lambda>(n, k). ask E (code n) k) w = (Inr (), v) \<Longrightarrow> served E S iv w ks v"
proof (induction ks arbitrary: n w)
  case Nil
  then show ?case by (simp add: served_refl)
next
  case (Cons k ks)
  obtain u where u: "ask E (code n) k w = (Inr (), u)" "forM (enumerate (Suc n) ks) (\<lambda>(n, k). ask E (code n) k) u = (Inr (), v)"
    using Cons.prems(4) by (auto simp: thenM_Inr)
  have s: "served E S iv w [k] u"
    by (rule ask_served [OF Cons.prems(1,2) _ u(1)]) (use Cons.prems(3) in \<open>auto simp: codes_ok_def\<close>)
  have "on_loop u" using Cons.prems(2) s isOn_ext by (auto simp: served_def on_loop_def)
  moreover have "codes_ok code u" using Cons.prems(3) s by (auto simp: codes_ok_def alive_sock served_def split: if_splits)
  moreover have "wired_hs u" using s by (simp add: served_def)
  ultimately have "served E S iv u ks v" using Cons.IH u(2) by blast
  from served_trans [OF s this] show ?case by simp
qed

section \<open>The connection and its socket stay together\<close>

definition linked :: "('v, 'p) wired \<Rightarrow> bool" where
  "linked w \<longleftrightarrow> c_reading (w_conn w) \<and> c_socket (w_conn w) = sock_of w \<and>
     c_pend (w_conn w) = length (w_writes w) \<and> c_closes (w_conn w) = length (w_closes w)"

text \<open>A step is matched by steps of the handles and by at most one step of the connection.\<close>

definition matched :: "'v env \<Rightarrow> 'p cenv \<Rightarrow> (int \<Rightarrow> string) \<Rightarrow> (nat \<Rightarrow> 'v payload) \<Rightarrow>
    ('v, 'p) wired \<Rightarrow> ('v, 'p) wired \<Rightarrow> bool" where
  "matched E C S iv w v \<longleftrightarrow> wired_hs v \<and> linked v \<and> hsteps E S iv (w_hsys w) (w_hsys v) \<and>
     (w_conn v = w_conn w \<or> conn_step C (w_conn w) (w_conn v))"

lemma hstep_objs:
  assumes "hstep E S iv y z" and ok: "hok y"
  shows "length (y_objs y) \<le> length (y_objs z)"
  using assms(1)
proof cases
  case (h_on_close h x)
  from on_close_cases [OF ok h_on_close(1,3)] have "z = closed_hst E iv h y" by blast
  then show ?thesis by (simp add: closed_hst_def Let_def)
next
  case (h_close h f)
  then show ?thesis using Handle_close_eq [OF ok h_close(1) Handle_close_thread [OF h_close(2)]]
    by (auto simp: close_st_def upd_handle_def split: if_splits)
next
  case (h_timeout h n repeat cb x)
  then show ?thesis
  proof (cases "repeat = 0 \<or> \<not> cb")
    case True
    with h_timeout obtain f u g t where u: "Handle_close h y = (Inr f, u)" and z: "z = u\<lparr>y_st := t\<rparr>"
      by (auto simp: Timer_OnTimeout_def Timer_close_def monad_defs on_fut_def split: prod.splits sum.splits)
    with Handle_close_eq [OF ok h_timeout(1) Handle_close_thread [OF u]] show ?thesis
      by (auto simp: close_st_def upd_handle_def split: if_splits)
  qed (simp add: Timer_OnTimeout_def monad_defs)
next
  case (h_complete q status x)
  have "h_data (y_objs y ! q_handle q)" using ok h_complete(1) by (auto simp: hok_def struct_ok_def)
  from h_complete(2) [unfolded complete_eq [OF this]] show ?thesis
    by (auto simp: completed_def upd_handle_def split: prod.splits)
next
  case (h_write h res f)
  then show ?thesis by (auto simp: Stream_write_def request_defs split: if_splits prod.splits sum.splits)
next
  case (h_shutdown h res f)
  then show ?thesis by (auto simp: Stream_shutdown_def request_defs split: if_splits prod.splits sum.splits)
next
  case (h_connect h version addr res f)
  then show ?thesis by (auto simp: Tcp_connect_def Let_def request_defs upd_handle_def split: if_splits prod.splits)
next
  case (h_pipe h f)
  then show ?thesis by (auto simp: Pipe_connect_def Let_def request_defs upd_handle_def split: if_splits prod.splits)
next
  case (h_tcp h)
  then show ?thesis by (auto simp: Tcp_Create_def handle_defs split: if_splits)
next
  case (h_timer r h)
  then show ?thesis by (auto simp: Timer_Create_def handle_defs split: if_splits)
qed (auto simp: readStart_def readStop_def get_handle_def upd_handle_def monad_defs split: if_splits)

text \<open>A turn of the loop that runs one of the actions.\<close>

lemma wires_remove: "wires y h ws cs \<Longrightarrow> wires y h (remove1 a ws) (remove1 a cs)"
  by (auto simp: wires_def dest: notin_set_remove1)

lemma fire_wires:
  assumes ok: "hok y" and own: "own (y_st y)" and w: "wires y h ws cs" and a: "a \<in> set (pending (y_st y))"
    and l: "loop_started (y_st y)" "cur_thread (y_st y) = loop_thread (y_st y)" and run: "Async E a (y_st y) = (Inr (), t)"
  shows "hstep E S iv y (y\<lparr>y_st := t\<rparr>)" "wires (y\<lparr>y_st := t\<rparr>) h (remove1 a ws) (remove1 a cs)"
proof -
  have i: "inv [] (y_st y)" using ok by (simp add: hok_def owns_def)
  have st: "step E (y_st y) t" by (rule step_fire [OF l a run])
  show "hstep E S iv y (y\<lparr>y_st := t\<rparr>)" by (rule h_lib [OF st])
  obtain u where "stable [a] (log_exec a (y_st y)) u" "t = uv_close a u"
    using Async_returns [OF i own a on_loop_thread [OF l(2)] run] by auto
  then have x: "execd t = execd (y_st y) @ [a]"
    by (simp add: stable_def ext_def quiet_def execd_def uv_close_def)
  have d: "a \<notin> set (remove1 a ws @ remove1 a cs)" using wiresD(2) [OF w] by auto
  have n: "set (execd (y_st y)) \<inter> set (ws @ cs) = {}" using w by (auto simp: wires_def waiting_def)
  show "wires (y\<lparr>y_st := t\<rparr>) h (remove1 a ws) (remove1 a cs)"
  proof (rule wires_grows [OF wires_remove [OF w]])
    show "grows (y_st y) (y_st (y\<lparr>y_st := t\<rparr>))" using grows_step [OF st i] by simp
    show "set (execd (y_st (y\<lparr>y_st := t\<rparr>))) \<inter> set (remove1 a ws @ remove1 a cs) = {}"
      using x d n set_remove1_subset [of a ws] set_remove1_subset [of a cs] by auto
  qed simp_all
qed

text \<open>What the connection does, and what it asks of the socket.\<close>

lemma asked_new_calls:
  assumes "asked c d" and "length (c_calls c) = n"
  shows "c_reading d = c_reading c" "c_pend d = c_pend c + writes_of (drop n (c_calls d))"
    "c_closes d = c_closes c + (if c_socket c = SockClosed then 0 else closes_of (drop n (c_calls d)))"
    "c_socket d = (if c_socket c = SockClosed \<or> closes_of (drop n (c_calls d)) = 0 then c_socket c else SockClosing)"
  using assms by (auto simp: asked_def)

lemma reacts_linked:
  assumes w: "wired_hs w" "linked w" and on: "on_loop w" and code: "codes_ok code w"
    and run: "reacts E code m w = (Inr (), v)"
    and asks: "\<And>d. m (w_conn w) = (Inr (), d) \<Longrightarrow> asked ((w_conn w)\<lparr>c_pend := p\<rparr>) d"
  shows "m (w_conn w) = (Inr (), w_conn v)" "wired_hs v" "hsteps E S iv (w_hsys w) (w_hsys v)"
    "ext (y_st (w_hsys w)) (y_st (w_hsys v))" "w_sock v = w_sock w" "set (w_writes w) \<subseteq> set (w_writes v)"
    "c_pend (w_conn v) + length (w_writes w) = p + length (w_writes v)"
    "linked (v\<lparr>w_conn := (w_conn v)\<lparr>c_pend := length (w_writes v)\<rparr>\<rparr>)"
proof -
  obtain r d where rd: "m (w_conn w) = (r, d)" by (rule prod.exhaust)
  with run have d: "m (w_conn w) = (Inr (), d)" by (cases r) (auto simp: reacts_def)
  let ?w = "w\<lparr>w_conn := d\<rparr>" and ?ks = "new_calls (w_conn w) d"
  have "forM (enumerate 0 ?ks) (\<lambda>(n, k). ask E (code n) k) ?w = (Inr (), v)"
    using run d by (simp add: reacts_def)
  then have s: "served E S iv ?w ?ks v" for S iv
    by (rule asks_served [rotated -1]) (use w on code in \<open>simp_all add: wired_hs_def on_loop_def codes_ok_def alive_def\<close>)
  then have dv: "d = w_conn v" by (simp add: served_def)
  with d show "m (w_conn w) = (Inr (), w_conn v)" by simp
  show "wired_hs v" "hsteps E S iv (w_hsys w) (w_hsys v)" "ext (y_st (w_hsys w)) (y_st (w_hsys v))"
      "w_sock v = w_sock w" "set (w_writes w) \<subseteq> set (w_writes v)"
    using s [of S iv] by (auto simp: served_def)
  note k = asked_new_calls [OF asks [OF d], of "length (c_calls (w_conn w))", simplified, folded new_calls_def]
  show "c_pend (w_conn v) + length (w_writes w) = p + length (w_writes v)"
    using k(2) s [of S iv] dv by (auto simp: served_def)
  show "linked (v\<lparr>w_conn := (w_conn v)\<lparr>c_pend := length (w_writes v)\<rparr>\<rparr>)"
    using k(1,3,4) s [of S iv] w(2) unfolding linked_def dv by (auto simp: served_def)
qed

lemma asked_write_done:
  "write_done e c = (Inr (), d) \<Longrightarrow> asked (c\<lparr>c_pend := c_pend c - 1\<rparr>) d"
proof -
  let ?c = "c\<lparr>c_pend := c_pend c - 1\<rparr>"
  have "asked ?c d" if "close (?c\<lparr>c_events := es\<rparr>) = (x, d)" for es x
    using asked_close [of ?c "?c\<lparr>c_events := es\<rparr>"] that by simp
  then show "write_done e c = (Inr (), d) \<Longrightarrow> asked ?c d"
    by (auto simp: write_done_def end_sent_def Let_def split: option.splits if_splits)
qed

lemma wired_hs_sock:
  assumes "wired_hs w"
  shows "\<not> h_closing (y_objs (w_hsys w) ! w_sock w) \<Longrightarrow> sock_of w = SockOpen"
    "w_sock w \<in> set (y_closes (w_hsys w)) \<Longrightarrow> sock_of w = SockClosing"
proof -
  have h: "w_sock w < length (y_objs (w_hsys w))" "hok (w_hsys w)" using assms by (simp_all add: wired_hs_def wires_def)
  then show "\<not> h_closing (y_objs (w_hsys w) ! w_sock w) \<Longrightarrow> sock_of w = SockOpen"
    by (simp add: sock_of_def alive_def hok_def struct_ok_def handle_ok_def)
  show "w_sock w \<in> set (y_closes (w_hsys w)) \<Longrightarrow> sock_of w = SockClosing"
    using closing_handle [OF h(2)] by (simp add: sock_of_def alive_def)
qed

text \<open>The steps in which the connection reads, goes on with a request or is told to close.\<close>

lemma reacts_matched:
  assumes hs: "wired_hs w" "linked w" and on: "on_loop w" and code: "codes_ok code w"
    and run: "reacts E code m w = (Inr (), v)"
    and asks: "\<And>d. m (w_conn w) = (Inr (), d) \<Longrightarrow> asked (w_conn w) d"
    and st: "\<And>d. m (w_conn w) = (Inr (), d) \<Longrightarrow> conn_step C (w_conn w) d"
  shows "matched E C S iv w v"
proof -
  have p: "(w_conn w)\<lparr>c_pend := length (w_writes w)\<rparr> = w_conn w" using hs(2) by (simp add: linked_def)
  note r = reacts_linked [OF hs on code run, of "length (w_writes w)", unfolded p, OF asks]
  have "c_pend (w_conn v) = length (w_writes v)" using r(7) by simp
  then have "linked v" using r(8) by (simp add: linked_def)
  with r st [OF r(1)] show ?thesis by (simp add: matched_def)
qed

text \<open>The steps in which the loop runs an action of the connection.\<close>

lemma fires_ok:
  assumes hs: "wired_hs u" and l: "in_loop u" and a: "waits_for a u"
    and u': "u' = u\<lparr>w_conn := d, w_writes := remove1 a (w_writes u), w_closes := remove1 a (w_closes u)\<rparr>"
    and run: "fires E a u' = (Inr (), v)"
  shows "hstep E S iv (w_hsys u) (w_hsys v)" "wired_hs v" "w_writes v = remove1 a (w_writes u)"
    "w_closes v = remove1 a (w_closes u)" "w_conn v = d" "sock_of v = sock_of u"
proof -
  obtain t where t: "Async E a (y_st (w_hsys u)) = (Inr (), t)"
    and v: "v = u'\<lparr>w_hsys := (w_hsys u)\<lparr>y_st := t\<rparr>\<rparr>"
    using run by (auto simp: u' fires_def on_hsys_def on_fut_def split: prod.splits)
  have ok: "hok (w_hsys u)" "own (y_st (w_hsys u))" and w: "wires (w_hsys u) (w_sock u) (w_writes u) (w_closes u)"
    using hs by (simp_all add: wired_hs_def)
  have f: "hstep E S iv (w_hsys u) ((w_hsys u)\<lparr>y_st := t\<rparr>)" for S iv
    by (rule fire_wires(1) [OF ok w _ _ _ t]) (use a l in \<open>simp_all add: waits_for_def in_loop_def\<close>)
  have "wires ((w_hsys u)\<lparr>y_st := t\<rparr>) (w_sock u) (remove1 a (w_writes u)) (remove1 a (w_closes u))"
    by (rule fire_wires(2) [OF ok w _ _ _ t]) (use a l in \<open>simp_all add: waits_for_def in_loop_def\<close>)
  then show "wired_hs v" using hstep_own [OF _ f] ok by (simp add: wired_hs_def v u')
  show "hstep E S iv (w_hsys u) (w_hsys v)" "w_writes v = remove1 a (w_writes u)"
    "w_closes v = remove1 a (w_closes u)" "w_conn v = d" using f by (simp_all add: v u')
  show "sock_of v = sock_of u" by (simp add: v u' sock_of_def alive_def)
qed

lemma wired_hs_disjoint:
  assumes "wired_hs w"
  shows "a \<in> set (w_writes w) \<Longrightarrow> remove1 a (w_closes w) = w_closes w"
    "a \<in> set (w_closes w) \<Longrightarrow> remove1 a (w_writes w) = w_writes w"
  using wiresD(2) [of "w_hsys w" "w_sock w" "w_writes w" "w_closes w"] assms
  by (auto simp: wired_hs_def intro: remove1_idem)

lemma written_matched:
  assumes hs: "wired_hs w" "linked w" and l: "in_loop w" and a: "a \<in> set (w_writes w)" "waits_for a w"
    and code: "codes_ok code w" and run: "reacts E code (write_done e) w = (Inr (), u)"
    and fire: "fires E a (u\<lparr>w_writes := remove1 a (w_writes u)\<rparr>) = (Inr (), v)"
  shows "matched E C S iv w v" "write_done e (w_conn w) = (Inr (), w_conn v)"
proof -
  have p: "c_pend (w_conn w) = length (w_writes w)" "0 < length (w_writes w)"
    using hs(2) a(1) by (auto simp: linked_def)
  have on: "on_loop w" using l by (simp add: on_loop_def in_loop_def isOnEventLoopThread_def)
  have asks: "asked ((w_conn w)\<lparr>c_pend := c_pend (w_conn w) - 1\<rparr>) d" if "write_done e (w_conn w) = (Inr (), d)" for d
    by (rule asked_write_done [OF that])
  note r = reacts_linked [OF hs on code run asks]
  have au: "a \<in> set (w_writes u)" "waits_for a u" "in_loop u"
    using r(4,6) a l by (auto simp: waits_for_def ext_def quiet_def in_loop_def)
  have "u\<lparr>w_writes := remove1 a (w_writes u)\<rparr> =
      u\<lparr>w_conn := w_conn u, w_writes := remove1 a (w_writes u), w_closes := remove1 a (w_closes u)\<rparr>"
    using wired_hs_disjoint(1) [OF r(2) au(1)] by simp
  note f = fires_ok [OF r(2) au(3,2) this fire]
  show wr: "write_done e (w_conn w) = (Inr (), w_conn v)" using r(1) f(5) by simp
  have "conn_step C (w_conn w) (w_conn v)" by (rule written [OF _ wr]) (use p in simp)
  moreover have "hsteps E S iv (w_hsys w) (w_hsys v)" using r(3) f(1) by (rule rtranclp.rtrancl_into_rtrancl)
  moreover have "linked v"
  proof -
    have "c_pend (w_conn v) = length (w_writes v)"
      using r(7) p au(1) f(3,5) length_pos_if_in_set [OF au(1)] by (simp add: length_remove1)
    then show ?thesis using r(8) f(4,5,6) wired_hs_disjoint(1) [OF r(2) au(1)] by (simp add: linked_def)
  qed
  ultimately show "matched E C S iv w v" using f(2) by (simp add: matched_def)
qed

text \<open>A callback of a close runs when the handle is closed.\<close>

lemma reported_matched:
  assumes hs: "wired_hs w" "linked w" and l: "in_loop w" and a: "a \<in> set (w_closes w)" "waits_for a w"
    and run: "close_callback (w_conn w) = (Inr (), d)"
    and fire: "fires E a (w\<lparr>w_conn := d, w_closes := remove1 a (w_closes w)\<rparr>) = (Inr (), v)"
  shows "matched E C S iv w v"
proof -
  have "w\<lparr>w_conn := d, w_closes := remove1 a (w_closes w)\<rparr> =
      w\<lparr>w_conn := d, w_writes := remove1 a (w_writes w), w_closes := remove1 a (w_closes w)\<rparr>"
    using wired_hs_disjoint(2) [OF hs(1) a(1)] by simp
  note f = fires_ok [OF hs(1) l a(2) this fire]
  have y: "hok (w_hsys w)" "wires (w_hsys w) (w_sock w) (w_writes w) (w_closes w)" using hs(1) by (simp_all add: wired_hs_def)
  have i: "inv [] (y_st (w_hsys w))" using y(1) by (simp add: hok_def owns_def)
  obtain g where g: "waiting close_fn g a (y_st (w_hsys w))" "alive w \<Longrightarrow> g = h_promise (y_objs (w_hsys w) ! w_sock w)"
    using wiresD(4) [OF y(2) a(1)] by (auto simp: alive_def split: if_splits)
  have "\<not> alive w"
    using waiting_pending(1) [OF i g(1)] g(2) a(2) fresh_atD(3) [OF owned_handle(2) [OF y(1) wiresD(1) [OF y(2)]]]
    by (auto simp: waits_for_def)
  then have sc: "c_socket (w_conn w) = SockClosed" "0 < c_closes (w_conn w)"
    using hs(2) a(1) by (auto simp: linked_def alive_sock)
  have "conn_step C (w_conn w) (w_conn v)" using reported [OF sc run] f(5) by simp
  moreover have "linked v"
    using hs(2) f(3-6) run a(1) wired_hs_disjoint(2) [OF hs(1) a(1)]
    by (auto simp: linked_def close_callback_def length_remove1)
  ultimately show ?thesis using f(1,2) by (auto simp: matched_def intro: hsys.one)
qed

lemma closed_matched:
  assumes hs: "wired_hs w" "linked w" and h: "w_sock w \<in> set (y_closes (w_hsys w))"
    and none: "\<forall>q \<in> set (y_reqs (w_hsys w)). q_handle q \<noteq> w_sock w"
    and run: "on_hsys (on_close E iv (w_sock w)) w = (Inr (), u)" and d: "socket_closed (w_conn w) = (Inr (), d)"
  shows "matched E C S iv w (u\<lparr>w_conn := d\<rparr>)"
proof -
  let ?y = "w_hsys w" and ?h = "w_sock w" and ?f = "h_promise (y_objs (w_hsys w) ! w_sock w)"
  have y: "hok ?y" "own (y_st ?y)" and w: "wires ?y ?h (w_writes w) (w_closes w)" using hs(1) by (simp_all add: wired_hs_def)
  obtain z where z: "on_close E iv ?h ?y = (Inr (), z)" and u: "u = w\<lparr>w_hsys := z\<rparr>"
    using run by (auto simp: on_hsys_def split: prod.splits)
  obtain t where t: "resolver_resolve_future E (RValue (iv ?h)) ?f (y_st ?y) = (Inr (), t)" and zc: "z = closed_hst E iv ?h ?y"
    using on_close_cases [OF y(1) h z] .
  have st: "hstep E S iv ?y z" for S by (rule h_on_close [OF h none z])
  have zo: "hok z" "own (y_st z)" using hstep_own [OF _ st] y by blast+
  have val: "f_resolver (futs (y_st z) ! ?f) = Some (RValue (iv ?h))" using hok_closed(2) [where iv = iv, OF y(1) h none t] by (simp add: zc)
  have g: "grows (y_st ?y) (y_st z)" by (rule hstep_grows [OF st y])
  have x: "execd (y_st z) = execd (y_st ?y)" by (simp add: zc closed_hst_def Let_def settle_def execd_def set_resolver_def)
  have n: "set (execd (y_st ?y)) \<inter> set (w_writes w @ w_closes w) = {}" using w by (auto simp: wires_def waiting_def)
  have obj: "\<not> h_data (y_objs z ! ?h)" using closing_handle(1) [OF y(1) h] by (simp add: zc closed_hst_def Let_def)
  have "wires ?y ?h (w_writes w) []" using w by (auto simp: wires_def)
  then have ws: "wires z ?h (w_writes w) []"
    by (rule wires_grows [OF _ g]) (use n x hstep_objs [OF st y(1)] hstep_requests [OF st y(1)] in auto)
  have al: "h_data (y_objs ?y ! ?h)" by (rule closing_handle(2) [OF y(1) h])
  have "\<exists>f. waiting close_fn f a (y_st z) \<and> (\<exists>v. f_resolver (futs (y_st z) ! f) = Some (RValue v))"
    if a: "a \<in> set (w_closes w)" for a
  proof -
    have "waiting close_fn ?f a (y_st ?y)" using wiresD(4) [OF w a] al by auto
    from waiting_grows [OF g this] n x a val show ?thesis by auto
  qed
  with ws obj wiresD(2) [OF w] have "wires z ?h (w_writes w) (w_closes w)" by (simp add: wires_def)
  with zo have v: "wired_hs (u\<lparr>w_conn := d\<rparr>)" by (simp add: wired_hs_def u)
  have so: "sock_of (u\<lparr>w_conn := d\<rparr>) = SockClosed" using obj by (simp add: sock_of_def alive_def u)
  have "c_socket (w_conn w) = SockClosing" using hs(2) wired_hs_sock(2) [OF hs(1) h] by (simp add: linked_def)
  from closed [OF this d] have "conn_step C (w_conn w) d" .
  moreover have "linked (u\<lparr>w_conn := d\<rparr>)" using hs(2) d so by (auto simp: linked_def u socket_closed_def)
  ultimately show ?thesis using v st [of S] by (auto simp: matched_def u intro: hsys.one)
qed

lemma other_matched:
  assumes hs: "wired_hs w" "linked w" and st: "hstep E S iv (w_hsys w) z"
    and o: "y_objs z ! w_sock w = y_objs (w_hsys w) ! w_sock w"
    and x: "set (execd (y_st z)) \<inter> set (w_writes w @ w_closes w) = {}"
  shows "matched E C S iv w (w\<lparr>w_hsys := z\<rparr>)"
proof -
  have y: "hok (w_hsys w)" "own (y_st (w_hsys w))" and w: "wires (w_hsys w) (w_sock w) (w_writes w) (w_closes w)"
    using hs(1) by (simp_all add: wired_hs_def)
  have "wires z (w_sock w) (w_writes w) (w_closes w)"
    by (rule wires_grows [OF w hstep_grows [OF st y] x])
      (use o hstep_objs [OF st y(1)] hstep_requests [OF st y(1)] in auto)
  then have "wired_hs (w\<lparr>w_hsys := z\<rparr>)" using hstep_own [OF _ st] y by (simp add: wired_hs_def)
  moreover have "sock_of (w\<lparr>w_hsys := z\<rparr>) = sock_of w" by (simp add: sock_of_def alive_def o)
  ultimately show ?thesis using hs(2) st by (auto simp: matched_def linked_def intro: hsys.one)
qed

lemma wired_matched:
  assumes st: "wired_step E C S iv w v" and hs: "wired_hs w" "linked w" and ok: "conn_ok (w_conn w)"
  shows "matched E C S iv w v"
  using st
proof cases
  case (w_read code ev)
  have c: "c_reading (w_conn w)" "c_socket (w_conn w) = SockOpen"
    using hs wired_hs_sock(1) [OF hs(1)] w_read(3) by (simp_all add: linked_def)
  have "asked (w_conn w) d" if "on_read C ev (w_conn w) = (Inr (), d)" for d
    using keepsD [OF asking.reads [of "w_conn w" C ev] _ that] ok by simp
  then show ?thesis by (rule reacts_matched [OF hs w_read(1,4,5) _ conn_step.read [OF c]])
next
  case (w_turn i code)
  have "asked (w_conn w) d" if "chain_turn C i (w_conn w) = (Inr (), d)" for d
    using keepsD [OF asking.turns [of "w_conn w" C i] _ that] ok by simp
  then show ?thesis by (rule reacts_matched [OF hs w_turn(1,4,5) _ conn_step.turn [OF w_turn(2,3)]])
next
  case (w_close code)
  have "asked (w_conn w) d" if "close (w_conn w) = (Inr (), d)" for d
    using asked_close [of "w_conn w" "w_conn w"] that by simp
  then show ?thesis by (rule reacts_matched [OF hs w_close _ close_called])
next
  case (w_written a code u)
  then show ?thesis by (intro written_matched(1) [OF hs])
next
  case (w_closed u d)
  then show ?thesis using closed_matched [OF hs] by blast
next
  case (w_reported a d)
  then show ?thesis by (intro reported_matched [OF hs])
next
  case (w_other z)
  then show ?thesis using other_matched [OF hs] by blast
qed

end
