(* ===== verification/WiredProps.thy ===== *)
theory WiredProps
  imports Wired
begin

text \<open>
  What a connection on its socket guarantees: its steps are steps of the connection of
  \<open>Connection\<close> and of the handles of \<open>Handles\<close>, and an answer that was started is completed
  whenever libuv completes the write and the loop runs.
\<close>

section \<open>The invariant\<close>

definition wired_ok :: "'v env \<Rightarrow> 'p cenv \<Rightarrow> (int \<Rightarrow> string) \<Rightarrow> (nat \<Rightarrow> 'v payload) \<Rightarrow> ('v, 'p) wired \<Rightarrow> bool" where
  "wired_ok E C S iv w \<longleftrightarrow> hreach E S iv (w_hsys w) \<and> conn_reach C (w_conn w) \<and> wired_hs w \<and> linked w"

lemma wired_ok_step:
  assumes w: "wired_ok E C S iv w" and st: "wired_step E C S iv w v"
  shows "wired_ok E C S iv v" "matched E C S iv w v"
proof -
  have "conn_ok (w_conn w)" using w conns.always by (auto simp: wired_ok_def)
  then show m: "matched E C S iv w v" using wired_matched [OF st] w by (simp add: wired_ok_def)
  have "conn_reach C (w_conn v)" using w m conns.more by (auto simp: wired_ok_def matched_def)
  moreover have "hreach E S iv (w_hsys v)" using w m hsys.go_on by (auto simp: wired_ok_def matched_def)
  ultimately show "wired_ok E C S iv v" using m by (simp add: wired_ok_def matched_def)
qed

lemma accepted_new:
  "accepted c \<Longrightarrow> c_reading c \<and> c_socket c = SockOpen \<and> c_pend c = 0 \<and> c_closes c = 0"
  by (auto simp: accepted_def parse_connection_def ServerConnection_def thenM_def bindM_def
      getRequest_def retM_def assertM_def modM_def)

lemma wired_ok_start:
  assumes "wired_start E S iv w"
  shows "wired_ok E C S iv w"
proof -
  have s: "hreach E S iv (w_hsys w)" "accepted (w_conn w)" "w_sock w < length (y_objs (w_hsys w))"
      "\<not> h_closing (y_objs (w_hsys w) ! w_sock w)" "w_writes w = []" "w_closes w = []"
    using assms by (simp_all add: wired_start_def)
  have "hok (w_hsys w) \<and> own (y_st (w_hsys w))" by (rule owned_sys.always [OF s(1)])
  then have hs: "wired_hs w" using s by (simp add: wired_hs_def wires_def)
  have "linked w" using accepted_new [OF s(2)] s(5,6) wired_hs_sock(1) [OF hs s(4)] by (simp add: linked_def)
  with hs s(1) conns.first [OF s(2)] show ?thesis by (simp add: wired_ok_def)
qed

interpretation wired: invariant "wired_start E S iv" "wired_step E C S iv" "wired_ok E C S iv"
  for E :: "'v env" and C :: "'p cenv" and S iv
  by unfold_locales (auto intro: wired_ok_start wired_ok_step(1))

section \<open>Turns that return\<close>

text \<open>The continuation of \<open>end\<close> makes no calls on futures but those of the connection; it returns, with the future of
the close or with another, or throws a \<open>FutureError\<close>.\<close>

definition end_returns :: "'v env \<Rightarrow> bool" where
  "end_returns E \<longleftrightarrow> (\<forall>x s. fst (user E end_fn x s) = [] \<and> (case snd (user E end_fn x s) of
     Return v \<Rightarrow> True | ReturnFuture g \<Rightarrow> g < length (futs s) | Throw e \<Rightarrow> \<exists>m. e = FutureExn m))"

lemma forward_returns:
  assumes i: "inv R s" and g: "g < length (futs s)" and f: "f < length (futs s)" and uv: "uv_ok E"
  shows "\<exists>t. forward E g f s = (Inr (), t)"
proof -
  let ?s = "attach_st KThen g (FwdResolve f) s"
  have fn: "fn_ok (length (futs s)) (length (acts s)) (FwdResolve f)" using f by simp
  note p = attach_st_props [OF i g fn, where k = KThen]
  have h: "length (futs s) < length (futs ?s)" and f2: "f < length (futs ?s)" using p(3) f by auto
  then have fn2: "fn_ok (length (futs ?s)) (length (acts ?s)) (FwdReject f)" by simp
  have "attach_action E KThen g (FwdResolve f) s = (Inr (length (futs s)), ?s)"
    using attach_run(2) [OF i g fn _ uv] by simp
  moreover obtain y t where "attach_action E KError (length (futs s)) (FwdReject f) ?s = (Inr y, t)"
    using attach_run(2) [OF p(1) h fn2 _ uv, of KError] by auto
  ultimately show ?thesis by (simp add: forward_def future_then_def future_error_def monad_defs)
qed

lemma end_turn_returns:
  assumes i: "inv [] s" and o: "own s" and a: "a \<in> set (pending s)" and on: "isOnEventLoopThread s"
    and uv: "uv_ok E" and er: "end_returns E" and w: "waiting end_fn f a s"
  shows "\<exists>t. Async E a s = (Inr (), t)"
proof -
  let ?s = "log_exec a s" and ?f = "a_future (acts s ! a)"
  have r: "running a ?s" by (rule running_log_exec [OF i o a on])
  have ri: "inv [a] ?s" and fl: "?f < length (futs ?s)" using r by (simp_all add: running_def reserved_def)
  have fn: "a_fn (acts ?s ! a) = UserFn end_fn" "a_kind (acts ?s ! a) = KThen" using w by (simp_all add: waiting_def)
  obtain x where x: "a_resolver (acts ?s ! a) = Some x" using inv_pending(2) [OF i a] by (auto simp: active_def)
  note own_ok = settle_own_simps [OF r uv]
  have "\<exists>u. executeAsync E a ?s = (Inr (), u)"
  proof (cases x)
    case (RError e)
    then show ?thesis using x fn own_ok by (simp add: executeAsync_def rejectCb_def)
  next
    case (RValue v)
    obtain q where q: "user E end_fn (ArgValue v) ?s = ([], q)"
      and c: "case q of Return v \<Rightarrow> True | ReturnFuture g \<Rightarrow> g < length (futs ?s) | Throw e \<Rightarrow> \<exists>m. e = FutureExn m"
      using er unfolding end_returns_def by (metis prod.collapse)
    have "\<exists>u. callFn E a (ArgValue v) ?s = (Inr (), u)"
    proof (cases q)
      case (ReturnFuture g)
      then obtain t where "forward E g ?f ?s = (Inr (), t)" using forward_returns [OF ri _ fl uv] c by auto
      then show ?thesis using q fn c ReturnFuture
        by (simp add: callFn_eq Let_def catchFuture_def monad_defs lift_outcome_def on_future_def)
    qed (use q fn own_ok c in \<open>auto simp: callFn_eq Let_def catchFuture_def monad_defs lift_outcome_def\<close>)
    then show ?thesis using x fn RValue by (simp add: executeAsync_def resolveCb_def)
  qed
  then show ?thesis using Async_eq [OF i a] by blast
qed

lemma close_returns:
  assumes hs: "wired_hs w" and on: "on_loop w" and uv: "uv_ok E"
  shows "\<exists>v. ask E res CallClose w = (Inr (), v)"
proof -
  let ?y = "w_hsys w"
  have y: "hok ?y" "w_sock w < length (y_objs ?y)" "isOnEventLoopThread (y_st ?y)"
    using hs on by (simp_all add: wired_hs_def wires_def on_loop_def)
  obtain f u where u: "Handle_close (w_sock w) ?y = (Inr f, u)" using Handle_close_eq [OF y] by (auto split: if_splits)
  have "inv [] (y_st u)" "f < length (futs (y_st u))" using hok_close [OF y(1,2) u] by (simp_all add: hok_def owns_def)
  from attach_run(2) [OF this, of "UserFn close_fn" E KThen] uv
  obtain g t where "future_then E f (UserFn close_fn) (y_st u) = (Inr g, t)" by (auto simp: future_then_def)
  then show ?thesis using u by (auto simp: on_hsys_def sock_close_def attach_fn_def on_fut_def monad_defs)
qed

lemma write_returns:
  assumes hs: "wired_hs w" and on: "on_loop w" and uv: "uv_ok E"
  shows "\<exists>v. ask E 0 (CallWrite t) w = (Inr (), v)"
proof -
  let ?y = "w_hsys w" and ?s = "add_future False (y_st (w_hsys w))"
  have y: "hok ?y" "w_sock w < length (y_objs ?y)" using hs by (simp_all add: wired_hs_def wires_def)
  then have p: "h_ptr (y_objs ?y ! w_sock w)" and i: "inv [] (y_st ?y)"
    by (simp_all add: hok_def struct_ok_def handle_ok_def owns_def)
  have "length (futs (y_st ?y)) < length (futs ?s)" by simp
  from attach_run(2) [OF inv_add_future [OF i] this, of "UserFn end_fn" E KThen] uv
  obtain g u where "future_then E (length (futs (y_st ?y))) (UserFn end_fn) ?s = (Inr g, u)" by (auto simp: future_then_def)
  then show ?thesis using p
    by (simp add: on_hsys_def sock_write_def Stream_write_def request_defs attach_fn_def)
qed

lemma write_done_reacts:
  assumes hs: "wired_hs w" and on: "on_loop w" and uv: "uv_ok E" and d: "write_done e (w_conn w) = (Inr (), d)"
  shows "\<exists>u. reacts E code (write_done e) w = (Inr (), u)"
proof -
  have "new_calls (w_conn w) d = [] \<or> new_calls (w_conn w) d = [CallClose]"
    using d by (auto simp: new_calls_def write_done_def end_sent_def close_def modM_def Let_def
        split: option.splits if_splits)
  then show ?thesis
  proof
    assume n: "new_calls (w_conn w) d = [CallClose]"
    have "wired_hs (w\<lparr>w_conn := d\<rparr>)" "on_loop (w\<lparr>w_conn := d\<rparr>)" using hs on by (simp_all add: wired_hs_def on_loop_def)
    from close_returns [OF this uv, of "code 0"] obtain v where "ask E (code 0) CallClose (w\<lparr>w_conn := d\<rparr>) = (Inr (), v)" ..
    then show ?thesis using d n by (simp add: reacts_def monad_defs)
  qed (use d in \<open>simp add: reacts_def monad_defs\<close>)
qed

text \<open>The request of a write can be completed; its action waits in the queue then.\<close>

lemma write_settles:
  assumes w: "wired_ok E C S iv w" and a: "a \<in> set (w_writes w)" and l: "in_loop w" and uv: "uv_ok E"
  shows "\<exists>u. (wired_step E C S iv)\<^sup>*\<^sup>* w u \<and> w_conn u = w_conn w \<and> w_writes u = w_writes w \<and>
    in_loop u \<and> waits_for a u"
proof -
  let ?y = "w_hsys w"
  have hs: "wired_hs w" and r: "hreach E S iv ?y" using w by (simp_all add: wired_ok_def)
  have y: "hok ?y" "own (y_st ?y)" and ws: "wires ?y (w_sock w) (w_writes w) (w_closes w)"
    using hs by (simp_all add: wired_hs_def)
  have i: "inv [] (y_st ?y)" using y(1) by (simp add: hok_def owns_def)
  obtain f where f: "waiting end_fn f a (y_st ?y)"
      "f_resolver (futs (y_st ?y) ! f) = None \<longrightarrow> write_open ?y (w_sock w) f"
    using wiresD(3) [OF ws a] by (elim exE conjE) (rule that)
  show ?thesis
  proof (cases "f_resolver (futs (y_st ?y) ! f)")
    case (Some x)
    then have "waits_for a w" using waiting_pending(1) [OF i f(1)] by (simp add: waits_for_def)
    with l show ?thesis by blast
  next
    case None
    then obtain q where q: "q \<in> set (y_reqs ?y)" "q_promise q = f" "q_kind q = ReqWrite"
      using f(2) by (auto simp: write_open_def)
    have on: "isOnEventLoopThread (y_st ?y)" using l by (simp add: in_loop_def isOnEventLoopThread_def)
    have d: "h_data (y_objs ?y ! q_handle q)" and fr: "fresh_at (q_promise q) (y_st ?y)"
      using y(1) q(1) by (auto simp: hok_def struct_ok_def owns_def owned_def)
    let ?r = "request_result S (q_kind q) 0"
    let ?t = "settle (q_promise q) ?r (y_st ?y)"
    have run: "resolver_resolve_future E ?r (q_promise q) (y_st ?y) = (Inr (), ?t)"
      by (rule resolve_future_fresh [OF i fr uv on])
    let ?z = "completed q ?t ?y"
    have c: "complete E S q 0 ?y = (Inr (), ?z)" using complete_eq [OF d, of E S 0] run by simp
    have st: "hstep E S iv ?y ?z" by (rule h_complete [OF q(1) c])
    have e: "ext (y_st ?y) (y_st ?z)"
      using ext_settle [OF i fresh_atD(1,3) [OF fr]] by (simp add: completed_def upd_handle_def)
    let ?u = "w\<lparr>w_hsys := ?z\<rparr>"
    have "wired_step E C S iv w ?u"
    proof (rule w_other [OF st])
      show "y_objs ?z ! w_sock w = y_objs ?y ! w_sock w" using q(3) by (simp add: completed_def)
      show "set (execd (y_st ?z)) \<inter> set (w_writes w @ w_closes w) = {}"
        using ws e by (auto simp: wires_def waiting_def ext_def quiet_def execd_def)
    qed
    moreover have "in_loop ?u" using l ext_loop [OF e] by (simp add: in_loop_def)
    moreover have "waits_for a ?u"
    proof -
      have "inv [] (y_st ?z)" using hstep_own [OF _ st] y by (auto simp: hok_def owns_def)
      from waiting_pending(1) [OF this waiting_ext [OF e f(1)]] hok_completed(2) [OF y(1) q(1) run] q(2)
      show ?thesis by (simp add: waits_for_def)
    qed
    ultimately show ?thesis by (intro exI [of _ ?u]) (auto intro: wired.one)
  qed
qed

section \<open>Properties\<close>

text \<open>C7. A connection on its socket refines the connection of \<open>Connection\<close>: every step is a step of
the handles and of their requests, and at most one step of the connection, so what is proved of
the connection for any order of reads, completed writes and closes holds of the orders that libuv
and the loop allow. The connection takes its socket for closed exactly when the handle is; a write
of the connection is unanswered exactly when an action attached to its future has not run, and so
for a close before the handle was closed.\<close>

theorem wired_refines:
  assumes "wired_reach E C S iv w" and "wired_step E C S iv w v"
  shows "(w_conn v = w_conn w \<or> conn_step C (w_conn w) (w_conn v)) \<and> hsteps E S iv (w_hsys w) (w_hsys v) \<and>
    conn_reach C (w_conn v) \<and> hreach E S iv (w_hsys v) \<and> c_socket (w_conn v) = sock_of v \<and>
    c_pend (w_conn v) = length (w_writes v) \<and> c_closes (w_conn v) = length (w_closes v) \<and>
    (\<forall>a \<in> set (w_writes v). \<exists>f. waiting end_fn f a (y_st (w_hsys v))) \<and>
    (\<forall>a \<in> set (w_closes v). \<exists>f. waiting close_fn f a (y_st (w_hsys v)))"
proof -
  note v = wired_ok_step [OF wired.always [OF assms(1)] assms(2)]
  then have "wires (w_hsys v) (w_sock v) (w_writes v) (w_closes v)" by (simp add: matched_def wired_hs_def)
  with v show ?thesis unfolding wired_ok_def matched_def linked_def wires_def by blast
qed

text \<open>C10. An answer that a connection has started to write is completed: from every reachable state with
a running loop, if libuv's asynchronous handles work and the continuation of \<open>end\<close> returns, libuv and the
loop can go on to a state in which the write is answered, its callback has run, and the connection
has done what it does when its response is sent or has failed.\<close>

theorem wired_answer_completes:
  assumes "wired_reach E C S iv w" and "0 < c_pend (w_conn w)" and "in_loop w" and "uv_ok E" and "end_returns E"
  shows "\<exists>v e. (wired_step E C S iv)\<^sup>*\<^sup>* w v \<and> write_done e (w_conn w) = (Inr (), w_conn v) \<and>
    c_pend (w_conn v) = 0 \<and> w_writes v = []"
proof -
  have w: "wired_ok E C S iv w" by (rule wired.always [OF assms(1)])
  obtain a where a: "a \<in> set (w_writes w)" using w assms(2) by (cases "w_writes w") (auto simp: wired_ok_def linked_def)
  obtain u where u: "(wired_step E C S iv)\<^sup>*\<^sup>* w u" "w_conn u = w_conn w" "w_writes u = w_writes w" "in_loop u" "waits_for a u"
    using write_settles [OF w a assms(3,4)] by blast
  have ok: "wired_ok E C S iv u" by (rule wired.runs [OF u(1) w])
  then have hs: "wired_hs u" "linked u" by (simp_all add: wired_ok_def)
  have on: "on_loop u" using u(4) by (simp add: in_loop_def on_loop_def isOnEventLoopThread_def)
  let ?e = "failure a (y_st (w_hsys u))" and ?code = "\<lambda>n. 1 :: int"
  have "conn_reach C (w_conn w)" using w by (simp add: wired_ok_def)
  from completion_finds_response [OF this assms(2), of ?e] obtain d where
    d: "write_done ?e (w_conn u) = (Inr (), d)" "c_pend d = 0" by (auto simp: u(2))
  obtain b where b: "reacts E ?code (write_done ?e) u = (Inr (), b)" using write_done_reacts [OF hs(1) on assms(4) d(1)] ..
  have code: "codes_ok ?code u" by (simp add: codes_ok_def)
  have asks: "asked ((w_conn u)\<lparr>c_pend := c_pend (w_conn u) - 1\<rparr>) d" if "write_done ?e (w_conn u) = (Inr (), d)" for d
    by (rule asked_write_done [OF that])
  note r = reacts_linked [OF hs on code b asks]
  have bh: "hok (w_hsys b)" "own (y_st (w_hsys b))" "wires (w_hsys b) (w_sock b) (w_writes b) (w_closes b)"
    using r(2) by (simp_all add: wired_hs_def)
  have ab: "a \<in> set (w_writes b)" using r(6) a u(3) by auto
  obtain f where f: "waiting end_fn f a (y_st (w_hsys b))" using wiresD(3) [OF bh(3) ab] by (elim exE conjE) (rule that)
  have bp: "a \<in> set (pending (y_st (w_hsys b)))" using r(4) u(5) by (auto simp: ext_def quiet_def waits_for_def)
  have bi: "inv [] (y_st (w_hsys b))" using bh(1) by (simp add: hok_def owns_def)
  have bon: "isOnEventLoopThread (y_st (w_hsys b))" using isOn_ext [OF r(4)] on by (simp add: on_loop_def)
  obtain t where t: "Async E a (y_st (w_hsys b)) = (Inr (), t)"
    using end_turn_returns [OF bi bh(2) bp bon assms(4,5) f] ..
  then have fire: "fires E a (b\<lparr>w_writes := remove1 a (w_writes b)\<rparr>) =
      (Inr (), b\<lparr>w_writes := remove1 a (w_writes b), w_hsys := (w_hsys b)\<lparr>y_st := t\<rparr>\<rparr>)"
    by (simp add: fires_def on_hsys_def on_fut_def)
  let ?v = "b\<lparr>w_writes := remove1 a (w_writes b), w_hsys := (w_hsys b)\<lparr>y_st := t\<rparr>\<rparr>"
  have au: "a \<in> set (w_writes u)" using a u(3) by simp
  have st: "wired_step E C S iv u ?v" by (rule w_written [OF u(4) au u(5) code b fire])
  note m = written_matched(1) [where C = C and S = S and iv = iv, OF hs u(4) au u(5) code b fire]
    and wd = written_matched(2) [OF hs u(4) au u(5) code b fire]
  have "w_conn ?v = d" using wd d(1) by simp
  with m d(2) have "c_pend (w_conn ?v) = 0" "w_writes ?v = []" by (auto simp: matched_def linked_def)
  moreover have "(wired_step E C S iv)\<^sup>*\<^sup>* w ?v" using u(1) st by (rule rtranclp.rtrancl_into_rtrancl)
  ultimately show ?thesis using wd u(2) by metis
qed

text \<open>A connection that answers its first request.\<close>

definition wired_demo :: "(nat, unit) wired" where
  "wired_demo = \<lparr>w_hsys = (snd (readStart 0 0 tcp1))\<lparr>y_st := run_enter 1 (y_st tcp1)\<rparr>, w_conn = demo_accepted,
     w_sock = 0, w_writes = [], w_closes = []\<rparr>"

abbreviation demo_hi :: handler where
  "demo_hi \<equiv> demo_handler [AEnd ''hi'']"

lemma wired_demo_start: "wired_start demo S iv wired_demo" "in_loop wired_demo"
proof -
  let ?z = "snd (readStart 0 0 tcp1)"
  have z: "readStart 0 0 tcp1 = (Inr True, ?z)" "y_st ?z = y_st tcp1" "\<not> loop_started (y_st tcp1)"
    by (simp_all add: readStart_def tcp_defs)
  have "hreach demo S iv ?z" by (rule hsys.more [OF tcp_reach(1) h_read [OF _ z(1)]]) (simp add: tcp_eq)
  moreover have "step demo (y_st ?z) (run_enter 1 (y_st tcp1))" using step_enter z(2,3) by metis
  ultimately have "hreach demo S iv (w_hsys wired_demo)"
    unfolding wired_demo_def by (auto intro: hsys.more h_lib)
  moreover have "length (y_objs ?z) = 1" "h_reading (y_objs ?z ! 0)" "\<not> h_closing (y_objs ?z ! 0)"
    by (simp_all add: readStart_def tcp_defs)
  ultimately show "wired_start demo S iv wired_demo"
    using demo_start by (simp add: wired_start_def wired_demo_def)
  show "in_loop wired_demo" by (simp add: in_loop_def wired_demo_def run_enter_def)
qed

lemma wired_demo_read: "wired_step demo (demo_env demo_hi) S iv wired_demo (wired_demo\<lparr>w_conn := demo_called demo_hi\<rparr>)"
proof (rule w_read [where code = "\<lambda>n. 1"])
  show "h_reading (y_objs (w_hsys wired_demo) ! w_sock wired_demo)"
    "\<not> h_closing (y_objs (w_hsys wired_demo) ! w_sock wired_demo)"
    using wired_demo_start(1) [of "\<lambda>c. []" Val] by (simp_all add: wired_start_def)
  show "on_loop wired_demo" using wired_demo_start(2) by (simp add: in_loop_def on_loop_def isOnEventLoopThread_def)
  have "on_read (demo_env demo_hi) (ReadData ''x'') (w_conn wired_demo) = (Inr (), demo_called demo_hi)"
    using demo_on_read [of demo_hi] by (simp add: wired_demo_def demo_handler_def)
  moreover have "new_calls (w_conn wired_demo) (demo_called demo_hi) = []"
    by (simp add: new_calls_def wired_demo_def demo_called_def demo_accepted_def ServerConnection_def)
  ultimately show "reacts demo (\<lambda>n. 1) (on_read (demo_env demo_hi) (ReadData ''x'')) wired_demo =
      (Inr (), wired_demo\<lparr>w_conn := demo_called demo_hi\<rparr>)"
    by (simp add: reacts_def monad_defs)
qed (simp add: codes_ok_def)

lemma wired_demo_answers:
  "\<exists>w. wired_reach demo (demo_env demo_hi) S iv w \<and> in_loop w \<and> c_pend (w_conn w) = 1"
proof -
  let ?C = "demo_env demo_hi" and ?w = "wired_demo\<lparr>w_conn := demo_called demo_hi\<rparr>"
  have r: "wired_reach demo ?C S iv ?w" by (rule wired.more [OF wired.first [OF wired_demo_start(1)] wired_demo_read])
  then have w: "wired_ok demo ?C S iv ?w" by (rule wired.always)
  then have hs: "wired_hs ?w" "linked ?w" and ok: "conn_ok (w_conn ?w)"
    using conns.always by (auto simp: wired_ok_def)
  have on: "on_loop ?w" "in_loop ?w" using wired_demo_start(2) by (simp_all add: in_loop_def on_loop_def isOnEventLoopThread_def)
  obtain c t where c: "chain_turn ?C 0 (w_conn ?w) = (Inr (), c)" "c_pend c = 1" "c_calls c = [CallWrite t]"
    using demo_turn [of "[]"] by auto
  have n: "new_calls (w_conn ?w) c = [CallWrite t]"
    using c(3) by (simp add: new_calls_def demo_called_def demo_accepted_def ServerConnection_def)
  have hc: "wired_hs (?w\<lparr>w_conn := c\<rparr>)" "on_loop (?w\<lparr>w_conn := c\<rparr>)" using hs on by (simp_all add: wired_hs_def on_loop_def)
  obtain v where v: "ask demo 0 (CallWrite t) (?w\<lparr>w_conn := c\<rparr>) = (Inr (), v)" using write_returns [OF hc uv_ok_demo] ..
  have run: "reacts demo (\<lambda>n. 0) (chain_turn ?C 0) ?w = (Inr (), v)" using c(1) n v by (simp add: reacts_def monad_defs)
  have code: "codes_ok (\<lambda>n. 0) ?w"
    using accepted_new [OF demo_start] hs(2)
    by (simp add: codes_ok_def alive_sock linked_def demo_called_def)
  have "asked (w_conn ?w) d" if "chain_turn ?C 0 (w_conn ?w) = (Inr (), d)" for d
    using keepsD [OF asking.turns [of "w_conn ?w" ?C 0] _ that] ok by simp
  then have "asked ((w_conn ?w)\<lparr>c_pend := c_pend (w_conn ?w)\<rparr>) d" if "chain_turn ?C 0 (w_conn ?w) = (Inr (), d)" for d
    using that by simp
  note q = reacts_linked [OF hs on(1) code run this]
  have st: "wired_step demo ?C S iv ?w v"
    by (rule w_turn [OF on(1) _ _ code run]) (simp_all add: demo_called_def demo_accepted_def ServerConnection_def)
  have "c_pend (w_conn v) = 1" using q(1) c(1,2) by simp
  moreover have "in_loop v" using on(2) ext_loop [OF q(4)] by (simp add: in_loop_def)
  ultimately show ?thesis using wired.more [OF r st] by blast
qed

lemma end_returns_demo: "end_returns demo"
  by (auto simp: end_returns_def demo_def split: arg.split payload.split)

theorem wired_refines_witness:
  "conn_reach (demo_env demo_hi) (demo_called demo_hi) \<and>
   c_socket (demo_called demo_hi) = sock_of (wired_demo\<lparr>w_conn := demo_called demo_hi\<rparr>)"
  using wired_refines [OF wired.first [OF wired_demo_start(1)] wired_demo_read] by simp

theorem wired_answer_completes_witness:
  "\<exists>w v e. (wired_step demo (demo_env demo_hi) (\<lambda>c. []) Val)\<^sup>*\<^sup>* w v \<and> c_pend (w_conn w) = 1 \<and>
     write_done e (w_conn w) = (Inr (), w_conn v) \<and> c_pend (w_conn v) = 0"
proof -
  obtain w where w: "wired_reach demo (demo_env demo_hi) (\<lambda>c. []) Val w" "in_loop w" "c_pend (w_conn w) = 1"
    using wired_demo_answers by blast
  have "0 < c_pend (w_conn w)" using w(3) by simp
  from wired_answer_completes [OF w(1) this w(2) uv_ok_demo end_returns_demo] w(3) show ?thesis by blast
qed

end
