(* ===== verification/ClientWire.thy ===== *)
theory ClientWire
  imports WiredProps Exchange
begin

text \<open>
  A client on its socket: \<open>ClientRequest::end\<close> makes a \<open>Tcp\<close> handle, connects it and attaches two
  actions, one that writes the request when the connection is made and one that starts to read
  when that has run; libuv answers the connect, and the loop runs the actions.
\<close>

section \<open>State\<close>

text \<open>\<open>k_sock\<close>: the handle of \<open>_socket\<close>; \<open>k_conn\<close> and \<open>k_sent\<close>: the action that waits for the connection, with
the function of \<open>sendData\<close>, and the one that waits for it, with the function of \<open>end\<close>, until they have run.\<close>

record ('v, 'p) cwired =
  k_hsys :: "'v hsys"
  k_client :: "'p client"
  k_sock :: nat
  k_conn :: "aid option"
  k_sent :: "aid option"

definition conn_fn :: nat where
  "conn_fn = 2"

definition sent_fn :: nat where
  "sent_fn = 3"

text \<open>What the functions do with futures: that of \<open>sendData\<close> returns nothing and drops the future of the write,
that of \<open>end\<close> makes a promise and returns its future.\<close>

definition client_fns :: "'v env \<Rightarrow> bool" where
  "client_fns E \<longleftrightarrow> (\<forall>x s. user E conn_fn x s = ([], Return Void)) \<and>
     (\<forall>x s. user E sent_fn x s = ([NewPromise], ReturnFuture (length (futs s))))"

definition on_k :: "('v hsys, 'a) M \<Rightarrow> (('v, 'p) cwired, 'a) M" where
  "on_k m k = (case m (k_hsys k) of (r, y) \<Rightarrow> (r, k\<lparr>k_hsys := y\<rparr>))"

section \<open>Operations\<close>

text \<open>\<open>then\<close> with a function: the action and the future that it settles.\<close>

definition attach_future :: "'v env \<Rightarrow> fid \<Rightarrow> nat \<Rightarrow> ('v hsys, aid \<times> fid) M" where
  "attach_future E f n = (\<lambda>y. bindM (on_fut (future_then E f (UserFn n))) (\<lambda>g. retM (length (acts (y_st y)), g)) y)"

text \<open>\<open>sendData\<close> without a connection, and the \<open>then\<close> of \<open>end\<close>. \<open>version\<close>, \<open>addr\<close> and \<open>res\<close> are those of
\<open>Tcp_connect\<close>.\<close>

definition connect_then :: "'v env \<Rightarrow> nat \<Rightarrow> int \<Rightarrow> int \<Rightarrow> int \<Rightarrow> ('v hsys, aid \<times> aid) M" where
  "connect_then E h version addr res =
     bindM (Tcp_connect E h version addr res) (\<lambda>f.
     bindM (attach_future E f conn_fn) (\<lambda>(a, g).
     bindM (attach_fn E g sent_fn) (\<lambda>b. retM (a, b))))"

definition request_end :: "'v env \<Rightarrow> 'p clenv \<Rightarrow> string \<Rightarrow> int \<Rightarrow> int \<Rightarrow> int \<Rightarrow> (('v, 'p) cwired, unit) M" where
  "request_end E L data version addr res k =
     (case client_end L data (k_client k) of (r, c) \<Rightarrow>
        (if cl_socket (k_client k) then (r, k\<lparr>k_client := c\<rparr>)
         else bindM (on_k Tcp_Create) (\<lambda>h. thenM (modM (\<lambda>k. k\<lparr>k_sock := h\<rparr>))
           (case r of
              Inl e \<Rightarrow> throwM e
            | Inr _ \<Rightarrow> bindM (on_k (connect_then E h version addr res))
                (\<lambda>(a, b). modM (\<lambda>k. k\<lparr>k_conn := Some a, k_sent := Some b\<rparr>)))) (k\<lparr>k_client := c\<rparr>)))"

text \<open>The turn of the loop that runs the function of \<open>sendData\<close>, and the one of the function of \<open>end\<close>; a rejected
future runs neither function.\<close>

definition connected_turn :: "'v env \<Rightarrow> aid \<Rightarrow> int \<Rightarrow> (('v, 'p) cwired, unit) M" where
  "connected_turn E a res k =
     thenM (if failure a (y_st (k_hsys k)) = None
            then on_k (bindM (Stream_write E (k_sock k) res) (\<lambda>_. retM ())) else retM ())
    (thenM (modM (\<lambda>k. k\<lparr>k_conn := None\<rparr>)) (on_k (on_fut (Async E a)))) k"

definition sent_turn :: "'v env \<Rightarrow> aid \<Rightarrow> int \<Rightarrow> (('v, 'p) cwired, unit) M" where
  "sent_turn E b res k =
     thenM (if failure b (y_st (k_hsys k)) = None
            then thenM (on_k (bindM (readStart (k_sock k) res) (\<lambda>_. retM ())))
                   (modM (\<lambda>k. k\<lparr>k_client := snd (on_sent (k_client k))\<rparr>))
            else modM (\<lambda>k. k\<lparr>k_client := snd (on_connect_failed (k_client k))\<rparr>))
    (thenM (modM (\<lambda>k. k\<lparr>k_sent := None\<rparr>)) (on_k (on_fut (Async E b)))) k"

text \<open>The read callback; a client that is done stops reading and closes its socket.\<close>

definition release_socket :: "nat \<Rightarrow> int \<Rightarrow> ('v hsys, unit) M" where
  "release_socket h res = thenM (bindM (readStop h res) (\<lambda>_. retM ())) (bindM (Handle_close h) (\<lambda>_. retM ()))"

definition response_read :: "'p clenv \<Rightarrow> string option \<Rightarrow> int \<Rightarrow> int \<Rightarrow> (('v, 'p) cwired, unit) M" where
  "response_read L buf len res k = (case client_on_read L buf len (k_client k) of
     (Inl e, c) \<Rightarrow> (Inl e, k\<lparr>k_client := c\<rparr>)
   | (Inr _, c) \<Rightarrow> if cl_socket c then (Inr (), k\<lparr>k_client := c\<rparr>)
       else on_k (release_socket (k_sock k) res) (k\<lparr>k_client := c\<rparr>))"

section \<open>Steps\<close>

abbreviation k_st :: "('v, 'p) cwired \<Rightarrow> 'v st" where
  "k_st k \<equiv> y_st (k_hsys k)"

abbreviation k_obj :: "('v, 'p) cwired \<Rightarrow> handle" where
  "k_obj k \<equiv> y_objs (k_hsys k) ! k_sock k"

definition k_in_loop :: "('v, 'p) cwired \<Rightarrow> bool" where
  "k_in_loop k \<longleftrightarrow> loop_started (k_st k) \<and> cur_thread (k_st k) = loop_thread (k_st k)"

text \<open>All other steps of the program, the loop and libuv, among them the answer to the connect, neither close nor read
the socket, nor run the actions of the client.\<close>

inductive cwired_step ::
  "'v env \<Rightarrow> 'p clenv \<Rightarrow> (int \<Rightarrow> string) \<Rightarrow> (nat \<Rightarrow> 'v payload) \<Rightarrow> ('v, 'p) cwired \<Rightarrow> ('v, 'p) cwired \<Rightarrow> bool"
  for E L S iv where
  k_end: "isOnEventLoopThread (k_st k) \<Longrightarrow> request_end E L data version addr res k = (r, k') \<Longrightarrow> cwired_step E L S iv k k'"
| k_connected: "k_in_loop k \<Longrightarrow> k_conn k = Some a \<Longrightarrow> a \<in> set (pending (k_st k)) \<Longrightarrow>
    connected_turn E a res k = (Inr (), k') \<Longrightarrow> cwired_step E L S iv k k'"
| k_started: "k_in_loop k \<Longrightarrow> k_sent k = Some b \<Longrightarrow> b \<in> set (pending (k_st k)) \<Longrightarrow>
    sent_turn E b res k = (Inr (), k') \<Longrightarrow> cwired_step E L S iv k k'"
| k_read: "isOnEventLoopThread (k_st k) \<Longrightarrow> cl_socket (k_client k) \<Longrightarrow> h_reading (k_obj k) \<Longrightarrow> \<not> h_closing (k_obj k) \<Longrightarrow>
    response_read L buf len res k = (Inr (), k') \<Longrightarrow> cwired_step E L S iv k k'"
| k_other: "hstep E S iv (k_hsys k) z \<Longrightarrow>
    cl_socket (k_client k) \<Longrightarrow> h_closing (y_objs z ! k_sock k) = h_closing (k_obj k) \<Longrightarrow>
    h_reading (y_objs z ! k_sock k) = h_reading (k_obj k) \<Longrightarrow>
    set (execd (y_st z)) \<inter> (set_option (k_conn k) \<union> set_option (k_sent k)) = {} \<Longrightarrow>
    cwired_step E L S iv k (k\<lparr>k_hsys := z\<rparr>)"
| k_unrelated: "hstep E S iv (k_hsys k) z \<Longrightarrow> \<not> cl_socket (k_client k) \<Longrightarrow> cwired_step E L S iv k (k\<lparr>k_hsys := z\<rparr>)"

definition cwired_start :: "'v env \<Rightarrow> 'p clenv \<Rightarrow> (int \<Rightarrow> string) \<Rightarrow> (nat \<Rightarrow> 'v payload) \<Rightarrow> ('v, 'p) cwired \<Rightarrow> bool" where
  "cwired_start E L S iv k \<longleftrightarrow> uv_ok E \<and> client_fns E \<and> hreach E S iv (k_hsys k) \<and> client_start L (k_client k) \<and>
     k_conn k = None \<and> k_sent k = None"

abbreviation cwired_reach where
  "cwired_reach E L S iv \<equiv> reached (cwired_start E L S iv) (cwired_step E L S iv)"

section \<open>The actions of a client that waits\<close>

definition connect_open :: "'v hsys \<Rightarrow> nat \<Rightarrow> fid \<Rightarrow> bool" where
  "connect_open y h f \<longleftrightarrow> (\<exists>q \<in> set (y_reqs y). q_promise q = f \<and> q_handle q = h \<and> q_kind q = ReqConnect)"

text \<open>The second action waits for the future of the first; the first waits for a future that is settled or that
libuv has the request of.\<close>

definition awaits :: "'v hsys \<Rightarrow> nat \<Rightarrow> aid option \<Rightarrow> aid option \<Rightarrow> bool" where
  "awaits y h ca sb \<longleftrightarrow> (case sb of
     None \<Rightarrow> ca = None
   | Some b \<Rightarrow> \<exists>g. waiting sent_fn g b (y_st y) \<and> (case ca of
       None \<Rightarrow> f_resolver (futs (y_st y) ! g) \<noteq> None
     | Some a \<Rightarrow> a_future (acts (y_st y) ! a) = g \<and> (\<exists>f. waiting conn_fn f a (y_st y) \<and>
         (f_resolver (futs (y_st y) ! f) = None \<longrightarrow> connect_open y h f))))"

lemma awaitsD:
  assumes "awaits y h ca (Some b)"
  obtains g where "waiting sent_fn g b (y_st y)" "ca = None \<Longrightarrow> f_resolver (futs (y_st y) ! g) \<noteq> None"
    "\<And>a. ca = Some a \<Longrightarrow> a_future (acts (y_st y) ! a) = g \<and> (\<exists>f. waiting conn_fn f a (y_st y) \<and>
         (f_resolver (futs (y_st y) ! f) = None \<longrightarrow> connect_open y h f))"
  using assms by (cases ca) (auto simp: awaits_def)

lemma awaits_connE:
  assumes "awaits y h (Some a) sb"
  obtains b f where "sb = Some b" "waiting sent_fn (a_future (acts (y_st y) ! a)) b (y_st y)"
    "waiting conn_fn f a (y_st y)" "f_resolver (futs (y_st y) ! f) = None \<Longrightarrow> connect_open y h f"
  using assms by (cases sb) (fastforce simp: awaits_def)+

lemma awaits_grows:
  assumes w: "awaits y h ca sb" and g: "grows (y_st y) (y_st z)"
    and x: "set (execd (y_st z)) \<inter> (set_option ca \<union> set_option sb) = {}"
    and q: "\<And>q. q \<in> set (y_reqs y) \<Longrightarrow> q \<in> set (y_reqs z) \<or> f_resolver (futs (y_st z) ! q_promise q) \<noteq> None"
  shows "awaits z h ca sb"
proof (cases sb)
  case None
  with w show ?thesis by (simp add: awaits_def)
next
  case (Some b)
  have r: "f_resolver (futs (y_st z) ! f) = Some r" if "waiting n f a (y_st y)" "f_resolver (futs (y_st y) ! f) = Some r"
    for n f a r
    using grows_resolver [OF g] that by (auto simp: waiting_def)
  show ?thesis
  proof (cases ca)
    case None
    then obtain p where p: "waiting sent_fn p b (y_st y)" "f_resolver (futs (y_st y) ! p) \<noteq> None"
      using w Some by (auto simp: awaits_def)
    have "waiting sent_fn p b (y_st z)" by (rule waiting_grows [OF g p(1)]) (use x Some in auto)
    with p r [OF p(1)] None Some show ?thesis by (auto simp: awaits_def)
  next
    case (Some a)
    obtain f where b: "waiting sent_fn (a_future (acts (y_st y) ! a)) b (y_st y)" and a: "waiting conn_fn f a (y_st y)"
      and o: "f_resolver (futs (y_st y) ! f) = None \<Longrightarrow> connect_open y h f"
      using w [unfolded Some \<open>sb = Some b\<close>] by (rule awaits_connE) auto
    have "a_future (acts (y_st z) ! a) = a_future (acts (y_st y) ! a)"
      using g a by (auto simp: grows_def same_act_def waiting_def)
    moreover have "waiting sent_fn (a_future (acts (y_st y) ! a)) b (y_st z)" "waiting conn_fn f a (y_st z)"
      by (rule waiting_grows [OF g]; use a b x Some \<open>sb = Some b\<close> in auto)+
    moreover have "connect_open z h f" if n: "f_resolver (futs (y_st z) ! f) = None"
    proof -
      have "f_resolver (futs (y_st y) ! f) = None"
        using r [OF a] n by (cases "f_resolver (futs (y_st y) ! f)") auto
      with o q n show ?thesis unfolding connect_open_def by (metis (lifting))
    qed
    ultimately show ?thesis using Some \<open>sb = Some b\<close> by (auto simp: awaits_def)
  qed
qed

lemma awaits_unexecuted: "awaits y h ca sb \<Longrightarrow> set (execd (y_st y)) \<inter> (set_option ca \<union> set_option sb) = {}"
  by (cases ca; cases sb) (auto simp: awaits_def waiting_def)

lemma awaits_ext:
  assumes w: "awaits y h ca sb" and e: "ext (y_st y) (y_st z)" and q: "set (y_reqs y) \<subseteq> set (y_reqs z)"
  shows "awaits z h ca sb"
proof (rule awaits_grows [OF w])
  show "grows (y_st y) (y_st z)" using e by (simp add: ext_def)
  show "set (execd (y_st z)) \<inter> (set_option ca \<union> set_option sb) = {}"
    using awaits_unexecuted [OF w] e by (simp add: ext_def quiet_def execd_def)
qed (use q in auto)

section \<open>Sending a request\<close>

lemma reject_run:
  assumes i: "inv [] s" and on: "isOnEventLoopThread s" and uv: "uv_ok E"
  shows "promise_Reject E e s = (Inr (length (futs s)), settle (length (futs s)) (RError e) (add_future True s))"
    "ext s (settle (length (futs s)) (RError e) (add_future True s))"
    "f_resolver (futs (settle (length (futs s)) (RError e) (add_future True s)) ! length (futs s)) = Some (RError e)"
proof -
  let ?f = "length (futs s)" and ?s = "add_future True s"
  have n: "inv [] ?s" "?f < length (futs ?s)" "f_resolver (futs ?s ! ?f) = None" "isOnEventLoopThread ?s"
    using inv_add_future [OF i] on by (simp_all add: add_future_nth isOnEventLoopThread_def add_future_def)
  have "future_reject E ?f e ?s = (Inr (), settle ?f (RError e) ?s)"
    using resolve_future_uv_ok [OF n(1,2) uv n(4), of "RError e"] n(3) by simp
  then show "promise_Reject E e s = (Inr ?f, settle ?f (RError e) ?s)"
    by (simp add: promise_Reject_def promise_new_def promise_reject_def new_future_eq monad_defs)
  show "ext s (settle ?f (RError e) ?s)"
    using ext_trans [OF ext_add_future ext_settle [OF n(1-3)]] .
  show "f_resolver (futs (settle ?f (RError e) ?s) ! ?f) = Some (RError e)"
    using settle_fut [OF n(2), of ?f "RError e"] by simp
qed

text \<open>What happens on the handles while the client waits for its socket: nothing that undoes a wait.\<close>

definition moves :: "nat \<Rightarrow> 'v hsys \<Rightarrow> 'v hsys \<Rightarrow> bool" where
  "moves h y z \<longleftrightarrow> ext (y_st y) (y_st z) \<and> set (y_reqs y) \<subseteq> set (y_reqs z) \<and> length (y_objs z) = length (y_objs y) \<and>
     h_closing (y_objs z ! h) = h_closing (y_objs y ! h) \<and> h_reading (y_objs z ! h) = h_reading (y_objs y ! h)"

lemma moves_trans: "moves h y u \<Longrightarrow> moves h u z \<Longrightarrow> moves h y z"
  by (auto simp: moves_def intro: ext_trans)

lemma tcp_connect_run:
  assumes ok: "hok y" and on: "isOnEventLoopThread (y_st y)" and h: "h < length (y_objs y)" and uv: "uv_ok E"
  shows "\<exists>f u. Tcp_connect E h version addr res y = (Inr f, u) \<and> f < length (futs (y_st u)) \<and> moves h y u \<and>
    (f_resolver (futs (y_st u) ! f) = None \<longrightarrow> connect_open u h f)"
proof -
  have i: "inv [] (y_st y)" and p: "h_ptr (y_objs y ! h)"
    using ok h by (simp_all add: hok_def owns_def struct_ok_def handle_ok_def)
  let ?s = "add_future False (y_st y)"
  have i1: "inv [] ?s" "isOnEventLoopThread ?s" "ext (y_st y) ?s"
    using inv_add_future [OF i] on ext_add_future by (simp_all add: isOnEventLoopThread_def add_future_def)
  note r = reject_run [OF i on uv] and r1 = reject_run [OF i1(1,2) uv]
  show ?thesis
    using h p ext_futs [OF r(2)] ext_futs [OF r1(2)] ext_trans [OF i1(3) r1(2)] i1(3) r(2)
    by (auto simp: Tcp_connect_def Let_def request_defs on_fut_def r(1,3) r1(1) r1(3) [simplified] moves_def upd_handle_def connect_open_def)
qed

lemma attach_future_run:
  assumes ok: "hok y" and on: "isOnEventLoopThread (y_st y)" and f: "f < length (futs (y_st y))" and uv: "uv_ok E"
  shows "\<exists>g z. attach_future E f n y = (Inr (length (acts (y_st y)), g), z) \<and> g < length (futs (y_st z)) \<and>
    a_future (acts (y_st z) ! length (acts (y_st y))) = g \<and> moves h y z \<and> hstep E S iv y z \<and>
    waiting n f (length (acts (y_st y))) (y_st z) \<and> y_reqs z = y_reqs y \<and>
    f_resolver (futs (y_st z) ! f) = f_resolver (futs (y_st y) ! f)"
proof -
  let ?s = "y_st y" and ?a = "length (acts (y_st y))" and ?g = "length (futs (y_st y))"
  let ?t = "attach_st KThen f (UserFn n) ?s" and ?m = "made KThen (UserFn n) ?s"
  have i: "inv [] ?s" using ok by (simp add: hok_def owns_def)
  have run: "future_then E f (UserFn n) ?s = (Inr ?g, ?t)"
    using attach_run(2) [OF i f, of "UserFn n" E KThen] uv by (simp add: future_then_def)
  note w = then_waiting [OF i f on run]
  have new: "free ?m ?a" using inv_new_action [OF i, of "UserFn n" KThen] by simp
  have "same_act (acts ?m ! ?a) (acts ?t ! ?a)"
    using ext_act [OF ext_pushed [OF _ new], of f ?a] f attach_st_on [OF on, of KThen f "UserFn n"] by simp
  then have "a_future (acts ?t ! ?a) = ?g" by (simp add: same_act_def add_action_nth)
  moreover have "?g < length (futs ?t)" using attach_st_props(3) [OF i f, of "UserFn n" KThen] by simp
  moreover have "hstep E S iv y (y\<lparr>y_st := ?t\<rparr>)" by (rule h_lib [OF then_step [OF f run]])
  ultimately show ?thesis using w run
    by (intro exI [of _ ?g] exI [of _ "y\<lparr>y_st := ?t\<rparr>"]) (simp add: attach_future_def on_fut_def monad_defs moves_def)
qed

lemma attach_fn_future:
  "attach_fn E f n y = (case attach_future E f n y of (r, z) \<Rightarrow> (map_sum id fst r, z))"
  by (auto simp: attach_fn_def attach_future_def bindM_def retM_def split: prod.splits sum.splits)

lemma connect_then_run:
  assumes ok: "hok y" "own (y_st y)" and on: "isOnEventLoopThread (y_st y)" and h: "h < length (y_objs y)"
    and d: "\<not> h_closing (y_objs y ! h)" and uv: "uv_ok E"
  shows "\<exists>a b z. connect_then E h version addr res y = (Inr (a, b), z) \<and> moves h y z \<and> hsteps E S iv y z \<and>
    awaits z h (Some a) (Some b)"
proof -
  obtain f u where u: "Tcp_connect E h version addr res y = (Inr f, u)" "f < length (futs (y_st u))" "moves h y u"
    "f_resolver (futs (y_st u) ! f) = None \<longrightarrow> connect_open u h f"
    using tcp_connect_run [OF ok(1) on h uv, of version addr res] by (elim exE conjE) (rule that)
  have hd: "h_data (y_objs y ! h)" using ok(1) h d by (simp add: hok_def struct_ok_def handle_ok_def)
  have su: "hstep E S iv y u" for S iv by (rule h_connect [OF h _ u(1)]) (simp add: hd)
  have uo: "hok u" "own (y_st u)" using hstep_own [OF conjI [OF ok] su] by blast+
  have onu: "isOnEventLoopThread (y_st u)" using u(3) isOn_ext on by (auto simp: moves_def)
  let ?a = "length (acts (y_st u))"
  obtain g v where v: "attach_future E f conn_fn u = (Inr (?a, g), v)" "g < length (futs (y_st v))"
    "a_future (acts (y_st v) ! ?a) = g" "moves h u v" "hstep E S iv u v" "waiting conn_fn f ?a (y_st v)"
    "y_reqs v = y_reqs u" "f_resolver (futs (y_st v) ! f) = f_resolver (futs (y_st u) ! f)"
    using attach_future_run [OF uo(1) onu u(2) uv, of conn_fn h S iv] by blast
  have vo: "hok v" "own (y_st v)" using hstep_own [OF conjI [OF uo] v(5)] by blast+
  have onv: "isOnEventLoopThread (y_st v)" using v(4) isOn_ext onu by (auto simp: moves_def)
  let ?b = "length (acts (y_st v))"
  obtain k z where z: "attach_future E g sent_fn v = (Inr (?b, k), z)" "moves h v z" "hstep E S iv v z"
    "waiting sent_fn g ?b (y_st z)" "y_reqs z = y_reqs v"
    using attach_future_run [OF vo(1) onv v(2) uv, of sent_fn h S iv] by blast
  have run: "connect_then E h version addr res y = (Inr (?a, ?b), z)"
    using u(1) v(1) z(1) by (simp add: connect_then_def attach_fn_future monad_defs)
  have e: "ext (y_st v) (y_st z)" using z(2) by (simp add: moves_def)
  have a: "?a < length (acts (y_st v))" using v(6) by (simp add: waiting_def)
  have "a_future (acts (y_st z) ! ?a) = g" using ext_act [OF e a] v(3) by (simp add: same_act_def)
  moreover have "waiting conn_fn f ?a (y_st z)" by (rule waiting_ext [OF e v(6)])
  moreover have "connect_open z h f" if "f_resolver (futs (y_st z) ! f) = None"
  proof -
    have "f_resolver (futs (y_st v) ! f) = None"
      using e v(6) grows_resolver [of "y_st v" "y_st z" f] that
      by (cases "f_resolver (futs (y_st v) ! f)") (auto simp: ext_def waiting_def)
    then show ?thesis using u(4) v(7,8) z(5) by (simp add: connect_open_def)
  qed
  ultimately have "awaits z h (Some ?a) (Some ?b)" using z(4) by (auto simp: awaits_def)
  moreover have "hsteps E S iv y z" using su v(5) z(3) by (meson hsys.one hsys.one_more)
  moreover have "moves h y z" using u(3) v(4) z(2) moves_trans by blast
  ultimately show ?thesis using run by blast
qed

lemma stream_write_run:
  assumes ok: "hok y" and on: "isOnEventLoopThread (y_st y)" and h: "h < length (y_objs y)" and uv: "uv_ok E"
  shows "\<exists>f u. Stream_write E h res y = (Inr f, u) \<and> moves h y u"
proof -
  let ?f = "length (futs (y_st y))" and ?s = "add_future False (y_st y)"
  have p: "h_ptr (y_objs y ! h)" and i: "inv [] (y_st y)"
    using ok h by (simp_all add: hok_def owns_def struct_ok_def handle_ok_def)
  have n: "inv [] ?s" "?f < length (futs ?s)" "f_resolver (futs ?s ! ?f) = None" "isOnEventLoopThread ?s"
    using inv_add_future [OF i] on by (simp_all add: add_future_nth isOnEventLoopThread_def add_future_def)
  have "future_reject E ?f e ?s = (Inr (), settle ?f (RError e) ?s)" for e
    using resolve_future_uv_ok [OF n(1,2) uv n(4), of "RError e"] n(3) by simp
  moreover have "ext (y_st y) (settle ?f (RError e) ?s)" for e
    by (rule ext_trans [OF ext_add_future ext_settle [OF n(1-3)]])
  ultimately show ?thesis
    using p ext_add_future by (auto simp: Stream_write_def request_defs moves_def)
qed

lemma tcp_create_run:
  assumes "isOnEventLoopThread (y_st y)"
  shows "\<exists>z. Tcp_Create y = (Inr (length (y_objs y)), z) \<and> length (y_objs z) = Suc (length (y_objs y)) \<and>
    \<not> h_closing (y_objs z ! length (y_objs y)) \<and> \<not> h_reading (y_objs z ! length (y_objs y)) \<and> isOnEventLoopThread (y_st z) \<and>
    ext (y_st y) (y_st z)"
  using assms ext_add_future [of "y_st y" False]
  by (simp add: Tcp_Create_def handle_defs nth_append isOnEventLoopThread_def add_future_def)

section \<open>The client and its socket stay together\<close>

definition k_linked :: "('v, 'p) cwired \<Rightarrow> bool" where
  "k_linked k \<longleftrightarrow> (cl_socket (k_client k) \<longrightarrow> k_sock k < length (y_objs (k_hsys k)) \<and> \<not> h_closing (k_obj k) \<and>
       (h_reading (k_obj k) \<longrightarrow> cl_reading (k_client k))) \<and>
     (cl_waiting (k_client k) \<longleftrightarrow> k_sent k \<noteq> None) \<and> awaits (k_hsys k) (k_sock k) (k_conn k) (k_sent k)"

definition k_matched :: "'v env \<Rightarrow> 'p clenv \<Rightarrow> (int \<Rightarrow> string) \<Rightarrow> (nat \<Rightarrow> 'v payload) \<Rightarrow>
    ('v, 'p) cwired \<Rightarrow> ('v, 'p) cwired \<Rightarrow> bool" where
  "k_matched E L S iv k v \<longleftrightarrow> k_linked v \<and> hsteps E S iv (k_hsys k) (k_hsys v) \<and>
     (k_client v = k_client k \<or> client_step L (k_client k) (k_client v))"

lemma client_end_cases:
  "client_end L data c = (r, c') \<Longrightarrow> cl_socket c' \<and> cl_reading c' = cl_reading c \<and>
     (cl_waiting c' \<longleftrightarrow> cl_waiting c \<or> r = Inr ()) \<and> (cl_socket c \<longrightarrow> r \<noteq> Inr ())"
  by (cases "endData data (cl_out c)") (auto simp: client_end_def monad_defs on_out_def split: sum.splits if_splits)

text \<open>The assumptions of the steps, in one.\<close>

definition k_facts :: "'v env \<Rightarrow> ('v, 'p) cwired \<Rightarrow> bool" where
  "k_facts E k \<longleftrightarrow> uv_ok E \<and> client_fns E \<and> hok (k_hsys k) \<and> own (k_st k) \<and> client_ok (k_client k) \<and> k_linked k"

lemma k_factsD:
  assumes "k_facts E k"
  shows "uv_ok E" "client_fns E" "hok (k_hsys k)" "own (k_st k)" "inv [] (k_st k)" "client_ok (k_client k)"
    "awaits (k_hsys k) (k_sock k) (k_conn k) (k_sent k)" "cl_waiting (k_client k) \<longleftrightarrow> k_sent k \<noteq> None"
    "cl_socket (k_client k) \<Longrightarrow> k_sock k < length (y_objs (k_hsys k)) \<and> \<not> h_closing (k_obj k)"
    "cl_socket (k_client k) \<Longrightarrow> h_reading (k_obj k) \<Longrightarrow> cl_reading (k_client k)"
    "k_sent k \<noteq> None \<Longrightarrow> cl_socket (k_client k) \<and> \<not> cl_reading (k_client k)"
    "k_conn k \<noteq> None \<Longrightarrow> k_sent k \<noteq> None" "k_sent k = None \<Longrightarrow> k_conn k = None"
  using assms by (auto simp: k_facts_def k_linked_def hok_def owns_def client_ok_def awaits_def)

lemma end_matched:
  assumes k: "k_facts E k" and on: "isOnEventLoopThread (k_st k)"
    and run: "request_end E L data version addr res k = (r, v)"
  shows "k_matched E L S iv k v"
proof -
  note f = k_factsD [OF k]
  obtain q c where c: "client_end L data (k_client k) = (q, c)" by (rule prod.exhaust)
  note ce = client_end_cases [OF c]
  have st: "client_step L (k_client k) c" by (rule cl_end [OF c])
  show ?thesis
  proof (cases "cl_socket (k_client k)")
    case True
    then have "v = k\<lparr>k_client := c\<rparr>" using run c by (simp add: request_end_def)
    with True ce st f(7-10) show ?thesis by (simp add: k_matched_def k_linked_def)
  next
    case False
    then have none: "k_sent k = None" "k_conn k = None" using f(11,13) by blast+
    let ?y = "k_hsys k" and ?h = "length (y_objs (k_hsys k))"
    obtain z where z: "Tcp_Create ?y = (Inr ?h, z)" "length (y_objs z) = Suc ?h" "\<not> h_closing (y_objs z ! ?h)"
      "\<not> h_reading (y_objs z ! ?h)" "isOnEventLoopThread (y_st z)"
      using tcp_create_run [OF on] by blast
    have sz: "hstep E S iv ?y z" by (rule h_tcp [OF z(1)])
    have zo: "hok z" "own (y_st z)" using hstep_own [OF conjI [OF f(3,4)] sz] by blast+
    have h: "?h < length (y_objs z)" using z(2) by simp
    show ?thesis
    proof (cases q)
      case (Inl e)
      have v: "v = k\<lparr>k_client := c, k_hsys := z, k_sock := ?h\<rparr>"
        using run c z(1) False Inl by (simp add: request_end_def on_k_def monad_defs)
      show ?thesis using ce st z(2-4) sz none f(8) Inl
        by (auto simp: v k_matched_def k_linked_def awaits_def intro: hsys.one)
    next
      case (Inr x)
      obtain a b u where u: "connect_then E ?h version addr res z = (Inr (a, b), u)" "moves ?h z u" "hsteps E S iv z u"
        "awaits u ?h (Some a) (Some b)"
        using connect_then_run [OF zo z(5) h z(3) f(1), of version addr res S iv] by blast
      have v: "v = k\<lparr>k_client := c, k_hsys := u, k_sock := ?h, k_conn := Some a, k_sent := Some b\<rparr>"
        using run c z(1) u(1) False Inr by (auto simp: request_end_def on_k_def monad_defs)
      show ?thesis using ce st z(2-4) sz u(2-4) Inr
        by (auto simp: v k_matched_def k_linked_def moves_def intro: converse_rtranclp_into_rtranclp)
    qed
  qed
qed

lemma in_loop_on: "k_in_loop k \<Longrightarrow> isOnEventLoopThread (k_st k)"
  by (simp add: k_in_loop_def isOnEventLoopThread_def)

text \<open>The action of the connection settles the future that the other one waits for.\<close>

lemma conn_fires:
  assumes ok: "hok y" "own (y_st y)" and e: "uv_ok E" "client_fns E" and w: "awaits y h (Some a) sb"
    and a: "a \<in> set (pending (y_st y))" and l: "loop_started (y_st y)" "cur_thread (y_st y) = loop_thread (y_st y)"
  shows "\<exists>t x. Async E a (y_st y) = (Inr (), t) \<and> hstep E S iv y (y\<lparr>y_st := t\<rparr>) \<and> awaits (y\<lparr>y_st := t\<rparr>) h None sb \<and>
    loop_started t \<and> cur_thread t = loop_thread t \<and> a_resolver (acts (y_st y) ! a) = Some x \<and>
    f_resolver (futs t ! a_future (acts (y_st y) ! a)) = Some (case x of RValue v \<Rightarrow> RValue Void | RError m \<Rightarrow> RError m)"
proof -
  let ?s = "y_st y" and ?g = "a_future (acts (y_st y) ! a)"
  have i: "inv [] ?s" using ok by (simp add: hok_def owns_def)
  have on: "isOnEventLoopThread ?s" using l by (simp add: isOnEventLoopThread_def)
  obtain b f where b: "sb = Some b" "waiting sent_fn ?g b ?s" and f: "waiting conn_fn f a ?s"
    using w by (rule awaits_connE)
  obtain x where x: "a_resolver (acts ?s ! a) = Some x" using inv_pending(2) [OF i a] by (auto simp: active_def)
  have fn: "a_fn (acts ?s ! a) = UserFn conn_fn" "a_kind (acts ?s ! a) = KThen" using f by (simp_all add: waiting_def)
  let ?r = "case x of RValue v \<Rightarrow> RValue Void | RError m \<Rightarrow> RError m" and ?u = "log_exec a ?s"
  have r: "running a ?u" by (rule running_log_exec [OF i ok(2) a on])
  have ex: "executeAsync E a ?u = (Inr (), settle ?g ?r ?u)"
    by (rule spec_turn [OF r e(1), where n = conn_fn and x = x])
      (use fn x e(2) in \<open>simp_all add: client_fns_def split: resolver.split\<close>)
  let ?t = "uv_close a (settle ?g ?r ?u)"
  have run: "Async E a ?s = (Inr (), ?t)" by (rule Async_eq [OF i a ex])
  have st: "step E ?s ?t" by (rule step_fire [OF l a run])
  have g: "?g < length (futs ?u)" using r by (simp add: running_def reserved_def)
  have res: "f_resolver (futs ?t ! ?g) = Some ?r" using settle_fut [OF g] by (simp add: uv_close_def)
  have ab: "a \<noteq> b" using fn(1) b(2) by (auto simp: waiting_def conn_fn_def sent_fn_def)
  have "execd ?t = execd ?s @ [a]"
    by (simp add: execd_def uv_close_def settle_def set_resolver_def log_exec_def)
  then have "b \<notin> set (execd ?t)" using ab b(2) by (auto simp: waiting_def)
  from waiting_grows [OF grows_step [OF st i] b(2) this] have "waiting sent_fn ?g b ?t" .
  with res b(1) have "awaits (y\<lparr>y_st := ?t\<rparr>) h None sb" by (auto simp: awaits_def)
  moreover have "loop_started ?t \<and> cur_thread ?t = loop_thread ?t"
    using l by (simp add: uv_close_def settle_def set_resolver_def log_exec_def)
  ultimately show ?thesis using run res x h_lib [OF st] by blast
qed

lemma on_k_Inr: "on_k m k = (Inr x, v) \<longleftrightarrow> (\<exists>y. m (k_hsys k) = (Inr x, y) \<and> v = k\<lparr>k_hsys := y\<rparr>)"
  by (auto simp: on_k_def split: prod.splits)

lemma moves_wait:
  assumes "moves h y u" and "awaits y h ca sb"
  shows "awaits u h ca sb"
  by (rule awaits_ext [OF assms(2)]) (use assms(1) in \<open>simp_all add: moves_def\<close>)

text \<open>Before its function ends the turn of the first action has written, if the connection is made.\<close>

lemma connected_writes:
  assumes k: "k_facts E k" and l: "k_in_loop k" and c: "k_conn k = Some a" and a: "a \<in> set (pending (k_st k))"
  obtains u where "moves (k_sock k) (k_hsys k) u" "hsteps E S iv (k_hsys k) u"
    "connected_turn E a res k = on_k (on_fut (Async E a)) (k\<lparr>k_hsys := u, k_conn := None\<rparr>)"
    "hok u" "own (y_st u)" "awaits u (k_sock k) (Some a) (k_sent k)" "a \<in> set (pending (y_st u))"
    "loop_started (y_st u)" "cur_thread (y_st u) = loop_thread (y_st u)"
proof -
  note f = k_factsD [OF k] and on = in_loop_on [OF l]
  have so: "k_sock k < length (y_objs (k_hsys k))" "\<not> h_closing (k_obj k)"
    using f(9,11,12) c by auto
  let ?y = "k_hsys k" and ?h = "k_sock k"
  have "\<exists>u. moves ?h ?y u \<and> hsteps E S iv ?y u \<and>
      connected_turn E a res k = on_k (on_fut (Async E a)) (k\<lparr>k_hsys := u, k_conn := None\<rparr>)"
  proof (cases "failure a (k_st k) = None")
    case True
    obtain g u where u: "Stream_write E ?h res ?y = (Inr g, u)" "moves ?h ?y u"
      using stream_write_run [OF f(3) on so(1) f(1)] by blast
    have "h_data (k_obj k)" using f(3) so by (simp add: hok_def struct_ok_def handle_ok_def)
    with h_write [OF so(1) _ u(1)] have "hstep E S iv ?y u" by simp
    with True u show ?thesis
      by (intro exI [of _ u]) (auto simp: connected_turn_def on_k_def monad_defs intro: hsys.one)
  next
    case False
    then obtain m where "failure a (k_st k) = Some m" by blast
    then show ?thesis by (intro exI [of _ ?y]) (simp add: connected_turn_def monad_defs moves_def)
  qed
  then obtain u where u: "moves ?h ?y u" "hsteps E S iv ?y u"
    "connected_turn E a res k = on_k (on_fut (Async E a)) (k\<lparr>k_hsys := u, k_conn := None\<rparr>)" by blast
  moreover have "hok u" "own (y_st u)" using owned_sys.runs [OF u(2)] f(3,4) by blast+
  moreover have "awaits u ?h (Some a) (k_sent k)" using moves_wait [OF u(1) f(7)] c by simp
  moreover have "a \<in> set (pending (y_st u))" "loop_started (y_st u)" "cur_thread (y_st u) = loop_thread (y_st u)"
    using u(1) a l by (auto simp: moves_def ext_def quiet_def k_in_loop_def)
  ultimately show ?thesis by (rule that)
qed

lemma connected_goes_on:
  assumes k: "k_facts E k" and l: "k_in_loop k" and c: "k_conn k = Some a" and a: "a \<in> set (pending (k_st k))"
  shows "\<exists>v. connected_turn E a res k = (Inr (), v)"
proof -
  note f = k_factsD [OF k]
  fix S :: "int \<Rightarrow> string" and iv :: "nat \<Rightarrow> 'a payload"
  obtain u where u: "connected_turn E a res k = on_k (on_fut (Async E a)) (k\<lparr>k_hsys := u, k_conn := None\<rparr>)"
    "hok u" "own (y_st u)" "awaits u (k_sock k) (Some a) (k_sent k)" "a \<in> set (pending (y_st u))"
    "loop_started (y_st u)" "cur_thread (y_st u) = loop_thread (y_st u)"
    using connected_writes [OF k l c a, where S = S and iv = iv] by blast
  from conn_fires [OF u(2,3) f(1,2) u(4-7), of S iv] u(1) show ?thesis by (auto simp: on_k_def on_fut_def)
qed

lemma connected_matched:
  assumes k: "k_facts E k" and l: "k_in_loop k" and c: "k_conn k = Some a" and a: "a \<in> set (pending (k_st k))"
    and run: "connected_turn E a res k = (Inr (), v)"
  shows "k_matched E L S iv k v" "k_in_loop v"
    "\<exists>x. a_resolver (acts (k_st k) ! a) = Some x \<and> k_client v = k_client k \<and> k_sent v = k_sent k \<and> k_conn v = None \<and>
      f_resolver (futs (k_st v) ! a_future (acts (k_st k) ! a)) = Some (case x of RValue v \<Rightarrow> RValue Void | RError m \<Rightarrow> RError m)"
proof -
  note f = k_factsD [OF k] and on = in_loop_on [OF l]
  have so: "cl_socket (k_client k)" "k_sock k < length (y_objs (k_hsys k))" "\<not> h_closing (k_obj k)"
    using f(9,11,12) c by auto
  let ?y = "k_hsys k" and ?h = "k_sock k"
  obtain u where u: "moves ?h ?y u" "hsteps E S iv ?y u"
    "connected_turn E a res k = on_k (on_fut (Async E a)) (k\<lparr>k_hsys := u, k_conn := None\<rparr>)"
    and uo: "hok u" "own (y_st u)" and uw: "awaits u ?h (Some a) (k_sent k)" and up: "a \<in> set (pending (y_st u))"
    "loop_started (y_st u)" "cur_thread (y_st u) = loop_thread (y_st u)"
    using connected_writes [OF k l c a] by blast
  have e: "ext (k_st k) (y_st u)" using u(1) by (simp add: moves_def)
  obtain t x where t: "Async E a (y_st u) = (Inr (), t)" "hstep E S iv u (u\<lparr>y_st := t\<rparr>)"
    "awaits (u\<lparr>y_st := t\<rparr>) ?h None (k_sent k)" "loop_started t" "cur_thread t = loop_thread t"
    "a_resolver (acts (y_st u) ! a) = Some x" 
    "f_resolver (futs t ! a_future (acts (y_st u) ! a)) = Some (case x of RValue v \<Rightarrow> RValue Void | RError m \<Rightarrow> RError m)"
    using conn_fires [OF uo f(1,2) uw up, of S iv] by blast
  have v: "v = k\<lparr>k_hsys := u\<lparr>y_st := t\<rparr>, k_conn := None\<rparr>"
    using run u(3) t(1) by (auto simp: on_k_def on_fut_def)
  have "hsteps E S iv ?y (u\<lparr>y_st := t\<rparr>)" using u(2) t(2) by (rule rtranclp.rtrancl_into_rtrancl)
  then show "k_matched E L S iv k v"
    using so u(1) t(3) f(8,10) by (simp add: v k_matched_def k_linked_def moves_def)
  show "k_in_loop v" using t(4,5) by (simp add: v k_in_loop_def)
  obtain g where g: "waiting conn_fn g a (k_st k)" using f(7) c by (metis awaits_connE)
  obtain r where r: "f_resolver (futs (k_st k) ! g) = Some r" using waiting_pending(1) [OF f(5) g] a by auto
  have "inv [] (y_st u)" using uo(1) by (simp add: hok_def owns_def)
  from waiting_pending(2) [OF this waiting_ext [OF e g]] have "a_resolver (acts (y_st u) ! a) = Some r"
    using grows_resolver [OF _ _ r] e g by (auto simp: ext_def waiting_def)
  with waiting_pending(2) [OF f(5) g r] t(6) have x: "a_resolver (acts (k_st k) ! a) = Some x" by simp
  have "a_future (acts (y_st u) ! a) = a_future (acts (k_st k) ! a)"
    using ext_act [OF e, of a] g by (simp add: same_act_def waiting_def)
  with x t(7) show "\<exists>x. a_resolver (acts (k_st k) ! a) = Some x \<and> k_client v = k_client k \<and> k_sent v = k_sent k \<and>
      k_conn v = None \<and> f_resolver (futs (k_st v) ! a_future (acts (k_st k) ! a)) =
        Some (case x of RValue v \<Rightarrow> RValue Void | RError m \<Rightarrow> RError m)"
    by (auto simp: v)
qed

lemma hsteps_grow: "hsteps E S iv y z \<Longrightarrow> hok y \<Longrightarrow> own (y_st y) \<Longrightarrow> grows (y_st y) (y_st z)"
  by (erule owned_sys.runs_extend) (auto intro: hstep_grows grows_trans)

text \<open>The second action is pending only when the first has run.\<close>

lemma sent_alone:
  assumes k: "k_facts E k" and b: "k_sent k = Some b" "b \<in> set (pending (k_st k))"
  shows "k_conn k = None"
proof (rule ccontr)
  note f = k_factsD [OF k]
  assume "k_conn k \<noteq> None"
  then obtain a where a: "k_conn k = Some a" by blast
  obtain g where g: "waiting sent_fn (a_future (acts (k_st k) ! a)) b (k_st k)" "waiting conn_fn g a (k_st k)"
    using f(7) a b(1) by (metis awaits_connE option.inject)
  have "unsettled (k_st k) (a_future (acts (k_st k) ! a))"
    using own_futD(3) [OF f(4)] g(2) by (simp add: waiting_def)
  with waiting_pending(1) [OF f(5) g(1)] b(2) show False by (simp add: unsettled_def)
qed

lemma sent_matched:
  assumes k: "k_facts E k" and l: "k_in_loop k" and s: "k_sent k = Some b" and b: "b \<in> set (pending (k_st k))"
    and run: "sent_turn E b res k = (Inr (), v)"
  shows "k_matched E L S iv k v"
proof -
  note f = k_factsD [OF k] and none = sent_alone [OF k s b]
  have so: "cl_socket (k_client k)" "k_sock k < length (y_objs (k_hsys k))" "\<not> h_closing (k_obj k)"
      "\<not> h_reading (k_obj k)" "cl_waiting (k_client k)"
    using f(8,9,10,11) s by auto
  let ?y = "k_hsys k" and ?c = "if failure b (k_st k) = None then snd (on_sent (k_client k)) else snd (on_connect_failed (k_client k))"
  have st: "client_step L (k_client k) ?c"
    using cl_sent [OF so(5), of "()"] cl_failed [OF so(5), of "()"] by (simp add: on_sent_def on_connect_failed_def modM_def)
  have c: "cl_socket ?c" "\<not> cl_waiting ?c" "failure b (k_st k) = None \<Longrightarrow> cl_reading ?c"
    using so(1) by (auto simp: on_sent_def on_connect_failed_def modM_def)
  have "\<exists>u. y_st u = k_st k \<and> length (y_objs u) = length (y_objs ?y) \<and> hsteps E S iv ?y u \<and>
      \<not> h_closing (y_objs u ! k_sock k) \<and> (h_reading (y_objs u ! k_sock k) \<longrightarrow> cl_reading ?c) \<and>
      on_k (on_fut (Async E b)) (k\<lparr>k_hsys := u, k_client := ?c, k_sent := None\<rparr>) = (Inr (), v)"
  proof (cases "failure b (k_st k) = None")
    case True
    then obtain x u where u: "readStart (k_sock k) res ?y = (Inr x, u)"
        "on_k (on_fut (Async E b)) (k\<lparr>k_hsys := u, k_client := ?c, k_sent := None\<rparr>) = (Inr (), v)"
      using run by (auto simp: sent_turn_def on_k_def monad_defs split: prod.splits sum.splits)
    have "hstep E S iv ?y u" by (rule h_read [OF so(2) u(1)])
    moreover have "y_st u = k_st k" "length (y_objs u) = length (y_objs ?y)" "\<not> h_closing (y_objs u ! k_sock k)"
      using u(1) so(2,3) by (auto simp: readStart_def get_handle_def upd_handle_def monad_defs split: if_splits)
    ultimately show ?thesis using u(2) c(3) True by (auto intro: hsys.one)
  next
    case False
    then obtain m where "failure b (k_st k) = Some m" by blast
    then show ?thesis using run so by (intro exI [of _ ?y]) (simp add: sent_turn_def monad_defs)
  qed
  then obtain u where u: "y_st u = k_st k" "length (y_objs u) = length (y_objs ?y)" "hsteps E S iv ?y u"
    "\<not> h_closing (y_objs u ! k_sock k)" "h_reading (y_objs u ! k_sock k) \<longrightarrow> cl_reading ?c"
    "on_k (on_fut (Async E b)) (k\<lparr>k_hsys := u, k_client := ?c, k_sent := None\<rparr>) = (Inr (), v)" by blast
  obtain t where t: "Async E b (k_st k) = (Inr (), t)"
    and v: "v = k\<lparr>k_hsys := u\<lparr>y_st := t\<rparr>, k_client := ?c, k_sent := None\<rparr>"
    using u(1,6) by (auto simp: on_k_Inr on_fut_def split: prod.splits)
  have "step E (y_st u) t" unfolding u(1) by (rule step_fire) (use l b t in \<open>simp_all add: k_in_loop_def\<close>)
  from h_lib [OF this] have "hsteps E S iv ?y (u\<lparr>y_st := t\<rparr>)" by (rule rtranclp.rtrancl_into_rtrancl [OF u(3)])
  then show ?thesis using st c so u(2,4,5) none
    unfolding v k_matched_def k_linked_def by (simp add: awaits_def)
qed

lemma read_matched:
  assumes k: "k_facts E k" and so: "cl_socket (k_client k)" "h_reading (k_obj k)"
    and run: "response_read L buf len res k = (Inr (), v)"
  shows "k_matched E L S iv k v"
proof -
  note f = k_factsD [OF k]
  have r: "cl_reading (k_client k)" "\<not> cl_waiting (k_client k)" "k_sent k = None" "k_conn k = None"
      "k_sock k < length (y_objs (k_hsys k))" "\<not> h_closing (k_obj k)"
    using f(8,9,10,11,13) so by auto
  obtain q c where qc: "client_on_read L buf len (k_client k) = (q, c)" by (rule prod.exhaust)
  with run obtain x where c: "client_on_read L buf len (k_client k) = (Inr x, c)"
    by (cases q) (auto simp: response_read_def)
  have st: "client_step L (k_client k) c" by (rule cl_read [OF r(1) c])
  have d: "\<not> cl_waiting c" "going_on c \<or> finished c"
    using client_read [OF f(6) r(1) c] by blast+
  show ?thesis
  proof (cases "cl_socket c")
    case True
    then have "v = k\<lparr>k_client := c\<rparr>" using run c by (simp add: response_read_def)
    with True d st r show ?thesis
      by (auto simp: k_matched_def k_linked_def going_on_def finished_def awaits_def)
  next
    case False
    then obtain z where z: "release_socket (k_sock k) res (k_hsys k) = (Inr (), z)" and v: "v = k\<lparr>k_client := c, k_hsys := z\<rparr>"
      using run c by (auto simp: response_read_def on_k_def split: prod.splits)
    obtain x1 u x2 where u: "readStop (k_sock k) res (k_hsys k) = (Inr x1, u)" "Handle_close (k_sock k) u = (Inr x2, z)"
      using z by (auto simp: release_socket_def bindM_Inr thenM_Inr)
    have "k_sock k < length (y_objs u)"
      using u(1) r(5) by (auto simp: readStop_def get_handle_def upd_handle_def monad_defs split: if_splits)
    with h_stop [OF r(5) u(1)] h_close [OF _ u(2)] have "hsteps E S iv (k_hsys k) z" by (meson hsys.one hsys.one_more)
    with False d st r show ?thesis by (simp add: v k_matched_def k_linked_def awaits_def)
  qed
qed

lemma other_k_matched:
  assumes k: "k_facts E k" and st: "hstep E S iv (k_hsys k) z"
    and o: "cl_socket (k_client k) \<Longrightarrow> h_closing (y_objs z ! k_sock k) = h_closing (k_obj k) \<and>
      h_reading (y_objs z ! k_sock k) = h_reading (k_obj k)"
    and x: "cl_socket (k_client k) \<Longrightarrow> set (execd (y_st z)) \<inter> (set_option (k_conn k) \<union> set_option (k_sent k)) = {}"
  shows "k_matched E L S iv k (k\<lparr>k_hsys := z\<rparr>)"
proof -
  note f = k_factsD [OF k]
  have "awaits z (k_sock k) (k_conn k) (k_sent k)"
  proof (cases "cl_socket (k_client k)")
    case True
    show ?thesis
      by (rule awaits_grows [OF f(7) hstep_grows [OF st f(3,4)] x [OF True] hstep_requests [OF st f(3)]])
  next
    case False
    then have "k_sent k = None" "k_conn k = None" using f(11,13) by blast+
    then show ?thesis by (simp add: awaits_def)
  qed
  then show ?thesis using f(8-10) o hstep_objs [OF st f(3)] st
    by (auto simp: k_matched_def k_linked_def intro: hsys.one)
qed

lemma cwired_matched:
  assumes st: "cwired_step E L S iv k v" and k: "k_facts E k"
  shows "k_matched E L S iv k v"
  using st
proof cases
  case (k_end data version addr res r)
  then show ?thesis by (intro end_matched [OF k])
next
  case (k_connected a res)
  then show ?thesis by (intro connected_matched(1) [OF k])
next
  case (k_started b res)
  then show ?thesis by (intro sent_matched [OF k])
next
  case (k_read buf len res)
  then show ?thesis by (intro read_matched [OF k])
next
  case (k_other z)
  show ?thesis unfolding k_other(1) by (rule other_k_matched [OF k k_other(2)]) (use k_other(4-6) in simp_all)
next
  case (k_unrelated z)
  show ?thesis unfolding k_unrelated(1) by (rule other_k_matched [OF k k_unrelated(2)]) (use k_unrelated(3) in simp_all)
qed

end
