(* ===== verification/ClientWireProps.thy ===== *)
theory ClientWireProps
  imports ClientWire
begin

text \<open>
  What a client on its socket guarantees: its steps are steps of the client of \<open>Client\<close> and of the
  handles of \<open>Handles\<close>, and a request that was sent does not get stuck in its connection.
\<close>

section \<open>The invariant\<close>

definition cwired_ok :: "'v env \<Rightarrow> 'p clenv \<Rightarrow> (int \<Rightarrow> string) \<Rightarrow> (nat \<Rightarrow> 'v payload) \<Rightarrow> ('v, 'p) cwired \<Rightarrow> bool" where
  "cwired_ok E L S iv k \<longleftrightarrow> uv_ok E \<and> client_fns E \<and> hreach E S iv (k_hsys k) \<and> client_reach L (k_client k) \<and> k_linked k"

lemma cwired_ok_facts: "cwired_ok E L S iv k \<Longrightarrow> k_facts E k"
  using owned_sys.always requests.always by (auto simp: cwired_ok_def k_facts_def)

lemma cwired_ok_step:
  assumes k: "cwired_ok E L S iv k" and st: "cwired_step E L S iv k v"
  shows "cwired_ok E L S iv v" "k_matched E L S iv k v"
proof -
  show m: "k_matched E L S iv k v" by (rule cwired_matched [OF st cwired_ok_facts [OF k]])
  have "client_reach L (k_client v)" using k m requests.more by (auto simp: cwired_ok_def k_matched_def)
  moreover have "hreach E S iv (k_hsys v)" using k m hsys.go_on by (auto simp: cwired_ok_def k_matched_def)
  ultimately show "cwired_ok E L S iv v" using k m by (simp add: cwired_ok_def k_matched_def)
qed

lemma cwired_ok_start: "cwired_start E L S iv k \<Longrightarrow> cwired_ok E L S iv k"
proof -
  assume s: "cwired_start E L S iv k"
  then have "client_reach L (k_client k)" using requests.first by (auto simp: cwired_start_def)
  moreover have "\<not> cl_socket (k_client k) \<and> \<not> cl_waiting (k_client k)"
    using s by (auto simp: cwired_start_def client_start_def client_new_def)
  ultimately show ?thesis using s by (simp add: cwired_ok_def cwired_start_def k_linked_def awaits_def)
qed

interpretation cwired: invariant "cwired_start E L S iv" "cwired_step E L S iv" "cwired_ok E L S iv"
  for E :: "'v env" and L :: "'p clenv" and S iv
  by unfold_locales (auto intro: cwired_ok_start cwired_ok_step(1))

section \<open>Every request gets an answer to its connect\<close>

text \<open>A connect that libuv has is answered.\<close>

lemma connect_settles:
  assumes k: "cwired_ok E L S iv k" and c: "k_conn k = Some a" and l: "k_in_loop k"
  shows "\<exists>u. (cwired_step E L S iv)\<^sup>*\<^sup>* k u \<and> k_client u = k_client k \<and> k_sent u = k_sent k \<and> k_conn u = k_conn k \<and>
    k_in_loop u \<and> a \<in> set (pending (k_st u)) \<and> ext (k_st k) (k_st u)"
proof -
  note f = k_factsD [OF cwired_ok_facts [OF k]] and on = in_loop_on [OF l]
  let ?y = "k_hsys k"
  obtain g where g: "waiting conn_fn g a (k_st k)" "f_resolver (futs (k_st k) ! g) = None \<Longrightarrow> connect_open ?y (k_sock k) g"
    using f(7) [unfolded c] by (rule awaits_connE) (rule that)
  show ?thesis
  proof (cases "f_resolver (futs (k_st k) ! g)")
    case (Some x)
    then show ?thesis using waiting_pending(1) [OF f(5) g(1)] l by (intro exI [of _ k]) simp
  next
    case None
    then obtain q where q: "q \<in> set (y_reqs ?y)" "q_promise q = g" "q_handle q = k_sock k" "q_kind q = ReqConnect"
      using g(2) by (auto simp: connect_open_def)
    have d: "h_data (y_objs ?y ! q_handle q)" and fr: "fresh_at (q_promise q) (k_st k)"
      using f(3) q(1) by (auto simp: hok_def struct_ok_def owns_def owned_def)
    let ?r = "request_result S (q_kind q) 0"
    let ?t = "settle (q_promise q) ?r (k_st k)"
    have run: "resolver_resolve_future E ?r (q_promise q) (k_st k) = (Inr (), ?t)"
      by (rule resolve_future_fresh [OF f(5) fr f(1) on])
    let ?z = "completed q ?t ?y"
    have "complete E S q 0 ?y = (Inr (), ?z)" using complete_eq [OF d, of E S 0] run by simp
    then have st: "hstep E S iv ?y ?z" by (rule h_complete [OF q(1)])
    have e: "ext (k_st k) (y_st ?z)"
      using ext_settle [OF f(5) fresh_atD(1,3) [OF fr]] by (simp add: completed_def upd_handle_def)
    let ?u = "k\<lparr>k_hsys := ?z\<rparr>"
    have so: "cl_socket (k_client k)" "k_sock k < length (y_objs ?y)" using c f(9,11,12) by auto
    have "cwired_step E L S iv k ?u"
    proof (rule k_other [OF st so(1)])
      show "h_closing (y_objs ?z ! k_sock k) = h_closing (k_obj k)" "h_reading (y_objs ?z ! k_sock k) = h_reading (k_obj k)"
        using so(2) q(3) by (simp_all add: completed_def upd_handle_def)
      show "set (execd (y_st ?z)) \<inter> (set_option (k_conn k) \<union> set_option (k_sent k)) = {}"
        using awaits_unexecuted [OF f(7)] e by (simp add: ext_def quiet_def execd_def)
    qed
    moreover have "k_in_loop ?u" using l ext_loop [OF e] by (simp add: k_in_loop_def)
    moreover have "a \<in> set (pending (k_st ?u))"
    proof -
      have "inv [] (y_st ?z)" using hstep_own [OF conjI [OF f(3,4)] st] by (simp add: hok_def owns_def)
      from waiting_pending(1) [OF this waiting_ext [OF e g(1)]] hok_completed(2) [OF f(3) q(1) run] q(2)
      show ?thesis by simp
    qed
    ultimately show ?thesis using e by (intro exI [of _ ?u]) (auto intro: cwired.one)
  qed
qed

text \<open>The turn of the second action returns; if it was rejected, so is the future of \<open>end\<close>.\<close>

lemma sent_async:
  assumes i: "inv [] s" and o: "own s" and b: "b \<in> set (pending s)" and on: "isOnEventLoopThread s"
    and uv: "uv_ok E" and fns: "client_fns E" and w: "waiting sent_fn g b s"
  shows "\<exists>t. Async E b s = (Inr (), t) \<and>
    (\<forall>e. failure b s = Some e \<longrightarrow> f_resolver (futs t ! a_future (acts s ! b)) = Some (RError e))"
proof -
  let ?s = "log_exec b s" and ?f = "a_future (acts s ! b)"
  have r: "running b ?s" by (rule running_log_exec [OF i o b on])
  have ri: "inv [b] ?s" and fl: "?f < length (futs ?s)" using r by (simp_all add: running_def reserved_def)
  have fn: "a_fn (acts ?s ! b) = UserFn sent_fn" "a_kind (acts ?s ! b) = KThen" using w by (simp_all add: waiting_def)
  obtain x where x: "a_resolver (acts ?s ! b) = Some x" using inv_pending(2) [OF i b] by (auto simp: active_def)
  have "\<exists>u. executeAsync E b ?s = (Inr (), u) \<and> (\<forall>e. x = RError e \<longrightarrow> f_resolver (futs u ! ?f) = Some (RError e))"
  proof (cases x)
    case (RError e)
    have "executeAsync E b ?s = (Inr (), settle ?f (RError e) ?s)"
      by (rule spec_turn [OF r uv, where n = sent_fn and x = "RError e"]) (use fn x RError in simp_all)
    then show ?thesis using settle_fut [OF fl, of ?f "RError e"] RError by simp
  next
    case (RValue v)
    let ?n = "length (futs ?s)" and ?u = "add_future True ?s"
    have q: "user E sent_fn (ArgValue v) ?s = ([NewPromise], ReturnFuture ?n)" using fns by (simp add: client_fns_def)
    have "?f < length (futs ?u)" "?n < length (futs ?u)" using fl by simp_all
    with forward_returns [OF inv_add_future [OF ri] _ _ uv] obtain t where "forward E ?n ?f ?u = (Inr (), t)" by blast
    then show ?thesis using q fn x RValue
      by (simp add: executeAsync_def resolveCb_def callFn_eq Let_def catchFuture_def monad_defs lift_outcome_def
          on_future_def promise_new_def new_future_eq)
  qed
  then obtain u where u: "executeAsync E b ?s = (Inr (), u)" "\<forall>e. x = RError e \<longrightarrow> f_resolver (futs u ! ?f) = Some (RError e)"
    by blast
  from Async_eq [OF i b u(1)] u(2) x show ?thesis
    by (auto simp: failure_def uv_close_def split: resolver.splits)
qed

lemma sent_goes_on:
  assumes k: "k_facts E k" and l: "k_in_loop k" and s: "k_sent k = Some b" and b: "b \<in> set (pending (k_st k))"
  shows "\<exists>v. sent_turn E b 0 k = (Inr (), v) \<and> (if failure b (k_st k) = None then k_client v = snd (on_sent (k_client k))
    else k_client v = snd (on_connect_failed (k_client k)) \<and>
      f_resolver (futs (k_st v) ! a_future (acts (k_st k) ! b)) = Some (RError (the (failure b (k_st k)))))"
proof -
  note f = k_factsD [OF k] and on = in_loop_on [OF l]
  obtain g where g: "waiting sent_fn g b (k_st k)" using f(7) s by (metis awaitsD)
  obtain t where t: "Async E b (k_st k) = (Inr (), t)"
    "\<forall>e. failure b (k_st k) = Some e \<longrightarrow> f_resolver (futs t ! a_future (acts (k_st k) ! b)) = Some (RError e)"
    using sent_async [OF f(5,4) b on f(1,2) g] by blast
  have so: "k_sock k < length (y_objs (k_hsys k))" "\<not> h_reading (k_obj k)" using f(9-11) s by auto
  then have p: "h_ptr (k_obj k)" using f(3) by (simp add: hok_def struct_ok_def handle_ok_def)
  show ?thesis
    using t so p
    by (cases "failure b (k_st k)")
      (simp_all add: sent_turn_def on_k_def readStart_def get_handle_def upd_handle_def on_fut_def monad_defs)
qed

text \<open>The action of \<open>end\<close> gets its turn.\<close>

lemma sent_pends:
  assumes k: "cwired_ok E L S iv k" and s: "k_sent k = Some b" and l: "k_in_loop k"
  shows "\<exists>u. (cwired_step E L S iv)\<^sup>*\<^sup>* k u \<and> k_client u = k_client k \<and> k_sent u = Some b \<and> k_in_loop u \<and>
    b \<in> set (pending (k_st u)) \<and> a_future (acts (k_st u) ! b) = a_future (acts (k_st k) ! b)"
proof (cases "k_conn k")
  case None
  note f = k_factsD [OF cwired_ok_facts [OF k]]
  obtain g where "waiting sent_fn g b (k_st k)" "f_resolver (futs (k_st k) ! g) \<noteq> None"
    using f(7) s None by (auto simp: awaits_def)
  then show ?thesis using waiting_pending(1) [OF f(5)] s l by (intro exI [of _ k]) auto
next
  case (Some a)
  obtain u where u: "(cwired_step E L S iv)\<^sup>*\<^sup>* k u" "k_client u = k_client k" "k_sent u = k_sent k" "k_conn u = k_conn k"
    "k_in_loop u" "a \<in> set (pending (k_st u))" "ext (k_st k) (k_st u)"
    using connect_settles [OF k Some l] by blast
  have uk: "cwired_ok E L S iv u" by (rule cwired.runs [OF u(1) k])
  note uf = cwired_ok_facts [OF uk] and f = k_factsD [OF cwired_ok_facts [OF k]]
  obtain v where v: "connected_turn E a 0 u = (Inr (), v)" using connected_goes_on [OF uf u(5) _ u(6)] u(4) Some by auto
  note c = connected_matched [OF uf u(5) _ u(6) v, unfolded u(4), OF Some]
  have st: "cwired_step E L S iv u v" by (rule k_connected [OF u(5) _ u(6) v]) (simp add: u(4) Some)
  have vk: "cwired_ok E L S iv v" by (rule cwired_ok_step(1) [OF uk st])
  note vf = k_factsD [OF cwired_ok_facts [OF vk]]
  have cv: "k_client v = k_client k" "k_sent v = Some b" "k_conn v = None" using c(3) u(2,3) s by auto
  obtain g where g: "waiting sent_fn g b (k_st v)" "f_resolver (futs (k_st v) ! g) \<noteq> None"
    using vf(7) cv(2,3) by (auto simp: awaits_def)
  have run: "(cwired_step E L S iv)\<^sup>*\<^sup>* k v" using u(1) st by (rule rtranclp.rtrancl_into_rtrancl)
  obtain g' where g': "waiting sent_fn g' b (k_st k)" using f(7) s by (metis awaitsD)
  have "hsteps E S iv (k_hsys u) (k_hsys v)" using cwired_ok_step(2) [OF uk st] by (simp add: k_matched_def)
  then have "grows (k_st u) (k_st v)" using hsteps_grow k_factsD(3,4) [OF uf] by blast
  then have "grows (k_st k) (k_st v)" using u(7) grows_trans by (auto simp: ext_def)
  then have "a_future (acts (k_st v) ! b) = a_future (acts (k_st k) ! b)"
    using g' by (auto simp: grows_def same_act_def waiting_def)
  with run cv c(2) waiting_pending(1) [OF vf(5) g(1)] g(2) show ?thesis by blast
qed

text \<open>A request that its message lets go is sent.\<close>

lemma end_sends:
  assumes k: "k_facts E k" and l: "k_in_loop k" and c: "client_end L data (k_client k) = (Inr (), c)"
    and so: "\<not> cl_socket (k_client k)"
  shows "\<exists>v. request_end E L data version addr res k = (Inr (), v) \<and> k_client v = c \<and> k_in_loop v"
proof -
  note f = k_factsD [OF k]
  let ?y = "k_hsys k" and ?h = "length (y_objs (k_hsys k))"
  fix S :: "int \<Rightarrow> string" and iv :: "nat \<Rightarrow> 'a payload"
  obtain z where z: "Tcp_Create ?y = (Inr ?h, z)" "length (y_objs z) = Suc ?h" "\<not> h_closing (y_objs z ! ?h)"
    "isOnEventLoopThread (y_st z)" "ext (k_st k) (y_st z)"
    using tcp_create_run [OF in_loop_on [OF l]] by blast
  have sz: "hstep E S iv ?y z" by (rule h_tcp [OF z(1)])
  have zo: "hok z" "own (y_st z)" using hstep_own [OF conjI [OF f(3,4)] sz] by blast+
  have h: "?h < length (y_objs z)" using z(2) by simp
  obtain a b u where u: "connect_then E ?h version addr res z = (Inr (a, b), u)" "moves ?h z u"
    using connect_then_run [OF zo z(4) h z(3) f(1), of version addr res S iv] by blast
  have "ext (k_st k) (y_st u)" using u(2) z(5) ext_trans by (auto simp: moves_def)
  then show ?thesis using c z(1) u(1) so l
    by (auto simp: request_end_def on_k_def monad_defs k_in_loop_def ext_def quiet_def)
qed

section \<open>Properties\<close>

text \<open>C13. A client on its socket refines the client of \<open>Client\<close>: every step is a step of the handles and of
their requests and at most one step of the client, so what is proved of a client for any order in which its
request is sent, fails or is answered holds of the orders that libuv and the loop allow. While the
client has a socket this is an open handle; the client waits exactly while the action with the function of \<open>end\<close>
has not run, and that action waits for the one of the connection, which waits for a future that has a result or
whose request libuv has.\<close>

theorem client_wired_refines:
  assumes "cwired_reach E L S iv k" and "cwired_step E L S iv k v"
  shows "(k_client v = k_client k \<or> client_step L (k_client k) (k_client v)) \<and> hsteps E S iv (k_hsys k) (k_hsys v) \<and>
    client_reach L (k_client v) \<and> hreach E S iv (k_hsys v) \<and>
    (cl_socket (k_client v) \<longrightarrow> k_sock v < length (y_objs (k_hsys v)) \<and> h_data (k_obj v) \<and> \<not> h_closing (k_obj v)) \<and>
    (cl_waiting (k_client v) \<longleftrightarrow> k_sent v \<noteq> None) \<and> awaits (k_hsys v) (k_sock v) (k_conn v) (k_sent v)"
proof -
  note v = cwired_ok_step [OF cwired.always [OF assms(1)] assms(2)]
  note f = k_factsD [OF cwired_ok_facts [OF v(1)]]
  have "h_data (k_obj v)" if "cl_socket (k_client v)"
    using f(3,9) that by (simp add: hok_def struct_ok_def handle_ok_def)
  with v f(7,8,9) show ?thesis by (auto simp: cwired_ok_def k_matched_def)
qed

text \<open>C14. A request is never stuck in its connection: from every reachable state in which a client waits and the loop
runs, libuv and the loop can go on to a state in which it has started to read, or the future that \<open>end\<close> returned is
rejected with the error of the connection.\<close>

theorem client_request_resolved:
  assumes "cwired_reach E L S iv k" and "cl_waiting (k_client k)" and "k_in_loop k"
  shows "\<exists>v b. (cwired_step E L S iv)\<^sup>*\<^sup>* k v \<and> k_sent k = Some b \<and>
    (on_sent (k_client k) = (Inr (), k_client v) \<or>
     on_connect_failed (k_client k) = (Inr (), k_client v) \<and>
       (\<exists>e. f_resolver (futs (k_st v) ! a_future (acts (k_st k) ! b)) = Some (RError e)))"
proof -
  have k: "cwired_ok E L S iv k" by (rule cwired.always [OF assms(1)])
  obtain b where b: "k_sent k = Some b" using k assms(2) by (auto simp: cwired_ok_def k_linked_def)
  obtain u where u: "(cwired_step E L S iv)\<^sup>*\<^sup>* k u" "k_client u = k_client k" "k_sent u = Some b" "k_in_loop u"
    "b \<in> set (pending (k_st u))" "a_future (acts (k_st u) ! b) = a_future (acts (k_st k) ! b)"
    using sent_pends [OF k b assms(3)] by blast
  have uf: "k_facts E u" by (rule cwired_ok_facts [OF cwired.runs [OF u(1) k]])
  obtain v where v: "sent_turn E b 0 u = (Inr (), v)" "if failure b (k_st u) = None then k_client v = snd (on_sent (k_client u))
    else k_client v = snd (on_connect_failed (k_client u)) \<and>
      f_resolver (futs (k_st v) ! a_future (acts (k_st u) ! b)) = Some (RError (the (failure b (k_st u))))"
    using sent_goes_on [OF uf u(4,3,5)] by blast
  have "(cwired_step E L S iv)\<^sup>*\<^sup>* k v" using u(1) k_started [OF u(4,3,5) v(1)] by (rule rtranclp.rtrancl_into_rtrancl)
  then show ?thesis using b v(2) u(2,6)
    by (intro exI [of _ v] exI [of _ b]) (auto simp: on_sent_def on_connect_failed_def modM_def split: if_splits)
qed

text \<open>A program that makes one request.\<close>

definition client_env :: "nat env" where
  "client_env = \<lparr>user = (\<lambda>n x s. if n = conn_fn then ([], Return Void) else ([NewPromise], ReturnFuture (length (futs s)))),
     user_error = (\<lambda>n e s. ([], Inr Void)), uv_async_init = (\<lambda>a. 0), uv_async_send = (\<lambda>a. 0)\<rparr>"

definition cwired_demo :: "(nat, nat) cwired" where
  "cwired_demo = \<lparr>k_hsys = (init_hsys 1)\<lparr>y_st := run_enter 1 (init_st 1)\<rparr>, k_client = client_new demo_http ''GET'' ''h'' 80 ''/'',
     k_sock = 0, k_conn = None, k_sent = None\<rparr>"

lemma cwired_demo_start: "cwired_start client_env demo_http S iv cwired_demo" "k_in_loop cwired_demo"
proof -
  have "step client_env (init_st 1) (run_enter 1 (init_st 1) :: nat st)" by (rule step_enter) (simp add: init_st_def)
  then have "hstep client_env S iv (init_hsys 1) ((init_hsys 1)\<lparr>y_st := run_enter 1 (init_st 1)\<rparr>)"
    using h_lib [of client_env "init_hsys 1"] by (simp add: init_hsys_def)
  then have "hreach client_env S iv (k_hsys cwired_demo)"
    unfolding cwired_demo_def by (auto intro: hsys.more hsys.first)
  then show "cwired_start client_env demo_http S iv cwired_demo"
    by (auto simp: cwired_start_def cwired_demo_def client_env_def uv_ok_def client_fns_def client_start_def
        conn_fn_def sent_fn_def)
  show "k_in_loop cwired_demo" by (simp add: k_in_loop_def cwired_demo_def run_enter_def init_st_def)
qed

lemma cwired_demo_sends:
  obtains k where "cwired_step client_env demo_http S iv cwired_demo k" "cl_waiting (k_client k)" "k_in_loop k"
proof -
  obtain c where c: "http_request demo_http ''GET'' ''h'' 80 ''/'' = (Inr (), c)" "cl_waiting c"
    using http_request_sends by blast
  have "client_end demo_http [] (k_client cwired_demo) = (Inr (), c)" "\<not> cl_socket (k_client cwired_demo)"
    using c(1) by (simp_all add: cwired_demo_def http_request_def client_new_def)
  from end_sends [OF cwired_ok_facts [OF cwired_ok_start [OF cwired_demo_start(1)]] cwired_demo_start(2) this]
  obtain v where v: "request_end client_env demo_http [] 4 0 0 cwired_demo = (Inr (), v)" "k_client v = c" "k_in_loop v"
    by blast
  have "cwired_step client_env demo_http S iv cwired_demo v"
    by (rule k_end [OF in_loop_on [OF cwired_demo_start(2)] v(1)])
  with v(2,3) c(2) that show ?thesis by blast
qed

theorem client_wired_refines_witness:
  "\<exists>k :: (nat, nat) cwired. client_reach demo_http (k_client k) \<and> cl_waiting (k_client k) \<and> k_sent k \<noteq> None"
proof -
  obtain k where k: "cwired_step client_env demo_http (\<lambda>c. []) Val cwired_demo k" "cl_waiting (k_client k)"
    by (rule cwired_demo_sends) blast
  from client_wired_refines [OF cwired.first [OF cwired_demo_start(1)] k(1)] k(2) show ?thesis by blast
qed

theorem client_request_resolved_witness:
  "\<exists>(k :: (nat, nat) cwired) v. (cwired_step client_env demo_http (\<lambda>c. []) Val)\<^sup>*\<^sup>* k v \<and> cl_waiting (k_client k) \<and>
     \<not> cl_waiting (k_client v)"
proof -
  obtain k where k: "cwired_step client_env demo_http (\<lambda>c. []) Val cwired_demo k" "cl_waiting (k_client k)" "k_in_loop k"
    by (rule cwired_demo_sends)
  obtain v where v: "(cwired_step client_env demo_http (\<lambda>c. []) Val)\<^sup>*\<^sup>* k v"
    "on_sent (k_client k) = (Inr (), k_client v) \<or> on_connect_failed (k_client k) = (Inr (), k_client v)"
    using client_request_resolved [OF cwired.more [OF cwired.first [OF cwired_demo_start(1)] k(1)] k(2,3)] by blast
  have "\<not> cl_waiting (k_client v)"
    using v(2) by (auto simp: on_sent_def on_connect_failed_def modM_def dest!: arg_cong [where f = cl_waiting])
  with v(1) k(2) show ?thesis by blast
qed

end
