(* ===== verification/Spec2Isabelle.thy ===== *)
theory Spec2Isabelle
  imports Url AsyncProps UriTemplate Outgoing FsProps Processes Events Exchange Regex Sockets Errors Crypto Verbs ClientWireProps
begin

text \<open>
  A model of nodenative, a C++ library in the manner of node.js: futures and promises that run
  on the event loop of libuv, and on top of them workers, files, streams, timers, an HTTP server
  with routing and timeouts, and an HTTP client. Paths below are relative to the directory that
  holds \<open>include/native\<close> (written without that prefix for headers) and \<open>src\<close>.

  \<^bold>\<open>The parts and how they interact.\<close> Everything asynchronous rests on \<open>FutureShared\<close>: an
  operation gives its caller a future, attaches actions to futures, and an action whose future
  is settled is enqueued on the loop as a \<open>uv_async_t\<close> (\<open>AsyncBase\<close>). \<open>worker()\<close> runs a function
  on a thread of libuv's pool and settles its future on the loop; the functions of \<open>fs.cpp\<close> are
  synchronous functions run by \<open>worker()\<close>. A handle (\<open>Tcp\<close>, \<open>Pipe\<close>, \<open>Timer\<close>) keeps itself alive
  until it is closed, and each request on a stream has a promise of its own. A \<open>Server\<close> listens
  on a \<open>Tcp\<close> handle and makes a \<open>ServerConnection\<close> for each client; the connection feeds what it
  reads to an \<open>IncomingMessage\<close>, asks \<open>ServerPlugin\<close> (which matches URI templates) for the
  callbacks of the request, chains them with \<open>then\<close>, and sends a \<open>ServerResponse\<close>, an
  \<open>OutgoingMessage\<close>. The connection reports to the server, which keeps the timeouts of its
  connections. A \<open>ClientRequest\<close> is an \<open>OutgoingMessage\<close> too, and reads a \<open>ClientResponse\<close>.

  \<^bold>\<open>Theories.\<close>
  \<^item> \<open>Prelude\<close>: the exceptions as the values of \<open>exn\<close>, the state and exception monad \<open>M\<close> in which
    each operation that mutates or throws is written (an exception keeps the state it left
    behind), \<open>std::map\<close> as a list of entries sorted by its comparator. The locale \<open>key_order\<close> is
    the contract of a comparator; its interpretations are \<open>std::less\<close> on strings and numbers and,
    in \<open>Headers\<close>, \<open>ci_less\<close>. The laws of lookup, insertion and removal are proved inside it. The
    locale \<open>invariant\<close> says what follows for all reachable states (\<open>reached\<close>) from a condition
    that steps keep; every step relation of the development interprets it.
  \<^item> \<open>Async\<close>: \<open>async/*\<close>, \<open>src/async/*\<close>, \<open>async.hpp\<close>. A store of futures (\<open>fut\<close>) and of actions
    (\<open>action\<close>); an index stands for a \<open>shared_ptr\<close>. \<open>run_api\<close> is every call a program makes,
    \<open>Async\<close> and \<open>AsyncClosed\<close> are the callbacks of libuv. \<open>AsyncInv\<close> and \<open>AsyncKeeps\<close>: the invariant
    of the store and that each operation keeps it, \<open>AsyncLoop\<close>: the loop as a step relation and
    its reachable states, \<open>AsyncOwn\<close> and \<open>AsyncTurn\<close>: who may settle a future and what one turn
    of the loop does, \<open>AsyncProps\<close>: the promises of the component, among them that a turn
    implements its abstract specification and that the queue drains. \<open>AsyncFresh\<close>: nothing in
    the component settles a future that belongs to another one. \<open>AsyncOwner\<close>: the locale
    \<open>future_store\<close> is the contract between the component and those who own futures, the clients
    \<open>Workers\<close> and \<open>Handles\<close>; it is interpreted on the store of \<open>Async\<close>.
  \<^item> \<open>Loops\<close>: \<open>src/Loop.cpp\<close>, the registry of the loop of each thread and the life of a loop.
  \<^item> \<open>Workers\<close>: \<open>worker.hpp\<close>, \<open>worker/*\<close>, \<open>src/worker/*\<close>; the queue of libuv's pool and the
    threads are steps \<open>pool_step\<close> over the store of \<open>Async\<close>.
  \<^item> \<open>Fs\<close> and \<open>FsProps\<close>: \<open>src/fs.cpp\<close>, \<open>fs.hpp\<close>; a file system is a value of \<open>fslib\<close>, the answers
    of libuv to each call. \<open>FsProps\<close> relates \<open>readFileSync\<close> to the file it reads, and states what
    becomes of the asynchronous versions.
  \<^item> \<open>Handles\<close> and \<open>HandleProps\<close>: \<open>src/base/*\<close>, \<open>src/net/Tcp.cpp\<close>, \<open>src/Pipe.cpp\<close>,
    \<open>src/Timer.cpp\<close>, \<open>async/RequestPromise.hpp\<close>; \<open>hstep\<close> interleaves the program's calls, the
    steps of the loop, and the callbacks of libuv for requests and closed handles. \<open>Sockets\<close>: what
    handles do besides requests, from listening and accepting to the addresses of
    \<open>src/net/net_utils.cpp\<close> and the callbacks of a timer.
  \<^item> \<open>Url\<close>: \<open>src/http.cpp\<close>, percent encoding, against a reference definition over the bytes left.
  \<^item> \<open>UriTemplate\<close>: \<open>src/UriTemplate*.cpp\<close>; parsing to a regular expression, the table of
    formats, and the extraction of values from the groups of a match. \<open>Regex\<close>: \<open>src/Regex.cpp\<close> with
    its three engines. The locale \<open>regex_class\<close> is the contract of the abstract class \<open>Regex\<close>, of
    which the routing of \<open>Router\<close> is the client; it is interpreted on the model of the class.
  \<^item> \<open>Headers\<close>: \<open>text.hpp\<close>, \<open>src/http/MessageBase.cpp\<close>. \<open>HttpMessage\<close>: \<open>src/http/UrlObject.cpp\<close> and
    \<open>src/http/IncomingMessage.cpp\<close>, with the callbacks of http_parser as the events of a list.
    \<open>Outgoing\<close>: \<open>src/http/OutgoingMessage.cpp\<close> with the overrides of \<open>ServerResponse\<close> and
    \<open>ClientRequest\<close>.
  \<^item> \<open>Router\<close>: \<open>src/http/ServerPlugin.cpp\<close>; \<open>Verbs\<close>: the members of \<open>http/ServerPlugin.hpp\<close> for each
    HTTP method. \<open>Connection\<close> and \<open>ConnectionProps\<close>:
    \<open>src/http/ServerConnection.cpp\<close>, \<open>src/http/ServerRequest.cpp\<close> and \<open>ServerPlugin::execute\<close>, with
    \<open>conn_step\<close> for the order in which reads and completions arrive; the locale \<open>conn_kept\<close> carries
    a condition on the response and the socket through everything a connection does, and is
    interpreted for the invariant and for the order of the states of the socket. \<open>Wire\<close>, \<open>Wired\<close>
    and \<open>WiredProps\<close>: a connection on the handle of its socket, with the actions that wait for its
    writes and closes in the store of \<open>Async\<close>; \<open>wired_step\<close> refines \<open>conn_step\<close> and \<open>hstep\<close>, so what
    \<open>Connection\<close> allows at any time comes here from libuv and the loop. \<open>Timeouts\<close>: the
    entries of \<open>src/http/Server.cpp\<close>, at 64 bits. \<open>Server\<close>: the rest of that file, on the locale
    \<open>timeout_table\<close> of \<open>TimeoutTable\<close>, which the entries interpret.
  \<^item> \<open>Client\<close>: \<open>src/http/ClientRequest.cpp\<close> and \<open>src/http/ClientResponse.cpp\<close>. \<open>ClientWire\<close> and
    \<open>ClientWireProps\<close>: a client on the handle of its socket, with the actions that wait for the connection;
    \<open>cwired_step\<close> refines \<open>client_step\<close> and \<open>hstep\<close>.
  \<^item> \<open>Serving\<close>: one request on a kept-alive connection from the bytes read to the bytes written, over
    messages, routing, connections and the server. \<open>Exchange\<close>: a client and a server put together,
    and the requests of \<open>src/http.cpp\<close>.
  \<^item> \<open>Errors\<close>: the objects of \<open>Error.hpp\<close>, which the other theories see as values of \<open>exn\<close> and as
    codes. \<open>Crypto\<close>: \<open>src/crypto/*\<close> over the functions of OpenSSL.
  \<^item> \<open>Processes\<close>: \<open>src/Process.cpp\<close>, a handle that collects the options of a process and starts it.
  \<^item> \<open>Events\<close>: \<open>events.hpp\<close> and \<open>utility.hpp\<close>, an event emitter on which nothing else rests.

  \<^bold>\<open>What the lemmas show.\<close> For each component with a state there is an invariant kept by every
  step (\<open>inv\<close> and \<open>own\<close> for futures, and one for the pool, the handles, the connection, the
  server and the client), and the properties follow from it on every reachable state, for every
  behaviour of the program's callbacks. The pure components have functional descriptions: what
  each operation computes on every branch, round trips, equivalence with a reference. Where the
  code does not do what its comments or tests say, the theorem states what it does.

  \<^bold>\<open>Parameters and their hypotheses.\<close> The code of the program (callbacks, workers) is a field of
  an environment and arbitrary. libuv is its return codes; \<open>uv_ok\<close>, which says that the functions
  for an async handle succeed, is assumed only where a theorem says that something is done rather
  than that nothing goes wrong. http_parser is a function from its state and a buffer to its
  events; routing takes the regular expression library as a function from a pattern, an anchor and a text to
  the groups of a match, and \<open>Regex\<close> makes that function of RE2, of Boost, or of how a pattern of
  \<open>std::regex\<close> matches at one position (\<open>engine\<close>). \<open>reads_file\<close> and \<open>stats_file\<close> say that the calls of libuv on one file give
  its bytes and its size; \<open>client_fns\<close> says what the two
  functions that a client attaches do with futures. \<open>no_url\<close>, \<open>plain_env\<close> and \<open>plain_work\<close> restrict single theorems to inputs without URL
  events and to programs that return values. Every theorem with a hypothesis is applied
  to a concrete instance.

  \<^bold>\<open>Bounds and fuel.\<close> Extraction of nested values has the size of the table of formats as fuel: a
  format refers only to formats registered before it, so it is never used up. The depth of nested plugins in
  \<open>execute\<close> is the field \<open>e_depth\<close> of the environment. \<open>readFile\<close> takes its fuel in reads: one more
  than the length of the file is shown to be enough, because each read makes progress; for a file
  that shrinks no fuel is. An \<open>emit\<close> needs two more than the listeners it calls. The retries of \<open>uv_loop_close\<close> are counted in the same way. The search for all matches of
  a pattern takes twice the length of the text and two, which \<open>all_matches_enough\<close> shows is never used up. The deadlines
  of the timeouts and the flags and modes of files are words of the width the code has.

  \<^bold>\<open>Simplifications.\<close> A mutex makes the operation it guards atomic. A future is settled for
  \<open>void\<close> with \<open>Void\<close>, so one definition stands for a template and its specialisation. Memory is
  not modelled, apart from the references with which an object keeps itself alive. The
  callbacks of a program call the operations of \<open>Async\<close> in the middle of a turn; what they ask of
  workers and handles is a step of its own. libuv completes the requests on a handle before
  it reports the handle closed. The turns of the loop in which the callbacks of a request run are
  steps of the connection, without the actions of their futures in the store. The promise that a client
  makes for its response is the field \<open>cl_result\<close>; what its settling does to the future of \<open>end\<close>, which
  forwards it, is that of \<open>forward\<close> in \<open>Async\<close>.

  \<^bold>\<open>Not modelled.\<close> Everything under \<open>deps\<close> (libuv, http_parser, OpenSSL and the regular expression
  libraries) is third-party code, and so is what \<open>src/http/HttpUtils.cpp\<close> only calls.
  \<open>src/https.cpp\<close>, \<open>src/tls.cpp\<close>, \<open>src/crypto.cpp\<close>, \<open>serialize.hpp\<close>, \<open>tls.hpp\<close> are empty and
  \<open>https/Server.hpp\<close> declares a class without code; \<open>dev.hpp\<close> names instances of the event emitter and has
  stubs. \<open>helper/*\<close> prints call stacks and log lines. The classes of \<open>crypto/SecureContext.hpp\<close>
  have no operations.
\<close>

section \<open>A server and its clients\<close>





end
